(* ===== verification/LK_Prelude.thy ===== *)
theory LK_Prelude
  imports Main "HOL-Library.Word" "HOL-Library.Monad_Syntax"
begin

unbundle bit_operations_syntax

text \<open>
  Shared vocabulary of the development: the machine integer types of the 32-bit ARM target,
  the status codes of \<^verbatim>\<open>include/err.h\<close>, the wrapping time comparisons of
  \<^verbatim>\<open>include/sys/types.h\<close>, the power-of-two helpers of \<^verbatim>\<open>include/pow2.h\<close>, the
  count-leading-zeros builtin the scheduler uses, and the generic lemmas on lists, words and
  options that the components share.

  Signed C integers that only count (critical sections, reference counts, queue lengths) are
  Isabelle integers: overflowing them is undefined in C and no count here comes near it.
  Unsigned integers whose wrap-around matters are words of the width the target has.
\<close>

named_theorems lk_bits \<open>how the bits of a word change\<close>

type_synonym u8 = "8 word"
type_synonym u16 = "16 word"
type_synonym u32 = "32 word"
type_synonym u64 = "64 word"

subsection \<open>Status codes (include/err.h)\<close>

abbreviation (input) NO_ERROR :: int where "NO_ERROR \<equiv> 0"
abbreviation (input) ERROR :: int where "ERROR \<equiv> - 1"
abbreviation (input) ERR_NOT_FOUND :: int where "ERR_NOT_FOUND \<equiv> - 2"
abbreviation (input) ERR_NO_MEMORY :: int where "ERR_NO_MEMORY \<equiv> - 5"
abbreviation (input) ERR_NOT_VALID :: int where "ERR_NOT_VALID \<equiv> - 7"
abbreviation (input) ERR_INVALID_ARGS :: int where "ERR_INVALID_ARGS \<equiv> - 8"
abbreviation (input) ERR_NOT_ENOUGH_BUFFER :: int where "ERR_NOT_ENOUGH_BUFFER \<equiv> - 9"
abbreviation (input) ERR_NOT_SUSPENDED :: int where "ERR_NOT_SUSPENDED \<equiv> - 10"
abbreviation (input) ERR_OBJECT_DESTROYED :: int where "ERR_OBJECT_DESTROYED \<equiv> - 11"
abbreviation (input) ERR_NOT_BLOCKED :: int where "ERR_NOT_BLOCKED \<equiv> - 12"
abbreviation (input) ERR_TIMED_OUT :: int where "ERR_TIMED_OUT \<equiv> - 13"
abbreviation (input) ERR_ALREADY_EXISTS :: int where "ERR_ALREADY_EXISTS \<equiv> - 14"
abbreviation (input) ERR_BAD_PATH :: int where "ERR_BAD_PATH \<equiv> - 18"
abbreviation (input) ERR_ALREADY_MOUNTED :: int where "ERR_ALREADY_MOUNTED \<equiv> - 19"
abbreviation (input) ERR_IO :: int where "ERR_IO \<equiv> - 20"
abbreviation (input) ERR_NOT_DIR :: int where "ERR_NOT_DIR \<equiv> - 21"
abbreviation (input) ERR_NOT_FILE :: int where "ERR_NOT_FILE \<equiv> - 22"
abbreviation (input) ERR_NOT_SUPPORTED :: int where "ERR_NOT_SUPPORTED \<equiv> - 24"

subsection \<open>Wrapping time comparison (include/sys/types.h)\<close>

abbreviation (input) INFINITE_TIME :: u32 where "INFINITE_TIME \<equiv> - 1"

definition TIME_GT :: "u32 \<Rightarrow> u32 \<Rightarrow> bool" where
  "TIME_GT a b \<longleftrightarrow> 0 < sint (a - b)"

definition TIME_LT :: "u32 \<Rightarrow> u32 \<Rightarrow> bool" where
  "TIME_LT a b \<longleftrightarrow> sint (a - b) < 0"

subsection \<open>Count leading zeros\<close>

text \<open>
  \<^verbatim>\<open>__builtin_clz\<close> on a 32-bit operand: the scan from the top bit down. The builtin is
  undefined at 0, where the definition gives 32; every use below tests for 0 first.
\<close>

fun clz_from :: "nat \<Rightarrow> u32 \<Rightarrow> nat" where
  "clz_from 0 w = 32"
| "clz_from (Suc n) w = (if bit w n then 31 - n else clz_from n w)"

definition clz32 :: "u32 \<Rightarrow> nat" where
  "clz32 w = clz_from 32 w"

lemma clz_from_top:
  assumes "\<exists>i < n. bit w i" and "n \<le> 32"
  shows "31 - clz_from n w < n \<and> bit w (31 - clz_from n w) \<and>
    (\<forall>j. 31 - clz_from n w < j \<longrightarrow> j < n \<longrightarrow> \<not> bit w j)"
  using assms
proof (induction n)
  case 0
  then show ?case by simp
next
  case (Suc n)
  show ?case
  proof (cases "bit w n")
    case True
    with Suc.prems show ?thesis by simp
  next
    case False
    with Suc.prems have "\<exists>i < n. bit w i" by (metis less_antisym)
    with Suc.IH Suc.prems have "31 - clz_from n w < n \<and> bit w (31 - clz_from n w) \<and>
      (\<forall>j. 31 - clz_from n w < j \<longrightarrow> j < n \<longrightarrow> \<not> bit w j)" by simp
    with False show ?thesis by (auto simp: less_Suc_eq)
  qed
qed

lemma word32_nonzero_bit:
  fixes w :: u32
  assumes "w \<noteq> 0"
  shows "\<exists>i < 32. bit w i"
proof (rule ccontr)
  assume none: "\<not> (\<exists>i < 32. bit w i)"
  have "w = 0"
    by (rule bit_word_eqI) (use none in auto)
  with assms show False by simp
qed

text \<open>The queue index the scheduler computes is the highest set bit of its bitmap.\<close>

lemma clz32_highest:
  assumes "w \<noteq> 0"
  shows "31 - clz32 w < 32" and "bit w (31 - clz32 w)"
    and "31 - clz32 w < j \<Longrightarrow> j < 32 \<Longrightarrow> \<not> bit w j"
  using clz_from_top [of 32 w] word32_nonzero_bit [OF assms]
  by (auto simp: clz32_def)

subsection \<open>Setting and clearing one bit\<close>

lemma bit_shift_one [lk_bits]:
  "bit (push_bit n 1 :: u32) i \<longleftrightarrow> i = n \<and> n < 32"
  by (auto simp: bit_exp_iff)

lemma bit_set_one [lk_bits]:
  fixes w :: u32
  assumes "i < 32" and "n < 32"
  shows "bit (w OR push_bit n 1) i \<longleftrightarrow> bit w i \<or> i = n"
  using assms by (auto simp: bit_or_iff bit_exp_iff)

lemma bit_clear_one [lk_bits]:
  fixes w :: u32
  assumes "i < 32" and "n < 32"
  shows "bit (w AND NOT (push_bit n 1)) i \<longleftrightarrow> bit w i \<and> i \<noteq> n"
  using assms by (auto simp: bit_and_iff bit_not_iff bit_exp_iff)

subsection \<open>Words as natural numbers\<close>

lemma unat_of_nat_u32: "n < 2 ^ 32 \<Longrightarrow> unat (of_nat n :: u32) = n"
  by (simp add: unat_of_nat)

lemma unat_2p_u32: "n < 32 \<Longrightarrow> unat (2 ^ n :: u32) = 2 ^ n"
  using unat_of_nat_u32 [of "2 ^ n"] power_strict_increasing [of n 32 "2::nat"] by simp

lemma unat_add_u32: "unat a + unat b < 2 ^ 32 \<Longrightarrow> unat (a + b) = unat a + unat (b::u32)"
  using unat_add_lem [of a b] by simp

lemma unat_add_of_nat_u32: "unat a + n < 2 ^ 32 \<Longrightarrow> unat (a + of_nat n :: u32) = unat a + n"
  by (subst unat_add_u32) (simp_all add: unat_of_nat_u32)

lemma unat_lt_u32 [simp]: "unat (w::u32) < 4294967296"
  using unsigned_less [where ?'a = nat, of w] by simp

subsection \<open>Copying bytes\<close>

text \<open>
  \<open>memcpy\<close> into an object that is a list of bytes: \<open>blit\<close> is its effect, \<open>memcpy_into\<close> is undefined
  (\<open>None\<close>) when the bytes do not fit. \<open>slice\<close> reads the bytes of a source object.
\<close>

definition blit :: "nat \<Rightarrow> 'a list \<Rightarrow> 'a list \<Rightarrow> 'a list" where
  "blit off src dst = take off dst @ src @ drop (off + length src) dst"

definition memcpy_into :: "nat \<Rightarrow> 'a list \<Rightarrow> 'a list \<Rightarrow> 'a list option" where
  "memcpy_into off src dst = (if off + length src \<le> length dst then Some (blit off src dst) else None)"

definition slice :: "nat \<Rightarrow> nat \<Rightarrow> 'a list \<Rightarrow> 'a list" where
  "slice off len xs = take len (drop off xs)"

lemma length_blit [simp]: "off + length src \<le> length dst \<Longrightarrow> length (blit off src dst) = length dst"
  by (simp add: blit_def)

lemma blit_Nil [simp]: "blit off [] dst = dst"
  by (simp add: blit_def)

lemma memcpy_into_Some [simp]:
  "off + length src \<le> length dst \<Longrightarrow> memcpy_into off src dst = Some (blit off src dst)"
  by (simp add: memcpy_into_def)

lemma memcpy_into_SomeD:
  "memcpy_into off src dst = Some d \<Longrightarrow> d = blit off src dst \<and> off + length src \<le> length dst"
  by (auto simp: memcpy_into_def split: if_splits)

lemma nth_blit:
  assumes "off + length src \<le> length dst" and "i < length dst"
  shows "blit off src dst ! i = (if off \<le> i \<and> i < off + length src then src ! (i - off) else dst ! i)"
  using assms by (auto simp: blit_def nth_append)

lemma take_blit: "n \<le> off \<Longrightarrow> off \<le> length dst \<Longrightarrow> take n (blit off src dst) = take n dst"
  by (simp add: blit_def min_def)

lemma drop_blit:
  "off + length src \<le> n \<Longrightarrow> off \<le> length dst \<Longrightarrow> drop n (blit off src dst) = drop n dst"
  by (simp add: blit_def)

lemma slice_blit:
  "off + length src \<le> length dst \<Longrightarrow> slice off (length src) (blit off src dst) = src"
  by (simp add: slice_def blit_def)

lemma slice_blit_other:
  assumes "off + length src \<le> length dst" and "i + n \<le> off \<or> off + length src \<le> i"
  shows "slice i n (blit off src dst) = slice i n dst"
proof (cases "i + n \<le> off")
  case True
  then have "take (i + n) (blit off src dst) = take (i + n) dst" using assms by (intro take_blit) auto
  then show ?thesis by (metis slice_def take_drop add.commute)
next
  case False
  then show ?thesis using assms by (simp add: slice_def drop_blit)
qed

lemma blit_split:
  assumes "off + length a + length b \<le> length dst"
  shows "blit (off + length a) b (blit off a dst) = blit off (a @ b) dst"
  by (rule nth_equalityI) (use assms in \<open>auto simp: nth_blit nth_append\<close>)

lemma length_slice [simp]: "length (slice off len xs) = min len (length xs - off)"
  by (simp add: slice_def)

lemma slice_0 [simp]: "slice off 0 xs = []"
  by (simp add: slice_def)

lemma slice_append: "slice off m xs @ slice (off + m) n xs = slice off (m + n) xs"
  by (simp add: slice_def take_add add.commute)

lemma nth_slice: "i < len \<Longrightarrow> off + i < length xs \<Longrightarrow> slice off len xs ! i = xs ! (off + i)"
  by (simp add: slice_def)

text \<open>Numbers of a packed structure, with the low byte first.\<close>

definition le16 :: "u8 list \<Rightarrow> 16 word" where
  "le16 b = ucast (b ! 0) + 256 * ucast (b ! 1)"

definition le32 :: "u8 list \<Rightarrow> u32" where
  "le32 b = ucast (b ! 0) + 256 * ucast (b ! 1) + 65536 * ucast (b ! 2) + 16777216 * ucast (b ! 3)"

lemma unat_and_not_mask:
  assumes "n < 32"
  shows "unat (x AND NOT (mask n) :: u32) = unat x - unat x mod 2 ^ n"
proof -
  have "take_bit n x OR (x AND NOT (mask n)) = x"
    by (rule bit_word_eqI) (auto simp: bit_or_iff bit_and_iff bit_not_iff bit_take_bit_iff bit_mask_iff)
  moreover have "take_bit n x + (x AND NOT (mask n)) = take_bit n x OR (x AND NOT (mask n))"
    by (rule disjunctive_add) (auto simp: bit_and_iff bit_not_iff bit_take_bit_iff bit_mask_iff)
  ultimately have "x AND NOT (mask n) = x - take_bit n x" by (metis add_diff_cancel_left')
  moreover have t: "unat (take_bit n x) = unat x mod 2 ^ n"
    using assms by (simp add: take_bit_eq_mod unat_mod_distrib unat_2p_u32)
  moreover have "take_bit n x \<le> x" using t by (simp add: word_le_nat_alt)
  ultimately show ?thesis by (simp add: unat_sub)
qed

lemma unat_and_mask_u32: "n < 32 \<Longrightarrow> unat (x AND mask n :: u32) = unat x mod 2 ^ n"
  by (simp add: take_bit_eq_mod unat_mod_distrib unat_2p_u32 flip: take_bit_eq_mask)

end
