(* ===== verification/LK_Kernel.thy ===== *)
theory LK_Kernel
  imports LK_Prelude
begin

text \<open>
  The state of the lk kernel (\<^verbatim>\<open>src/bootable/bootloader/lk/lk/kernel\<close> and
  \<^verbatim>\<open>include/kernel\<close>): thread, wait queue, timer, mutex, event and dpc structures, the run
  queues and the critical section counter.

  Structures are addressed by identifiers and live in stores (total functions, as memory is);
  the intrusive lists of \<^verbatim>\<open>list.h\<close> that link them are HOL lists of identifiers (theory
  \<^verbatim>\<open>LK_List\<close> proves that the pointer code implements these lists). The build modelled is the
  one of the product's project files, which set \<^verbatim>\<open>DEBUG := 0\<close>: the checks under
  \<^verbatim>\<open>THREAD_CHECKS\<close>, \<^verbatim>\<open>MUTEX_CHECK\<close> and \<^verbatim>\<open>EVENT_CHECK\<close>, the statistics and
  \<^verbatim>\<open>DEBUG_ASSERT\<close> are compiled out, and no target in the tree defines
  \<^verbatim>\<open>PLATFORM_HAS_DYNAMIC_TIMER\<close>.
\<close>

subsection \<open>Identifiers\<close>

type_synonym tid = nat  \<comment> \<open>a \<open>thread_t *\<close>\<close>

text \<open>A \<open>wait_queue_t\<close> is a member of a mutex or of an event, or stands alone.\<close>

datatype wq_id = WQ_mutex nat | WQ_event nat | WQ_other nat

text \<open>
  A \<open>timer_t\<close> is a local variable of a sleeping or waiting thread's stack frame, or an object
  of a driver.
\<close>

datatype timer_id = Tstack tid | Tobject nat

subsection \<open>Structures\<close>

datatype thread_state =
    THREAD_SUSPENDED | THREAD_READY | THREAD_RUNNING | THREAD_BLOCKED | THREAD_SLEEPING
  | THREAD_DEATH

datatype handler_return = INT_NO_RESCHEDULE | INT_RESCHEDULE

text \<open>
  What remains of a C function after the call that gave the processor away, innermost first:
  the saved stack of a thread that is not running. Each constructor names the function.
\<close>

datatype kframe =
    F_thread_yield | F_thread_preempt | F_thread_block | F_thread_sleep | F_thread_resume
  | F_thread_exit | F_initial_thread_func | F_arm_irq
  | F_wait_queue_block u32
  | F_wait_queue_wake_one | F_wait_queue_wake_all int | F_wait_queue_destroy wq_id
  | F_thread_unblock
  | F_mutex_acquire nat | F_mutex_acquire_timeout nat | F_mutex_release | F_mutex_destroy
  | F_event_wait | F_event_signal_one nat | F_event_signal_all | F_event_destroy
  | F_dpc_queue | F_cbuf_write int

record thread_t =
  t_magic :: u32
  t_priority :: int
  t_state :: thread_state
  saved_critical_section_count :: int
  remaining_quantum :: int
  blocking_wait_queue :: "wq_id option"
  wait_queue_block_ret :: int
  t_stack :: nat
  t_stack_size :: u32
  t_entry :: nat
  t_arg :: nat
  t_retcode :: int
  t_name :: string
  t_frames :: "kframe list"  \<comment> \<open>\<open>arch.sp\<close>: the saved frames\<close>
  t_result :: int  \<comment> \<open>what the last kernel call returned to the thread's code\<close>

record wait_queue_t =
  wq_magic :: u32
  wq_list :: "tid list"
  wq_count :: int

datatype timer_callback =
    CB_none | CB_thread_sleep_handler | CB_wait_queue_timeout_handler | CB_driver nat

record timer_t =
  tm_magic :: u32
  tm_linked :: bool  \<comment> \<open>\<open>list_in_list(&timer->node)\<close>\<close>
  tm_scheduled_time :: u32
  tm_periodic_time :: u32
  tm_callback :: timer_callback
  tm_arg :: nat

record mutex_t =
  m_magic :: u32
  m_count :: int
  m_holder :: "tid option"

record event_t =
  e_magic :: u32
  e_signalled :: bool
  e_flags :: u32

datatype dpc_callback = DPC_thread_cleanup | DPC_driver nat

record dpc_t =
  dpc_cb :: dpc_callback
  dpc_arg :: nat

record kernel =
  thr :: "tid \<Rightarrow> thread_t"
  thread_list :: "tid list"
  current_thread :: tid
  idle_thread :: "tid option"
  critical_section_count :: int
  ints_enabled :: bool
  run_queue :: "nat \<Rightarrow> tid list"
  run_queue_bitmap :: u32
  wqs :: "wq_id \<Rightarrow> wait_queue_t"
  tms :: "timer_id \<Rightarrow> timer_t"
  timer_queue :: "timer_id list"
  clock :: u32  \<comment> \<open>\<open>current_time()\<close>\<close>
  mtx :: "nat \<Rightarrow> mutex_t"
  evt :: "nat \<Rightarrow> event_t"
  dpc_list :: "dpc_t list"

abbreviation (input) THREAD_MAGIC :: u32 where "THREAD_MAGIC \<equiv> 0x74687264"
abbreviation (input) WAIT_QUEUE_MAGIC :: u32 where "WAIT_QUEUE_MAGIC \<equiv> 0x77616974"
abbreviation (input) TIMER_MAGIC :: u32 where "TIMER_MAGIC \<equiv> 0x74696D72"
abbreviation (input) MUTEX_MAGIC :: u32 where "MUTEX_MAGIC \<equiv> 0x6D757478"
abbreviation (input) EVENT_MAGIC :: u32 where "EVENT_MAGIC \<equiv> 0x65766E74"

abbreviation (input) HIGHEST_PRIORITY :: int where "HIGHEST_PRIORITY \<equiv> 31"
abbreviation (input) DPC_PRIORITY :: int where "DPC_PRIORITY \<equiv> 30"
abbreviation (input) DEFAULT_PRIORITY :: int where "DEFAULT_PRIORITY \<equiv> 16"
abbreviation (input) LOWEST_PRIORITY :: int where "LOWEST_PRIORITY \<equiv> 0"
abbreviation (input) IDLE_PRIORITY :: int where "IDLE_PRIORITY \<equiv> 0"

subsection \<open>Writing through a pointer\<close>

definition upd_thr :: "tid \<Rightarrow> (thread_t \<Rightarrow> thread_t) \<Rightarrow> kernel \<Rightarrow> kernel" where
  "upd_thr t f s = s\<lparr>thr := (thr s)(t := f (thr s t))\<rparr>"

definition upd_wq :: "wq_id \<Rightarrow> (wait_queue_t \<Rightarrow> wait_queue_t) \<Rightarrow> kernel \<Rightarrow> kernel" where
  "upd_wq q f s = s\<lparr>wqs := (wqs s)(q := f (wqs s q))\<rparr>"

definition upd_tm :: "timer_id \<Rightarrow> (timer_t \<Rightarrow> timer_t) \<Rightarrow> kernel \<Rightarrow> kernel" where
  "upd_tm i f s = s\<lparr>tms := (tms s)(i := f (tms s i))\<rparr>"

definition upd_mtx :: "nat \<Rightarrow> (mutex_t \<Rightarrow> mutex_t) \<Rightarrow> kernel \<Rightarrow> kernel" where
  "upd_mtx m f s = s\<lparr>mtx := (mtx s)(m := f (mtx s m))\<rparr>"

definition upd_evt :: "nat \<Rightarrow> (event_t \<Rightarrow> event_t) \<Rightarrow> kernel \<Rightarrow> kernel" where
  "upd_evt e f s = s\<lparr>evt := (evt s)(e := f (evt s e))\<rparr>"

abbreviation cur :: "kernel \<Rightarrow> thread_t" where
  "cur s \<equiv> thr s (current_thread s)"

text \<open>One field of the state at a time: what each write leaves alone.\<close>

lemma upd_thr_sel [simp]:
  "thr (upd_thr t f s) = (thr s)(t := f (thr s t))"
  "thread_list (upd_thr t f s) = thread_list s"
  "current_thread (upd_thr t f s) = current_thread s"
  "idle_thread (upd_thr t f s) = idle_thread s"
  "critical_section_count (upd_thr t f s) = critical_section_count s"
  "ints_enabled (upd_thr t f s) = ints_enabled s"
  "run_queue (upd_thr t f s) = run_queue s"
  "run_queue_bitmap (upd_thr t f s) = run_queue_bitmap s"
  "wqs (upd_thr t f s) = wqs s"
  "tms (upd_thr t f s) = tms s"
  "timer_queue (upd_thr t f s) = timer_queue s"
  "clock (upd_thr t f s) = clock s"
  "mtx (upd_thr t f s) = mtx s"
  "evt (upd_thr t f s) = evt s"
  "dpc_list (upd_thr t f s) = dpc_list s"
  by (simp_all add: upd_thr_def)

lemma upd_wq_sel [simp]:
  "thr (upd_wq q f s) = thr s"
  "thread_list (upd_wq q f s) = thread_list s"
  "current_thread (upd_wq q f s) = current_thread s"
  "idle_thread (upd_wq q f s) = idle_thread s"
  "critical_section_count (upd_wq q f s) = critical_section_count s"
  "ints_enabled (upd_wq q f s) = ints_enabled s"
  "run_queue (upd_wq q f s) = run_queue s"
  "run_queue_bitmap (upd_wq q f s) = run_queue_bitmap s"
  "wqs (upd_wq q f s) = (wqs s)(q := f (wqs s q))"
  "tms (upd_wq q f s) = tms s"
  "timer_queue (upd_wq q f s) = timer_queue s"
  "clock (upd_wq q f s) = clock s"
  "mtx (upd_wq q f s) = mtx s"
  "evt (upd_wq q f s) = evt s"
  "dpc_list (upd_wq q f s) = dpc_list s"
  by (simp_all add: upd_wq_def)

lemma upd_tm_sel [simp]:
  "thr (upd_tm i f s) = thr s"
  "thread_list (upd_tm i f s) = thread_list s"
  "current_thread (upd_tm i f s) = current_thread s"
  "idle_thread (upd_tm i f s) = idle_thread s"
  "critical_section_count (upd_tm i f s) = critical_section_count s"
  "ints_enabled (upd_tm i f s) = ints_enabled s"
  "run_queue (upd_tm i f s) = run_queue s"
  "run_queue_bitmap (upd_tm i f s) = run_queue_bitmap s"
  "wqs (upd_tm i f s) = wqs s"
  "tms (upd_tm i f s) = (tms s)(i := f (tms s i))"
  "timer_queue (upd_tm i f s) = timer_queue s"
  "clock (upd_tm i f s) = clock s"
  "mtx (upd_tm i f s) = mtx s"
  "evt (upd_tm i f s) = evt s"
  "dpc_list (upd_tm i f s) = dpc_list s"
  by (simp_all add: upd_tm_def)

lemma upd_mtx_sel [simp]:
  "thr (upd_mtx m f s) = thr s"
  "thread_list (upd_mtx m f s) = thread_list s"
  "current_thread (upd_mtx m f s) = current_thread s"
  "idle_thread (upd_mtx m f s) = idle_thread s"
  "critical_section_count (upd_mtx m f s) = critical_section_count s"
  "ints_enabled (upd_mtx m f s) = ints_enabled s"
  "run_queue (upd_mtx m f s) = run_queue s"
  "run_queue_bitmap (upd_mtx m f s) = run_queue_bitmap s"
  "wqs (upd_mtx m f s) = wqs s"
  "tms (upd_mtx m f s) = tms s"
  "timer_queue (upd_mtx m f s) = timer_queue s"
  "clock (upd_mtx m f s) = clock s"
  "mtx (upd_mtx m f s) = (mtx s)(m := f (mtx s m))"
  "evt (upd_mtx m f s) = evt s"
  "dpc_list (upd_mtx m f s) = dpc_list s"
  by (simp_all add: upd_mtx_def)

lemma upd_evt_sel [simp]:
  "thr (upd_evt e f s) = thr s"
  "thread_list (upd_evt e f s) = thread_list s"
  "current_thread (upd_evt e f s) = current_thread s"
  "idle_thread (upd_evt e f s) = idle_thread s"
  "critical_section_count (upd_evt e f s) = critical_section_count s"
  "ints_enabled (upd_evt e f s) = ints_enabled s"
  "run_queue (upd_evt e f s) = run_queue s"
  "run_queue_bitmap (upd_evt e f s) = run_queue_bitmap s"
  "wqs (upd_evt e f s) = wqs s"
  "tms (upd_evt e f s) = tms s"
  "timer_queue (upd_evt e f s) = timer_queue s"
  "clock (upd_evt e f s) = clock s"
  "mtx (upd_evt e f s) = mtx s"
  "evt (upd_evt e f s) = (evt s)(e := f (evt s e))"
  "dpc_list (upd_evt e f s) = dpc_list s"
  by (simp_all add: upd_evt_def)

subsection \<open>Critical sections (include/kernel/thread.h)\<close>

definition enter_critical_section :: "kernel \<Rightarrow> kernel" where
  "enter_critical_section s =
     (let c = critical_section_count s + 1 in
      s\<lparr>critical_section_count := c,
        ints_enabled := (if c = 1 then False else ints_enabled s)\<rparr>)"

definition exit_critical_section :: "kernel \<Rightarrow> kernel" where
  "exit_critical_section s =
     (let c = critical_section_count s - 1 in
      s\<lparr>critical_section_count := c,
        ints_enabled := (if c = 0 then True else ints_enabled s)\<rparr>)"

definition inc_critical_section :: "kernel \<Rightarrow> kernel" where
  "inc_critical_section s = s\<lparr>critical_section_count := critical_section_count s + 1\<rparr>"

definition dec_critical_section :: "kernel \<Rightarrow> kernel" where
  "dec_critical_section s = s\<lparr>critical_section_count := critical_section_count s - 1\<rparr>"

lemma enter_sel [simp]:
  "thr (enter_critical_section s) = thr s"
  "thread_list (enter_critical_section s) = thread_list s"
  "current_thread (enter_critical_section s) = current_thread s"
  "idle_thread (enter_critical_section s) = idle_thread s"
  "critical_section_count (enter_critical_section s) = critical_section_count s + 1"
  "run_queue (enter_critical_section s) = run_queue s"
  "run_queue_bitmap (enter_critical_section s) = run_queue_bitmap s"
  "wqs (enter_critical_section s) = wqs s"
  "tms (enter_critical_section s) = tms s"
  "timer_queue (enter_critical_section s) = timer_queue s"
  "clock (enter_critical_section s) = clock s"
  "mtx (enter_critical_section s) = mtx s"
  "evt (enter_critical_section s) = evt s"
  "dpc_list (enter_critical_section s) = dpc_list s"
  by (simp_all add: enter_critical_section_def Let_def)

lemma exit_sel [simp]:
  "thr (exit_critical_section s) = thr s"
  "thread_list (exit_critical_section s) = thread_list s"
  "current_thread (exit_critical_section s) = current_thread s"
  "idle_thread (exit_critical_section s) = idle_thread s"
  "critical_section_count (exit_critical_section s) = critical_section_count s - 1"
  "run_queue (exit_critical_section s) = run_queue s"
  "run_queue_bitmap (exit_critical_section s) = run_queue_bitmap s"
  "wqs (exit_critical_section s) = wqs s"
  "tms (exit_critical_section s) = tms s"
  "timer_queue (exit_critical_section s) = timer_queue s"
  "clock (exit_critical_section s) = clock s"
  "mtx (exit_critical_section s) = mtx s"
  "evt (exit_critical_section s) = evt s"
  "dpc_list (exit_critical_section s) = dpc_list s"
  by (simp_all add: exit_critical_section_def Let_def)

end
