(* ===== verification/LK_Timer.thy ===== *)
theory LK_Timer
  imports LK_Kernel
begin

text \<open>
  Timers (\<^verbatim>\<open>kernel/timer.c\<close>): the timer queue, ordered by the wrapping comparison
  \<^verbatim>\<open>TIME_GT\<close>, and the operations that insert and remove timers. The interrupt routine
  \<^verbatim>\<open>timer_tick\<close> calls back into the scheduler and is in theory \<open>LK_Tick\<close>.
\<close>

subsection \<open>Operations\<close>

definition timer_initialize :: "timer_id \<Rightarrow> kernel \<Rightarrow> kernel" where
  "timer_initialize i s =
     upd_tm i (\<lambda>_. \<lparr>tm_magic = TIMER_MAGIC, tm_linked = False, tm_scheduled_time = 0,
                    tm_periodic_time = 0, tm_callback = CB_none, tm_arg = 0\<rparr>) s"

text \<open>The walk of \<open>insert_timer_in_queue\<close>: stop before the first entry that is later.\<close>

fun insert_before_later :: "(timer_id \<Rightarrow> u32) \<Rightarrow> timer_id \<Rightarrow> timer_id list \<Rightarrow> timer_id list" where
  "insert_before_later at i [] = [i]"
| "insert_before_later at i (e # es) =
     (if TIME_GT (at e) (at i) then i # e # es else e # insert_before_later at i es)"

definition insert_timer_in_queue :: "timer_id \<Rightarrow> kernel \<Rightarrow> kernel" where
  "insert_timer_in_queue i s =
     upd_tm i (\<lambda>t. t\<lparr>tm_linked := True\<rparr>)
       (s\<lparr>timer_queue := insert_before_later (\<lambda>j. tm_scheduled_time (tms s j)) i (timer_queue s)\<rparr>)"

text \<open>\<open>None\<close> is the \<open>panic("timer %p already in list")\<close>.\<close>

definition timer_set ::
  "timer_id \<Rightarrow> u32 \<Rightarrow> u32 \<Rightarrow> timer_callback \<Rightarrow> nat \<Rightarrow> kernel \<Rightarrow> kernel option" where
  "timer_set i delay period callback arg s =
     (if tm_linked (tms s i) then None
      else
        let s1 = upd_tm i (\<lambda>t. t\<lparr>tm_scheduled_time := clock s + delay,
                                 tm_periodic_time := period,
                                 tm_callback := callback, tm_arg := arg\<rparr>) s;
            s2 = enter_critical_section s1;
            s3 = insert_timer_in_queue i s2
        in Some (exit_critical_section s3))"

definition timer_set_oneshot ::
  "timer_id \<Rightarrow> u32 \<Rightarrow> timer_callback \<Rightarrow> nat \<Rightarrow> kernel \<Rightarrow> kernel option" where
  "timer_set_oneshot i delay callback arg s =
     timer_set i (if delay = 0 then 1 else delay) 0 callback arg s"

definition timer_set_periodic ::
  "timer_id \<Rightarrow> u32 \<Rightarrow> timer_callback \<Rightarrow> nat \<Rightarrow> kernel \<Rightarrow> kernel option" where
  "timer_set_periodic i period callback arg s =
     (let p = (if period = 0 then 1 else period) in timer_set i p p callback arg s)"

text \<open>\<open>list_delete(&timer->node)\<close> on the timer queue.\<close>

definition timer_unlink :: "timer_id \<Rightarrow> kernel \<Rightarrow> kernel" where
  "timer_unlink i s =
     upd_tm i (\<lambda>t. t\<lparr>tm_linked := False\<rparr>) (s\<lparr>timer_queue := remove1 i (timer_queue s)\<rparr>)"

definition timer_cancel :: "timer_id \<Rightarrow> kernel \<Rightarrow> kernel" where
  "timer_cancel i s =
     (let s1 = enter_critical_section s;
          s2 = (if tm_linked (tms s1 i) then timer_unlink i s1 else s1);
          s3 = upd_tm i (\<lambda>t. t\<lparr>tm_periodic_time := 0, tm_callback := CB_none, tm_arg := 0\<rparr>) s2
      in exit_critical_section s3)"

definition timer_init :: "kernel \<Rightarrow> kernel" where
  "timer_init s = s\<lparr>timer_queue := []\<rparr>"

subsection \<open>What the timer operations leave alone\<close>

lemma insert_timer_sel [simp]:
  "timer_queue (insert_timer_in_queue i s) =
     insert_before_later (\<lambda>j. tm_scheduled_time (tms s j)) i (timer_queue s)"
  "tms (insert_timer_in_queue i s) = (tms s)(i := (tms s i)\<lparr>tm_linked := True\<rparr>)"
  "thr (insert_timer_in_queue i s) = thr s"
  "thread_list (insert_timer_in_queue i s) = thread_list s"
  "current_thread (insert_timer_in_queue i s) = current_thread s"
  "idle_thread (insert_timer_in_queue i s) = idle_thread s"
  "critical_section_count (insert_timer_in_queue i s) = critical_section_count s"
  "ints_enabled (insert_timer_in_queue i s) = ints_enabled s"
  "run_queue (insert_timer_in_queue i s) = run_queue s"
  "run_queue_bitmap (insert_timer_in_queue i s) = run_queue_bitmap s"
  "wqs (insert_timer_in_queue i s) = wqs s"
  "clock (insert_timer_in_queue i s) = clock s"
  "mtx (insert_timer_in_queue i s) = mtx s"
  "evt (insert_timer_in_queue i s) = evt s"
  "dpc_list (insert_timer_in_queue i s) = dpc_list s"
  by (simp_all add: insert_timer_in_queue_def)

lemma timer_unlink_sel [simp]:
  "thr (timer_unlink i s) = thr s"
  "thread_list (timer_unlink i s) = thread_list s"
  "current_thread (timer_unlink i s) = current_thread s"
  "idle_thread (timer_unlink i s) = idle_thread s"
  "critical_section_count (timer_unlink i s) = critical_section_count s"
  "ints_enabled (timer_unlink i s) = ints_enabled s"
  "run_queue (timer_unlink i s) = run_queue s"
  "run_queue_bitmap (timer_unlink i s) = run_queue_bitmap s"
  "wqs (timer_unlink i s) = wqs s"
  "clock (timer_unlink i s) = clock s"
  "mtx (timer_unlink i s) = mtx s"
  "evt (timer_unlink i s) = evt s"
  "dpc_list (timer_unlink i s) = dpc_list s"
  by (simp_all add: timer_unlink_def)

lemma timer_initialize_sel [simp]:
  "thr (timer_initialize i s) = thr s"
  "thread_list (timer_initialize i s) = thread_list s"
  "current_thread (timer_initialize i s) = current_thread s"
  "idle_thread (timer_initialize i s) = idle_thread s"
  "critical_section_count (timer_initialize i s) = critical_section_count s"
  "ints_enabled (timer_initialize i s) = ints_enabled s"
  "run_queue (timer_initialize i s) = run_queue s"
  "run_queue_bitmap (timer_initialize i s) = run_queue_bitmap s"
  "wqs (timer_initialize i s) = wqs s"
  "timer_queue (timer_initialize i s) = timer_queue s"
  "clock (timer_initialize i s) = clock s"
  "mtx (timer_initialize i s) = mtx s"
  "evt (timer_initialize i s) = evt s"
  "dpc_list (timer_initialize i s) = dpc_list s"
  "tm_linked (tms (timer_initialize i s) i) = False"
  by (simp_all add: timer_initialize_def)

lemma timer_cancel_sel [simp]:
  "thr (timer_cancel i s) = thr s"
  "thread_list (timer_cancel i s) = thread_list s"
  "current_thread (timer_cancel i s) = current_thread s"
  "idle_thread (timer_cancel i s) = idle_thread s"
  "critical_section_count (timer_cancel i s) = critical_section_count s"
  "run_queue (timer_cancel i s) = run_queue s"
  "run_queue_bitmap (timer_cancel i s) = run_queue_bitmap s"
  "wqs (timer_cancel i s) = wqs s"
  "clock (timer_cancel i s) = clock s"
  "mtx (timer_cancel i s) = mtx s"
  "evt (timer_cancel i s) = evt s"
  "dpc_list (timer_cancel i s) = dpc_list s"
  by (simp_all add: timer_cancel_def Let_def)

lemma timer_set_Some:
  assumes "timer_set i d p cb a s = Some s'"
  shows "thr s' = thr s" "thread_list s' = thread_list s" "current_thread s' = current_thread s"
    "idle_thread s' = idle_thread s" "critical_section_count s' = critical_section_count s"
    "run_queue s' = run_queue s" "run_queue_bitmap s' = run_queue_bitmap s" "wqs s' = wqs s"
    "clock s' = clock s" "mtx s' = mtx s" "evt s' = evt s" "dpc_list s' = dpc_list s"
  using assms by (auto simp: timer_set_def Let_def split: if_splits)

lemma timer_set_oneshot_Some:
  assumes "timer_set_oneshot i d cb a s = Some s'"
  shows "thr s' = thr s" "thread_list s' = thread_list s" "current_thread s' = current_thread s"
    "idle_thread s' = idle_thread s" "critical_section_count s' = critical_section_count s"
    "run_queue s' = run_queue s" "run_queue_bitmap s' = run_queue_bitmap s" "wqs s' = wqs s"
    "clock s' = clock s" "mtx s' = mtx s" "evt s' = evt s" "dpc_list s' = dpc_list s"
  using timer_set_Some [OF assms [unfolded timer_set_oneshot_def]] by simp_all

subsection \<open>The links agree with the queue\<close>

text \<open>
  A timer's node is linked exactly when the timer is in the queue, once: the invariant that
  makes \<open>list_in_list\<close> a correct test. A queued timer on a thread's stack fires once; any other
  belongs to a driver, and its period is at most half the range of the clock.
\<close>

definition timer_sane :: "timer_id \<Rightarrow> timer_t \<Rightarrow> bool" where
  "timer_sane i t \<longleftrightarrow> (case i of
     Tstack _ \<Rightarrow> tm_periodic_time t = 0
   | Tobject _ \<Rightarrow> (case tm_callback t of CB_driver _ \<Rightarrow> True | _ \<Rightarrow> False) \<and>
       tm_periodic_time t \<le> 0x80000000)"

definition timer_inv :: "kernel \<Rightarrow> bool" where
  "timer_inv s \<longleftrightarrow> distinct (timer_queue s) \<and> (\<forall>i. tm_linked (tms s i) \<longleftrightarrow> i \<in> set (timer_queue s)) \<and>
     (\<forall>i \<in> set (timer_queue s). timer_sane i (tms s i))"

lemma timer_sane_link [simp]:
  "timer_sane i (t\<lparr>tm_linked := b\<rparr>) = timer_sane i t"
  "timer_sane i (t\<lparr>tm_scheduled_time := n\<rparr>) = timer_sane i t"
  by (simp_all add: timer_sane_def split: timer_id.splits)

lemma set_insert_before_later [simp]:
  "set (insert_before_later at i q) = insert i (set q)"
  by (induction q) auto

lemma distinct_insert_before_later [simp]:
  "distinct (insert_before_later at i q) \<longleftrightarrow> i \<notin> set q \<and> distinct q"
  by (induction q) auto

lemma timer_inv_cong:
  "timer_queue s' = timer_queue s \<Longrightarrow> tms s' = tms s \<Longrightarrow> timer_inv s' = timer_inv s"
  by (simp add: timer_inv_def)

lemma timer_inv_insert:
  assumes "timer_inv s" and "i \<notin> set (timer_queue s)" and "timer_sane i (tms s i)"
  shows "timer_inv (insert_timer_in_queue i s)"
  using assms by (auto simp: timer_inv_def insert_timer_in_queue_def)

lemma timer_inv_unlink:
  assumes "timer_inv s"
  shows "timer_inv (timer_unlink i s)"
  using assms by (auto simp: timer_inv_def timer_unlink_def)

lemma timer_inv_initialize:
  assumes "timer_inv s" and "i \<notin> set (timer_queue s)"
  shows "timer_inv (timer_initialize i s)"
  using assms by (auto simp: timer_inv_def timer_initialize_def)

lemma timer_inv_upd_tm:
  assumes "timer_inv s" and "tm_linked (f (tms s i)) = tm_linked (tms s i)"
    and "i \<in> set (timer_queue s) \<Longrightarrow> timer_sane i (f (tms s i))"
  shows "timer_inv (upd_tm i f s)"
  using assms by (auto simp: timer_inv_def)

lemma timer_set_inv:
  assumes "timer_inv s" and "timer_set i d p cb a s = Some s'"
    and sane: "timer_sane i ((tms s i)\<lparr>tm_periodic_time := p, tm_callback := cb\<rparr>)"
  shows "timer_inv s'"
    and "timer_queue s' =
      insert_before_later (\<lambda>j. tm_scheduled_time (tms s' j)) i (timer_queue s)"
    and "tm_scheduled_time (tms s' j) = (if j = i then clock s + d else tm_scheduled_time (tms s j))"
    and "i \<notin> set (timer_queue s)"
proof -
  let ?f = "\<lambda>t. t\<lparr>tm_scheduled_time := clock s + d, tm_periodic_time := p, tm_callback := cb,
    tm_arg := a\<rparr>"
  from assms(2) have free: "\<not> tm_linked (tms s i)"
    and s': "s' = exit_critical_section (insert_timer_in_queue i
      (enter_critical_section (upd_tm i ?f s)))"
    by (auto simp: timer_set_def Let_def split: if_splits)
  from assms(1) free have notin: "i \<notin> set (timer_queue s)" by (simp add: timer_inv_def)
  have "timer_inv (upd_tm i ?f s)" by (rule timer_inv_upd_tm [OF assms(1)]) (simp_all add: notin)
  then have "timer_inv (enter_critical_section (upd_tm i ?f s))"
    by (simp add: timer_inv_def)
  then have "timer_inv (insert_timer_in_queue i (enter_critical_section (upd_tm i ?f s)))"
    by (rule timer_inv_insert) (use notin sane in \<open>simp_all add: timer_sane_def split: timer_id.splits\<close>)
  then show "timer_inv s'" by (simp add: s' timer_inv_def)
  show "tm_scheduled_time (tms s' j) =
      (if j = i then clock s + d else tm_scheduled_time (tms s j))"
    by (simp add: s' insert_timer_in_queue_def)
  have "(\<lambda>j. tm_scheduled_time (tms s' j)) = (\<lambda>j. tm_scheduled_time (tms (upd_tm i ?f s) j))"
    by (rule ext) (simp add: s')
  then show "timer_queue s' =
      insert_before_later (\<lambda>j. tm_scheduled_time (tms s' j)) i (timer_queue s)"
    by (simp only:) (simp add: s')
  show "i \<notin> set (timer_queue s)" by (rule notin)
qed

lemma timer_cancel_inv:
  assumes "timer_inv s"
  shows "timer_inv (timer_cancel i s)" and "timer_queue (timer_cancel i s) = remove1 i (timer_queue s)"
proof -
  let ?s1 = "enter_critical_section s"
  let ?s2 = "if tm_linked (tms ?s1 i) then timer_unlink i ?s1 else ?s1"
  have "timer_inv ?s1" using assms by (simp add: timer_inv_def)
  then have "timer_inv ?s2" by (simp add: timer_inv_unlink)
  then have "timer_inv (upd_tm i (\<lambda>t. t\<lparr>tm_periodic_time := 0, tm_callback := CB_none,
    tm_arg := 0\<rparr>) ?s2)"
    by (rule timer_inv_upd_tm) (use assms in \<open>auto simp: timer_unlink_def timer_inv_def\<close>)
  then show "timer_inv (timer_cancel i s)" by (simp add: timer_cancel_def Let_def timer_inv_def)
  show "timer_queue (timer_cancel i s) = remove1 i (timer_queue s)"
    using assms by (auto simp: timer_cancel_def Let_def timer_unlink_def timer_inv_def
        remove1_idem)
qed

subsection \<open>Wrapping times inside a window\<close>

text \<open>
  \<^verbatim>\<open>TIME_GT\<close> orders two times correctly when both lie in one window of half the
  32-bit range; outside, it is not even transitive.
\<close>

abbreviation (input) half_range :: int where "half_range \<equiv> 2147483648"

definition since :: "u32 \<Rightarrow> u32 \<Rightarrow> int" where
  "since base t = uint (t - base)"

lemma sint_diff_small:
  fixes x y :: u32
  assumes "uint x < half_range" and "uint y < half_range"
  shows "sint (x - y) = uint x - uint y"
proof -
  have nonneg: "0 \<le> uint x" "0 \<le> uint y" by simp_all
  have range: "- half_range \<le> uint x - uint y" "uint x - uint y < half_range"
    using assms nonneg by linarith+
  have "x - y = word_of_int (uint x - uint y)" by simp
  then have "sint (x - y) = signed_take_bit 31 (uint x - uint y)"
    using sint_sbintrunc' [where ?'a = 32, of "uint x - uint y"] by simp
  also have "\<dots> = uint x - uint y"
    by (rule signed_take_bit_int_eq_self) (use range in simp_all)
  finally show ?thesis .
qed

lemma sint_diff_window:
  assumes "since base a < half_range" and "since base b < half_range"
  shows "sint (a - b) = since base a - since base b"
proof -
  have "(a - base) - (b - base) = a - b" by simp
  then show ?thesis
    using sint_diff_small [of "a - base" "b - base"] assms by (simp only: since_def)
qed

lemma TIME_GT_window:
  assumes "since base a < half_range" and "since base b < half_range"
  shows "TIME_GT a b \<longleftrightarrow> since base b < since base a"
  by (simp add: TIME_GT_def sint_diff_window [OF assms])

lemma TIME_LT_window:
  assumes "since base a < half_range" and "since base b < half_range"
  shows "TIME_LT a b \<longleftrightarrow> since base a < since base b"
  by (simp add: TIME_LT_def sint_diff_window [OF assms])

subsection \<open>The queue is sorted\<close>

definition tq_sorted :: "u32 \<Rightarrow> kernel \<Rightarrow> bool" where
  "tq_sorted base s \<longleftrightarrow>
     (\<forall>i \<in> set (timer_queue s). since base (tm_scheduled_time (tms s i)) < half_range) \<and>
     sorted (map (\<lambda>i. since base (tm_scheduled_time (tms s i))) (timer_queue s))"

lemma sorted_insert_before_later:
  assumes "\<forall>j \<in> insert i (set q). since base (at j) < half_range"
    and "sorted (map (\<lambda>j. since base (at j)) q)"
  shows "sorted (map (\<lambda>j. since base (at j)) (insert_before_later at i q))"
  using assms
proof (induction q)
  case Nil
  then show ?case by simp
next
  case (Cons e es)
  then have gt: "TIME_GT (at e) (at i) \<longleftrightarrow> since base (at i) < since base (at e)"
    by (simp add: TIME_GT_window)
  with Cons show ?case by (auto simp: less_le_trans intro: less_imp_le)
qed

text \<open>A timer at the head that is not due, in a sorted queue: none is due.\<close>

lemma sorted_none_due:
  assumes "tq_sorted base s" and "since base now < half_range"
    and "timer_queue s = i # q" and "TIME_LT now (tm_scheduled_time (tms s i))" and "j \<in> set (timer_queue s)"
  shows "TIME_LT now (tm_scheduled_time (tms s j))"
proof -
  have w: "since base (tm_scheduled_time (tms s k)) < half_range" if "k \<in> set (timer_queue s)" for k
    using assms(1) that by (simp add: tq_sorted_def)
  have "since base (tm_scheduled_time (tms s i)) \<le> since base (tm_scheduled_time (tms s j))"
    using assms(1,3,5) by (auto simp: tq_sorted_def)
  moreover have "since base now < since base (tm_scheduled_time (tms s i))"
    using assms(3,4) TIME_LT_window [OF assms(2) w [of i]] by simp
  ultimately show ?thesis using TIME_LT_window [OF assms(2) w [OF assms(5)]] by simp
qed

lemma TIME_LT_ahead:
  assumes "0 < p" and "p \<le> 0x80000000"
  shows "TIME_LT now (now + p)"
proof -
  have a: "0 < uint p" "uint p \<le> 0x80000000" using assms by (simp_all add: word_less_def word_le_def)
  have "sint (- p) = signed_take_bit 31 (- uint p)"
    using sint_sbintrunc' [where ?'a = 32, of "- uint p"] by simp
  also have "\<dots> = - uint p"
    by (rule signed_take_bit_int_eq_self) (use a in simp_all)
  finally show ?thesis using a by (simp add: TIME_LT_def)
qed

end
