(* ===== verification/LK_Thread.thy ===== *)
theory LK_Thread
  imports LK_Timer
begin

text \<open>
  Threads and wait queues (\<^verbatim>\<open>kernel/thread.c\<close>): run queues, the reschedule routine, the
  thread operations and the wait queue primitives on which mutexes and events are built.

  A C function that gives the processor away continues only when its thread is scheduled again.
  An operation of the model therefore returns either \<open>Ret r s\<close> (it returned \<open>r\<close>) or
  \<open>Switch ks s\<close>: it called \<open>thread_resched\<close> in state \<open>s\<close>, and \<open>ks\<close> are the C functions still
  to be finished when the calling thread runs again. \<open>kcall\<close> performs the switch and runs what
  the thread that is switched to has left unfinished. \<open>None\<close> is a \<open>panic\<close> or undefined
  behaviour (a null dereference, an index out of range).
\<close>

datatype kout = Ret int kernel | Switch "kframe list" kernel

type_synonym kop = "kernel \<Rightarrow> kout option"

subsection \<open>Run queue manipulation\<close>

definition insert_in_run_queue_head :: "tid \<Rightarrow> kernel \<Rightarrow> kernel option" where
  "insert_in_run_queue_head t s =
     (let p = t_priority (thr s t) in
      if 0 \<le> p \<and> p < 32 then
        Some (s\<lparr>run_queue := (run_queue s)(nat p := t # run_queue s (nat p)),
                run_queue_bitmap := run_queue_bitmap s OR push_bit (nat p) 1\<rparr>)
      else None)"

definition insert_in_run_queue_tail :: "tid \<Rightarrow> kernel \<Rightarrow> kernel option" where
  "insert_in_run_queue_tail t s =
     (let p = t_priority (thr s t) in
      if 0 \<le> p \<and> p < 32 then
        Some (s\<lparr>run_queue := (run_queue s)(nat p := run_queue s (nat p) @ [t]),
                run_queue_bitmap := run_queue_bitmap s OR push_bit (nat p) 1\<rparr>)
      else None)"

subsection \<open>Thread creation\<close>

definition init_thread_struct :: "tid \<Rightarrow> string \<Rightarrow> kernel \<Rightarrow> kernel" where
  "init_thread_struct t name s =
     upd_thr t (\<lambda>_. \<lparr>t_magic = THREAD_MAGIC, t_priority = 0, t_state = THREAD_SUSPENDED,
       saved_critical_section_count = 0, remaining_quantum = 0, blocking_wait_queue = None,
       wait_queue_block_ret = 0, t_stack = 0, t_stack_size = 0, t_entry = 0, t_arg = 0,
       t_retcode = 0, t_name = take 31 name, t_frames = [], t_result = 0\<rparr>) s"

text \<open>
  \<open>thread_create\<close> with the results of its two calls of \<open>malloc\<close> as arguments: the address of the
  thread structure and the address of the stack, \<open>None\<close> for a null pointer. The table of thread
  local storage has no entries (\<open>MAX_TLS_ENTRY\<close> is 0), so nothing is inherited.
\<close>

definition thread_create ::
  "string \<Rightarrow> nat \<Rightarrow> nat \<Rightarrow> int \<Rightarrow> u32 \<Rightarrow> tid option \<Rightarrow> nat option \<Rightarrow> kernel \<Rightarrow> tid option \<times> kernel" where
  "thread_create name entry arg priority stack_size mem stackmem s =
     (case mem of
        None \<Rightarrow> (None, s)
      | Some t \<Rightarrow>
          let s1 = init_thread_struct t name s;
              s2 = upd_thr t (\<lambda>x. x\<lparr>t_entry := entry, t_arg := arg, t_priority := priority,
                     saved_critical_section_count := 1, t_state := THREAD_SUSPENDED,
                     blocking_wait_queue := None, wait_queue_block_ret := NO_ERROR\<rparr>) s1
          in case stackmem of
               None \<Rightarrow> (None, s2)
             | Some m \<Rightarrow>
                 let s3 = upd_thr t (\<lambda>x. x\<lparr>t_stack := m, t_stack_size := stack_size,
                            t_frames := [F_initial_thread_func]\<rparr>) s2;
                     s4 = enter_critical_section s3;
                     s5 = s4\<lparr>thread_list := t # thread_list s4\<rparr>
                 in (Some t, exit_critical_section s5))"

subsection \<open>The reschedule routine\<close>

text \<open>
  \<open>thread_resched\<close> up to the context switch: \<open>None\<close> where the run queues are empty
  (\<open>__builtin_clz(0)\<close> and a null \<open>newthread\<close>).
\<close>

definition thread_resched :: "kernel \<Rightarrow> kernel option" where
  "thread_resched s =
     (if run_queue_bitmap s = 0 then None
      else
        let oldthread = current_thread s;
            next_queue = 31 - clz32 (run_queue_bitmap s)
        in case run_queue s next_queue of
             [] \<Rightarrow> None
           | newthread # rest \<Rightarrow>
               let s1 = s\<lparr>run_queue := (run_queue s)(next_queue := rest)\<rparr>;
                   s2 = (if rest = []
                         then s1\<lparr>run_queue_bitmap :=
                                 run_queue_bitmap s1 AND NOT (push_bit next_queue 1)\<rparr>
                         else s1);
                   s3 = upd_thr newthread (\<lambda>t. t\<lparr>t_state := THREAD_RUNNING\<rparr>) s2
               in if newthread = oldthread then Some s3
                  else
                    let s4 = (if remaining_quantum (thr s3 newthread) \<le> 0
                              then upd_thr newthread (\<lambda>t. t\<lparr>remaining_quantum := 5\<rparr>) s3
                              else s3);
                        s5 = upd_thr oldthread
                               (\<lambda>t. t\<lparr>saved_critical_section_count := critical_section_count s4\<rparr>) s4;
                        s6 = s5\<lparr>current_thread := newthread\<rparr>
                    in Some (s6\<lparr>critical_section_count :=
                                 saved_critical_section_count (thr s6 newthread)\<rparr>))"

subsection \<open>The rest of a function, once its thread runs again\<close>

definition run_frame :: "kframe \<Rightarrow> int \<Rightarrow> kernel \<Rightarrow> (int \<times> kernel) option" where
  "run_frame f r s =
     (case f of
        F_thread_yield \<Rightarrow> Some (0, exit_critical_section s)
      | F_thread_preempt \<Rightarrow> Some (0, exit_critical_section s)
      | F_thread_block \<Rightarrow> Some (0, exit_critical_section s)
      | F_thread_sleep \<Rightarrow> Some (0, exit_critical_section s)
      | F_thread_resume \<Rightarrow> Some (NO_ERROR, exit_critical_section s)
      | F_thread_exit \<Rightarrow> None
      | F_initial_thread_func \<Rightarrow> Some (0, exit_critical_section s)
      | F_arm_irq \<Rightarrow> Some (r, (dec_critical_section s)\<lparr>ints_enabled := True\<rparr>)
      | F_wait_queue_block timeout \<Rightarrow>
          let s1 = (if timeout \<noteq> INFINITE_TIME then timer_cancel (Tstack (current_thread s)) s
                    else s)
          in Some (wait_queue_block_ret (cur s1), s1)
      | F_wait_queue_wake_one \<Rightarrow> Some (1, s)
      | F_wait_queue_wake_all n \<Rightarrow> Some (n, s)
      | F_wait_queue_destroy q \<Rightarrow> Some (0, upd_wq q (\<lambda>w. w\<lparr>wq_magic := 0\<rparr>) s)
      | F_thread_unblock \<Rightarrow> Some (NO_ERROR, exit_critical_section s)
      | F_mutex_acquire m \<Rightarrow>
          if r < 0 then Some (r, exit_critical_section s)
          else Some (r, exit_critical_section
                          (upd_mtx m (\<lambda>x. x\<lparr>m_holder := Some (current_thread s)\<rparr>) s))
      | F_mutex_acquire_timeout m \<Rightarrow>
          if r < NO_ERROR \<and> r = ERR_TIMED_OUT
          then Some (r, exit_critical_section (upd_mtx m (\<lambda>x. x\<lparr>m_count := m_count x - 1\<rparr>) s))
          else Some (r, exit_critical_section
                          (upd_mtx m (\<lambda>x. x\<lparr>m_holder := Some (current_thread s)\<rparr>) s))
      | F_mutex_release \<Rightarrow> Some (NO_ERROR, exit_critical_section s)
      | F_mutex_destroy \<Rightarrow> Some (0, exit_critical_section s)
      | F_event_wait \<Rightarrow> Some (r, exit_critical_section s)
      | F_event_signal_one e \<Rightarrow>
          Some (NO_ERROR, exit_critical_section
                            (if r \<le> 0 then upd_evt e (\<lambda>x. x\<lparr>e_signalled := True\<rparr>) s else s))
      | F_event_signal_all \<Rightarrow> Some (NO_ERROR, exit_critical_section s)
      | F_event_destroy \<Rightarrow> Some (0, exit_critical_section s)
      | F_dpc_queue \<Rightarrow> Some (NO_ERROR, exit_critical_section s)
      | F_cbuf_write n \<Rightarrow> Some (n, exit_critical_section s))"

fun unwind :: "kframe list \<Rightarrow> int \<Rightarrow> kernel \<Rightarrow> (int \<times> kernel) option" where
  "unwind [] r s = Some (r, s)"
| "unwind (f # ks) r s = do { (r', s') \<leftarrow> run_frame f r s; unwind ks r' s' }"

text \<open>\<open>f(...)\<close> followed by the rest of its caller, which is the frame \<open>k\<close>.\<close>

definition kthen :: "kout option \<Rightarrow> kframe \<Rightarrow> kout option" where
  "kthen out k = do {
     x \<leftarrow> out;
     case x of
       Ret r s \<Rightarrow> do { (r', s') \<leftarrow> run_frame k r s; Some (Ret r' s') }
     | Switch ks s \<Rightarrow> Some (Switch (ks @ [k]) s) }"

text \<open>
  The thread that is current after the switch finishes its C functions and goes on with its own
  code, with the value the outermost function returned.
\<close>

definition resume_current :: "kernel \<Rightarrow> kernel option" where
  "resume_current s = do {
     (r, s') \<leftarrow> unwind (t_frames (cur s)) 0 (upd_thr (current_thread s) (\<lambda>t. t\<lparr>t_frames := []\<rparr>) s);
     Some (upd_thr (current_thread s') (\<lambda>t. t\<lparr>t_result := r\<rparr>) s') }"

definition kcall :: "kop \<Rightarrow> kernel \<Rightarrow> kernel option" where
  "kcall op s = do {
     x \<leftarrow> op s;
     case x of
       Ret r s' \<Rightarrow> Some (upd_thr (current_thread s') (\<lambda>t. t\<lparr>t_result := r\<rparr>) s')
     | Switch ks s' \<Rightarrow> do {
         s'' \<leftarrow> thread_resched (upd_thr (current_thread s') (\<lambda>t. t\<lparr>t_frames := ks\<rparr>) s');
         resume_current s'' } }"

subsection \<open>Giving up the processor\<close>

definition thread_yield :: kop where
  "thread_yield s =
     (let s1 = enter_critical_section s;
          s2 = upd_thr (current_thread s1)
                 (\<lambda>t. t\<lparr>t_state := THREAD_READY, remaining_quantum := 0\<rparr>) s1
      in do { s3 \<leftarrow> insert_in_run_queue_tail (current_thread s2) s2;
              Some (Switch [F_thread_yield] s3) })"

definition thread_preempt :: kop where
  "thread_preempt s =
     (let s1 = enter_critical_section s;
          s2 = upd_thr (current_thread s1) (\<lambda>t. t\<lparr>t_state := THREAD_READY\<rparr>) s1
      in do { s3 \<leftarrow> (if remaining_quantum (cur s2) > 0
                     then insert_in_run_queue_head (current_thread s2) s2
                     else insert_in_run_queue_tail (current_thread s2) s2);
              Some (Switch [F_thread_preempt] s3) })"

definition thread_block :: kop where
  "thread_block s = Some (Switch [F_thread_block] (enter_critical_section s))"

definition thread_resume :: "tid \<Rightarrow> kop" where
  "thread_resume t s =
     (if t_state (thr s t) = THREAD_READY \<or> t_state (thr s t) = THREAD_RUNNING
      then Some (Ret ERR_NOT_SUSPENDED s)
      else
        let s1 = enter_critical_section s;
            s2 = upd_thr t (\<lambda>x. x\<lparr>t_state := THREAD_READY\<rparr>) s1
        in do { s3 \<leftarrow> insert_in_run_queue_head t s2;
                kthen (thread_yield s3) F_thread_resume })"

definition thread_sleep :: "u32 \<Rightarrow> kop" where
  "thread_sleep delay s =
     (let s1 = timer_initialize (Tstack (current_thread s)) s;
          s2 = enter_critical_section s1
      in do { s3 \<leftarrow> timer_set_oneshot (Tstack (current_thread s2)) delay
                       CB_thread_sleep_handler (current_thread s2) s2;
              let s4 = upd_thr (current_thread s3) (\<lambda>t. t\<lparr>t_state := THREAD_SLEEPING\<rparr>) s3
              in Some (Switch [F_thread_sleep] s4) })"

definition thread_timer_tick :: "kernel \<Rightarrow> handler_return \<times> kernel" where
  "thread_timer_tick s =
     (if Some (current_thread s) = idle_thread s then (INT_NO_RESCHEDULE, s)
      else
        let s1 = upd_thr (current_thread s)
                   (\<lambda>t. t\<lparr>remaining_quantum := remaining_quantum t - 1\<rparr>) s
        in (if remaining_quantum (cur s1) \<le> 0 then INT_RESCHEDULE else INT_NO_RESCHEDULE, s1))"

text \<open>The timer callback that wakes a sleeping thread.\<close>

definition thread_sleep_handler :: "tid \<Rightarrow> kernel \<Rightarrow> (handler_return \<times> kernel) option" where
  "thread_sleep_handler t s = do {
     s2 \<leftarrow> insert_in_run_queue_head t (upd_thr t (\<lambda>x. x\<lparr>t_state := THREAD_READY\<rparr>) s);
     Some (INT_RESCHEDULE, s2) }"

subsection \<open>Initialization and attributes\<close>

definition thread_init_early :: "tid \<Rightarrow> kernel \<Rightarrow> kernel" where
  "thread_init_early bootstrap s =
     (let s1 = s\<lparr>run_queue := (\<lambda>_. []), thread_list := []\<rparr>;
          s2 = init_thread_struct bootstrap ''bootstrap'' s1;
          s3 = upd_thr bootstrap (\<lambda>t. t\<lparr>t_priority := HIGHEST_PRIORITY,
                 t_state := THREAD_RUNNING, saved_critical_section_count := 1\<rparr>) s2
      in s3\<lparr>thread_list := bootstrap # thread_list s3, current_thread := bootstrap\<rparr>)"

definition thread_set_name :: "string \<Rightarrow> kernel \<Rightarrow> kernel" where
  "thread_set_name name s = upd_thr (current_thread s) (\<lambda>t. t\<lparr>t_name := take 31 name\<rparr>) s"

definition thread_set_priority :: "int \<Rightarrow> kernel \<Rightarrow> kernel" where
  "thread_set_priority priority s =
     (let p1 = (if priority < LOWEST_PRIORITY then LOWEST_PRIORITY else priority);
          p2 = (if p1 > HIGHEST_PRIORITY then HIGHEST_PRIORITY else p1)
      in upd_thr (current_thread s) (\<lambda>t. t\<lparr>t_priority := p2\<rparr>) s)"

text \<open>\<open>thread_become_idle\<close> up to the endless loop of \<open>idle_thread_routine\<close>.\<close>

definition thread_become_idle :: "kernel \<Rightarrow> kernel" where
  "thread_become_idle s =
     (let s1 = thread_set_priority IDLE_PRIORITY (thread_set_name ''idle'' s)
      in s1\<lparr>idle_thread := Some (current_thread s1)\<rparr>)"

subsection \<open>Wait queues\<close>

definition wait_queue_init :: "wq_id \<Rightarrow> kernel \<Rightarrow> kernel" where
  "wait_queue_init q s =
     upd_wq q (\<lambda>_. \<lparr>wq_magic = WAIT_QUEUE_MAGIC, wq_list = [], wq_count = 0\<rparr>) s"

definition wait_queue_block :: "wq_id \<Rightarrow> u32 \<Rightarrow> kop" where
  "wait_queue_block q timeout s =
     (if timeout = 0 then Some (Ret ERR_TIMED_OUT s)
      else
        let t = current_thread s;
            s1 = upd_wq q (\<lambda>w. w\<lparr>wq_list := wq_list w @ [t], wq_count := wq_count w + 1\<rparr>) s;
            s2 = upd_thr t (\<lambda>x. x\<lparr>t_state := THREAD_BLOCKED, blocking_wait_queue := Some q,
                   wait_queue_block_ret := NO_ERROR\<rparr>) s1
        in do {
             s3 \<leftarrow> (if timeout \<noteq> INFINITE_TIME
                    then timer_set_oneshot (Tstack t) timeout CB_wait_queue_timeout_handler t
                           (timer_initialize (Tstack t) s2)
                    else Some s2);
             kthen (thread_block s3) (F_wait_queue_block timeout) })"

definition wait_queue_wake_one :: "wq_id \<Rightarrow> bool \<Rightarrow> int \<Rightarrow> kop" where
  "wait_queue_wake_one q reschedule wait_queue_error s =
     (case wq_list (wqs s q) of
        [] \<Rightarrow> Some (Ret 0 s)
      | t # rest \<Rightarrow>
          let s1 = upd_wq q (\<lambda>w. w\<lparr>wq_list := rest, wq_count := wq_count w - 1\<rparr>) s;
              s2 = upd_thr t (\<lambda>x. x\<lparr>t_state := THREAD_READY,
                     wait_queue_block_ret := wait_queue_error, blocking_wait_queue := None\<rparr>) s1
          in do {
               s3 \<leftarrow> (if reschedule
                      then insert_in_run_queue_head (current_thread s2)
                             (upd_thr (current_thread s2) (\<lambda>x. x\<lparr>t_state := THREAD_READY\<rparr>) s2)
                      else Some s2);
               s4 \<leftarrow> insert_in_run_queue_head t s3;
               if reschedule then Some (Switch [F_wait_queue_wake_one] s4)
               else Some (Ret 1 s4) })"

text \<open>The \<open>while\<close> loop of \<open>wait_queue_wake_all\<close>, over the threads in the queue.\<close>

fun wake_loop :: "wq_id \<Rightarrow> int \<Rightarrow> tid list \<Rightarrow> kernel \<Rightarrow> kernel option" where
  "wake_loop q err [] s = Some s"
| "wake_loop q err (t # rest) s =
     (let s1 = upd_wq q (\<lambda>w. w\<lparr>wq_list := rest, wq_count := wq_count w - 1\<rparr>) s;
          s2 = upd_thr t (\<lambda>x. x\<lparr>t_state := THREAD_READY,
                 wait_queue_block_ret := err, blocking_wait_queue := None\<rparr>) s1
      in do { s3 \<leftarrow> insert_in_run_queue_head t s2; wake_loop q err rest s3 })"

definition wait_queue_wake_all :: "wq_id \<Rightarrow> bool \<Rightarrow> int \<Rightarrow> kop" where
  "wait_queue_wake_all q reschedule wait_queue_error s = do {
     s1 \<leftarrow> (if reschedule \<and> wq_count (wqs s q) > 0
            then insert_in_run_queue_head (current_thread s)
                   (upd_thr (current_thread s) (\<lambda>x. x\<lparr>t_state := THREAD_READY\<rparr>) s)
            else Some s);
     let waiters = wq_list (wqs s1 q); ret = int (length waiters)
     in do {
          s2 \<leftarrow> wake_loop q wait_queue_error waiters s1;
          if reschedule \<and> ret > 0 then Some (Switch [F_wait_queue_wake_all ret] s2)
          else Some (Ret ret s2) } }"

definition wait_queue_destroy :: "wq_id \<Rightarrow> bool \<Rightarrow> kop" where
  "wait_queue_destroy q reschedule s =
     kthen (wait_queue_wake_all q reschedule ERR_OBJECT_DESTROYED s) (F_wait_queue_destroy q)"

definition thread_unblock_from_wait_queue :: "tid \<Rightarrow> bool \<Rightarrow> int \<Rightarrow> kop" where
  "thread_unblock_from_wait_queue t reschedule wait_queue_error s =
     (let s1 = enter_critical_section s in
      if t_state (thr s1 t) \<noteq> THREAD_BLOCKED then Some (Ret ERR_NOT_BLOCKED s1)
      else case blocking_wait_queue (thr s1 t) of
             None \<Rightarrow> None
           | Some q \<Rightarrow>
               let s2 = upd_wq q (\<lambda>w. w\<lparr>wq_list := remove1 t (wq_list w),
                          wq_count := wq_count w - 1\<rparr>) s1;
                   s3 = upd_thr t (\<lambda>x. x\<lparr>blocking_wait_queue := None, t_state := THREAD_READY,
                          wait_queue_block_ret := wait_queue_error\<rparr>) s2
               in do {
                    s4 \<leftarrow> insert_in_run_queue_head t s3;
                    if reschedule then Some (Switch [F_thread_unblock] s4)
                    else Some (Ret NO_ERROR (exit_critical_section s4)) })"

definition wait_queue_timeout_handler :: "tid \<Rightarrow> kernel \<Rightarrow> (handler_return \<times> kernel) option" where
  "wait_queue_timeout_handler t s = do {
     x \<leftarrow> thread_unblock_from_wait_queue t False ERR_TIMED_OUT s;
     case x of
       Ret r s' \<Rightarrow> Some (if r \<ge> NO_ERROR then INT_RESCHEDULE else INT_NO_RESCHEDULE, s')
     | Switch ks s' \<Rightarrow> None }"

end
