(* ===== verification/LK_Sched_Inv.thy ===== *)
theory LK_Sched_Inv
  imports LK_Thread
begin

text \<open>
  The invariant of the scheduler's queues. \<open>kcore X s\<close>: outside the set \<open>X\<close> of threads that an
  operation has taken off their queues, a run queue holds exactly the ready threads of its
  priority, each once; the bitmap has the bit of every run queue that is not empty; a wait queue
  holds exactly the threads blocked on it, each once, and its count is their number. An operation
  moves threads into \<open>X\<close> and out again; between operations \<open>X\<close> is empty.
\<close>

definition prio_ok :: "kernel \<Rightarrow> bool" where
  "prio_ok s \<longleftrightarrow> (\<forall>t \<in> set (thread_list s). 0 \<le> t_priority (thr s t) \<and> t_priority (thr s t) < 32)"

definition ready_at :: "tid set \<Rightarrow> kernel \<Rightarrow> nat \<Rightarrow> tid set" where
  "ready_at X s p = {t \<in> set (thread_list s) - X.
     t_state (thr s t) = THREAD_READY \<and> t_priority (thr s t) = int p}"

definition waiting_on :: "tid set \<Rightarrow> kernel \<Rightarrow> wq_id \<Rightarrow> tid set" where
  "waiting_on X s q = {t \<in> set (thread_list s) - X.
     t_state (thr s t) = THREAD_BLOCKED \<and> blocking_wait_queue (thr s t) = Some q}"

definition rq_ok :: "tid set \<Rightarrow> kernel \<Rightarrow> bool" where
  "rq_ok X s \<longleftrightarrow> (\<forall>p < 32. distinct (run_queue s p) \<and> set (run_queue s p) = ready_at X s p \<and>
     (bit (run_queue_bitmap s) p \<longleftrightarrow> run_queue s p \<noteq> []))"

definition wq_ok :: "tid set \<Rightarrow> kernel \<Rightarrow> bool" where
  "wq_ok X s \<longleftrightarrow>
     (\<forall>q. distinct (wq_list (wqs s q)) \<and> set (wq_list (wqs s q)) = waiting_on X s q \<and>
          wq_count (wqs s q) = int (length (wq_list (wqs s q)))) \<and>
     (\<forall>t \<in> set (thread_list s) - X. t_state (thr s t) = THREAD_BLOCKED \<longrightarrow>
          blocking_wait_queue (thr s t) \<noteq> None)"

definition kcore :: "tid set \<Rightarrow> kernel \<Rightarrow> bool" where
  "kcore X s \<longleftrightarrow> distinct (thread_list s) \<and> prio_ok s \<and> rq_ok X s \<and> wq_ok X s"

text \<open>The invariant reads only the scheduler's part of the state.\<close>

lemma kcore_cong:
  assumes "thread_list s' = thread_list s" "run_queue s' = run_queue s"
    "run_queue_bitmap s' = run_queue_bitmap s"
    "\<And>q. wq_list (wqs s' q) = wq_list (wqs s q)" "\<And>q. wq_count (wqs s' q) = wq_count (wqs s q)"
    "\<And>t. t_state (thr s' t) = t_state (thr s t)"
    "\<And>t. t_priority (thr s' t) = t_priority (thr s t)"
    "\<And>t. blocking_wait_queue (thr s' t) = blocking_wait_queue (thr s t)"
  shows "kcore X s' = kcore X s"
  using assms
  by (simp add: kcore_def prio_ok_def rq_ok_def wq_ok_def ready_at_def waiting_on_def)

lemma kcore_cong_thr:
  assumes "thr s' = thr s" "thread_list s' = thread_list s" "run_queue s' = run_queue s"
    "run_queue_bitmap s' = run_queue_bitmap s" "wqs s' = wqs s"
  shows "kcore X s' = kcore X s"
  by (rule kcore_cong) (simp_all add: assms)

lemma kcore_frame [simp]:
  "kcore X (enter_critical_section s) = kcore X s"
  "kcore X (exit_critical_section s) = kcore X s"
  "kcore X (upd_tm i g s) = kcore X s"
  "kcore X (upd_mtx m h s) = kcore X s"
  "kcore X (upd_evt e k s) = kcore X s"
  "kcore X (s\<lparr>critical_section_count := c\<rparr>) = kcore X s"
  "kcore X (s\<lparr>ints_enabled := b\<rparr>) = kcore X s"
  "kcore X (s\<lparr>current_thread := t\<rparr>) = kcore X s"
  "kcore X (s\<lparr>idle_thread := u\<rparr>) = kcore X s"
  "kcore X (s\<lparr>timer_queue := tq\<rparr>) = kcore X s"
  "kcore X (s\<lparr>dpc_list := ds\<rparr>) = kcore X s"
  "kcore X (s\<lparr>clock := n\<rparr>) = kcore X s"
  "kcore X (timer_cancel i s) = kcore X s"
  "kcore X (timer_initialize i s) = kcore X s"
  "kcore X (inc_critical_section s) = kcore X s"
  "kcore X (dec_critical_section s) = kcore X s"
  by (rule kcore_cong_thr; simp add: inc_critical_section_def dec_critical_section_def)+

lemma kcore_upd_thr_same:
  assumes "t_state (f (thr s t)) = t_state (thr s t)"
    "t_priority (f (thr s t)) = t_priority (thr s t)"
    "blocking_wait_queue (f (thr s t)) = blocking_wait_queue (thr s t)"
  shows "kcore X (upd_thr t f s) = kcore X s"
  by (rule kcore_cong) (auto simp: assms)

lemma kcore_upd_wq_same:
  assumes "wq_list (f (wqs s q)) = wq_list (wqs s q)" "wq_count (f (wqs s q)) = wq_count (wqs s q)"
  shows "kcore X (upd_wq q f s) = kcore X s"
  by (rule kcore_cong) (auto simp: assms)

subsection \<open>Taking a thread off its queue and putting it back\<close>

text \<open>A thread on no queue may be written to, as long as its priority stays valid.\<close>

lemma kcore_detach:
  assumes core: "kcore X s"
    and off: "t \<in> X \<or> t_state (thr s t) \<noteq> THREAD_READY \<and> t_state (thr s t) \<noteq> THREAD_BLOCKED"
    and prio: "t \<in> set (thread_list s) \<Longrightarrow> 0 \<le> t_priority (f (thr s t)) \<and> t_priority (f (thr s t)) < 32"
  shows "kcore (insert t X) (upd_thr t f s)"
proof -
  have "ready_at (insert t X) (upd_thr t f s) p = ready_at X s p" for p
    using off by (auto simp: ready_at_def)
  moreover have "waiting_on (insert t X) (upd_thr t f s) q = waiting_on X s q" for q
    using off by (auto simp: waiting_on_def)
  ultimately show ?thesis
    using core prio by (auto simp: kcore_def prio_ok_def rq_ok_def wq_ok_def)
qed

text \<open>A thread that is neither ready nor blocked belongs on no queue.\<close>

lemma kcore_release:
  assumes core: "kcore (insert t X) s"
    and off: "t_state (thr s t) \<noteq> THREAD_READY" "t_state (thr s t) \<noteq> THREAD_BLOCKED"
  shows "kcore X s"
proof -
  have "ready_at (insert t X) s p = ready_at X s p" for p
    using off by (auto simp: ready_at_def)
  moreover have "waiting_on (insert t X) s q = waiting_on X s q" for q
    using off by (auto simp: waiting_on_def)
  ultimately show ?thesis
    using core off by (auto simp: kcore_def prio_ok_def rq_ok_def wq_ok_def)
qed

lemma kcore_set_idle:
  assumes "kcore X s"
    and "t_state (thr s t) \<noteq> THREAD_READY" "t_state (thr s t) \<noteq> THREAD_BLOCKED"
    and "t_state (f (thr s t)) \<noteq> THREAD_READY" "t_state (f (thr s t)) \<noteq> THREAD_BLOCKED"
    and "t \<in> set (thread_list s) \<Longrightarrow> 0 \<le> t_priority (f (thr s t)) \<and> t_priority (f (thr s t)) < 32"
  shows "kcore X (upd_thr t f s)"
  by (rule kcore_release [of t]) (use kcore_detach [of X s t f] assms in auto)

text \<open>What linking a ready thread into its run queue does, at either end.\<close>

lemma kcore_enqueue:
  assumes core: "kcore (insert t X) s" and t: "t \<in> set (thread_list s)" "t \<notin> X"
    and ready: "t_state (thr s t) = THREAD_READY"
    and p: "p = nat (t_priority (thr s t))"
    and q: "set q' = insert t (set (run_queue s p))" "distinct q' = (t \<notin> set (run_queue s p) \<and> distinct (run_queue s p))"
  shows "kcore X (s\<lparr>run_queue := (run_queue s)(p := q'),
           run_queue_bitmap := run_queue_bitmap s OR push_bit p 1\<rparr>)" (is "kcore X ?s")
proof -
  have range: "0 \<le> t_priority (thr s t)" "t_priority (thr s t) < 32"
    using core t by (auto simp: kcore_def prio_ok_def)
  have p32: "p < 32" and tp: "t_priority (thr s t) = int p" using range p by auto
  have notin: "t \<notin> set (run_queue s p)"
    using core p32 by (auto simp: kcore_def rq_ok_def ready_at_def)
  have ready_eq: "ready_at X ?s i = (if i = p then insert t (ready_at (insert t X) s i)
      else ready_at (insert t X) s i)" for i
    using t ready tp by (auto simp: ready_at_def)
  have wait_eq: "waiting_on X (s\<lparr>run_queue := rq, run_queue_bitmap := b\<rparr>) w =
      waiting_on (insert t X) s w" for rq b w
    using ready by (auto simp: waiting_on_def)
  have ne: "q' \<noteq> []" using q(1) by auto
  have "rq_ok X ?s"
    unfolding rq_ok_def
  proof (intro allI impI conjI)
    fix i :: nat assume i: "i < 32"
    show "distinct (run_queue ?s i)" using core i notin q(2) by (auto simp: kcore_def rq_ok_def)
    show "set (run_queue ?s i) = ready_at X ?s i"
      using core i q(1) ready_eq [of i] by (auto simp: kcore_def rq_ok_def)
    show "bit (run_queue_bitmap ?s) i \<longleftrightarrow> run_queue ?s i \<noteq> []"
      using core i p32 ne by (auto simp: kcore_def rq_ok_def bit_or_iff bit_exp_iff)
  qed
  moreover have "wq_ok X ?s"
    using core ready by (auto simp: kcore_def wq_ok_def wait_eq)
  ultimately show ?thesis
    using core by (auto simp: kcore_def prio_ok_def)
qed

lemma kcore_insert_head:
  assumes "kcore (insert t X) s" and "t \<in> set (thread_list s)" "t \<notin> X"
    and "t_state (thr s t) = THREAD_READY"
  obtains s' where "insert_in_run_queue_head t s = Some s'" and "kcore X s'"
    and "s' = s\<lparr>run_queue := (run_queue s)(nat (t_priority (thr s t)) :=
               t # run_queue s (nat (t_priority (thr s t)))),
             run_queue_bitmap := run_queue_bitmap s OR push_bit (nat (t_priority (thr s t))) 1\<rparr>"
proof (rule that [OF _ _ refl])
  show "insert_in_run_queue_head t s = Some (s\<lparr>run_queue := (run_queue s)(nat (t_priority (thr s t)) :=
               t # run_queue s (nat (t_priority (thr s t)))),
             run_queue_bitmap := run_queue_bitmap s OR push_bit (nat (t_priority (thr s t))) 1\<rparr>)"
    using assms by (auto simp: insert_in_run_queue_head_def Let_def kcore_def prio_ok_def)
  show "kcore X (s\<lparr>run_queue := (run_queue s)(nat (t_priority (thr s t)) :=
               t # run_queue s (nat (t_priority (thr s t)))),
             run_queue_bitmap := run_queue_bitmap s OR push_bit (nat (t_priority (thr s t))) 1\<rparr>)"
    by (rule kcore_enqueue [OF assms refl]) auto
qed

lemma kcore_insert_tail:
  assumes "kcore (insert t X) s" and "t \<in> set (thread_list s)" "t \<notin> X"
    and "t_state (thr s t) = THREAD_READY"
  obtains s' where "insert_in_run_queue_tail t s = Some s'" and "kcore X s'"
    and "s' = s\<lparr>run_queue := (run_queue s)(nat (t_priority (thr s t)) :=
               run_queue s (nat (t_priority (thr s t))) @ [t]),
             run_queue_bitmap := run_queue_bitmap s OR push_bit (nat (t_priority (thr s t))) 1\<rparr>"
proof (rule that [OF _ _ refl])
  show "insert_in_run_queue_tail t s = Some (s\<lparr>run_queue := (run_queue s)(nat (t_priority (thr s t)) :=
               run_queue s (nat (t_priority (thr s t))) @ [t]),
             run_queue_bitmap := run_queue_bitmap s OR push_bit (nat (t_priority (thr s t))) 1\<rparr>)"
    using assms by (auto simp: insert_in_run_queue_tail_def Let_def kcore_def prio_ok_def)
  show "kcore X (s\<lparr>run_queue := (run_queue s)(nat (t_priority (thr s t)) :=
               run_queue s (nat (t_priority (thr s t))) @ [t]),
             run_queue_bitmap := run_queue_bitmap s OR push_bit (nat (t_priority (thr s t))) 1\<rparr>)"
    by (rule kcore_enqueue [OF assms refl]) auto
qed

subsection \<open>Wait queues\<close>

lemma kcore_wq_unlink:
  assumes core: "kcore X s" and mem: "t \<in> set (wq_list (wqs s q))"
    and l: "wq_list (f (wqs s q)) = remove1 t (wq_list (wqs s q))"
    and c: "wq_count (f (wqs s q)) = wq_count (wqs s q) - 1"
  shows "kcore (insert t X) (upd_wq q f s)"
proof -
  have dist: "distinct (wq_list (wqs s q))" using core by (auto simp: kcore_def wq_ok_def)
  have t: "t_state (thr s t) = THREAD_BLOCKED" "blocking_wait_queue (thr s t) = Some q"
    using core mem by (auto simp: kcore_def wq_ok_def waiting_on_def)
  have ready: "ready_at (insert t X) (upd_wq q f s) p = ready_at X s p" for p
    using t by (auto simp: ready_at_def)
  have wait: "waiting_on (insert t X) (upd_wq q f s) w = waiting_on X s w - {t}" for w
    using t by (auto simp: waiting_on_def)
  have other: "t \<notin> waiting_on X s w" if "w \<noteq> q" for w
    using that t by (auto simp: waiting_on_def)
  have len: "length (wq_list (wqs s q)) = Suc (length (remove1 t (wq_list (wqs s q))))"
    using mem by (simp add: length_remove1) (metis Suc_pred length_pos_if_in_set)
  show ?thesis
    using core dist l c len other
    by (auto simp: kcore_def prio_ok_def rq_ok_def wq_ok_def ready wait)
qed

lemma kcore_wq_append:
  assumes core: "kcore (insert t X) s" and t: "t \<in> set (thread_list s)" "t \<notin> X"
    and st: "t_state (thr s t) = THREAD_BLOCKED" "blocking_wait_queue (thr s t) = Some q"
    and l: "wq_list (f (wqs s q)) = wq_list (wqs s q) @ [t]"
    and c: "wq_count (f (wqs s q)) = wq_count (wqs s q) + 1"
  shows "kcore X (upd_wq q f s)"
proof -
  have notin: "t \<notin> set (wq_list (wqs s q))"
    using core by (auto simp: kcore_def wq_ok_def waiting_on_def)
  have ready: "ready_at X (upd_wq q f s) p = ready_at (insert t X) s p" for p
    using st by (auto simp: ready_at_def)
  have wait: "waiting_on X (upd_wq q f s) w =
      (if w = q then insert t (waiting_on (insert t X) s w) else waiting_on (insert t X) s w)" for w
    using st t by (auto simp: waiting_on_def)
  show ?thesis
    using core l c notin st
    by (auto simp: kcore_def prio_ok_def rq_ok_def wq_ok_def ready wait)
qed

end
