(* ===== verification/LK_Kcall.thy ===== *)
theory LK_Kcall
  imports LK_Sched_Inv
begin

text \<open>
  Kernel calls: the invariant between calls, the state in which \<open>thread_resched\<close> is called, and
  the locale \<open>kernel_op\<close> of operations that keep the invariant. The locale proves once, for every
  operation that satisfies its contract, that the call returns to some thread's own code with
  the invariant intact and that no thread's critical section count is disturbed.
\<close>

subsection \<open>Invariants\<close>

definition running_ok :: "kernel \<Rightarrow> bool" where
  "running_ok s \<longleftrightarrow> current_thread s \<in> set (thread_list s) \<and>
     {t \<in> set (thread_list s). t_state (thr s t) = THREAD_RUNNING} = {current_thread s}"

text \<open>A dead thread is inside \<open>thread_exit\<close>, and no other thread is.\<close>

definition frames_ok :: "kernel \<Rightarrow> bool" where
  "frames_ok s \<longleftrightarrow> (\<forall>t \<in> set (thread_list s).
     if t_state (thr s t) = THREAD_DEATH then t_frames (thr s t) = [F_thread_exit]
     else F_thread_exit \<notin> set (t_frames (thr s t)))"

text \<open>
  The threads waiting for the deferred procedure call that frees them: each is dead, still on the
  thread list, and queued for cleanup once.
\<close>

definition cleanups :: "dpc_t list \<Rightarrow> tid list" where
  "cleanups ds = map dpc_arg (filter (\<lambda>d. dpc_cb d = DPC_thread_cleanup) ds)"

definition dpc_ok :: "kernel \<Rightarrow> bool" where
  "dpc_ok s \<longleftrightarrow> distinct (cleanups (dpc_list s)) \<and>
     (\<forall>t \<in> set (cleanups (dpc_list s)). t \<in> set (thread_list s) \<and> t_state (thr s t) = THREAD_DEATH)"

text \<open>
  The timer on a thread's stack is queued only while the function that owns it has not returned:
  the thread sleeps, or it is inside \<open>wait_queue_block\<close> with a timeout.
\<close>

definition timed_wait :: "kframe list \<Rightarrow> bool" where
  "timed_wait ks \<longleftrightarrow> (\<exists>timeout. timeout \<noteq> INFINITE_TIME \<and> F_wait_queue_block timeout \<in> set ks)"

lemma timed_wait_simps [simp]:
  "\<not> timed_wait []" "timed_wait (ks @ ls) \<longleftrightarrow> timed_wait ks \<or> timed_wait ls"
  by (auto simp: timed_wait_def)

lemma timed_wait_Cons: "timed_wait (f # ks) \<longleftrightarrow> timed_wait [f] \<or> timed_wait ks"
  by (auto simp: timed_wait_def)

definition tstack_at :: "kernel \<Rightarrow> tid \<Rightarrow> bool" where
  "tstack_at s t \<longleftrightarrow> t \<in> set (thread_list s) \<and> tm_arg (tms s (Tstack t)) = t \<and>
     (tm_callback (tms s (Tstack t)) = CB_thread_sleep_handler \<and>
        t_state (thr s t) = THREAD_SLEEPING \<or>
      tm_callback (tms s (Tstack t)) = CB_wait_queue_timeout_handler \<and>
        timed_wait (t_frames (thr s t)))"

definition tstack_ok :: "kernel \<Rightarrow> bool" where
  "tstack_ok s \<longleftrightarrow> (\<forall>t. Tstack t \<in> set (timer_queue s) \<longrightarrow> tstack_at s t)"

definition ksound :: "kernel \<Rightarrow> bool" where
  "ksound s \<longleftrightarrow> kcore {} s \<and> frames_ok s \<and> timer_inv s \<and> tstack_ok s \<and> dpc_ok s \<and>
     current_thread s \<in> set (thread_list s)"

text \<open>Between two kernel calls: one thread runs, and it is in no C function of the kernel.\<close>

definition kinv :: "kernel \<Rightarrow> bool" where
  "kinv s \<longleftrightarrow> ksound s \<and> running_ok s \<and> t_frames (cur s) = []"

text \<open>When \<open>thread_resched\<close> is called: no thread runs, some thread is ready.\<close>

definition kswitch :: "kernel \<Rightarrow> bool" where
  "kswitch s \<longleftrightarrow> ksound s \<and>
     (\<forall>t \<in> set (thread_list s). t_state (thr s t) \<noteq> THREAD_RUNNING) \<and>
     (\<exists>t \<in> set (thread_list s). t_state (thr s t) = THREAD_READY)"

subsection \<open>Critical section accounting\<close>

definition exits :: "kframe \<Rightarrow> int" where
  "exits f = (case f of F_wait_queue_block _ \<Rightarrow> 0 | F_wait_queue_wake_one \<Rightarrow> 0
     | F_wait_queue_wake_all _ \<Rightarrow> 0 | F_wait_queue_destroy _ \<Rightarrow> 0 | F_thread_exit \<Rightarrow> 0 | _ \<Rightarrow> 1)"

definition exits_of :: "kframe list \<Rightarrow> int" where
  "exits_of ks = sum_list (map exits ks)"

lemma exits_of_simps [simp]:
  "exits_of [] = 0" "exits_of (f # ks) = exits f + exits_of ks"
  "exits_of (ks @ ls) = exits_of ks + exits_of ls"
  by (simp_all add: exits_of_def)

text \<open>
  The critical section depth a thread's own code runs at: the global counter for the current
  thread, and for another one the saved counter less what its unfinished functions will leave.
\<close>

definition user_cs :: "kernel \<Rightarrow> tid \<Rightarrow> int" where
  "user_cs s t = (if t = current_thread s then critical_section_count s
     else saved_critical_section_count (thr s t) - exits_of (t_frames (thr s t)))"

subsection \<open>Finishing a function\<close>

lemma run_frame_sched:
  assumes "run_frame f r s = Some (r', s')"
  shows "thr s' = thr s \<and> thread_list s' = thread_list s \<and> current_thread s' = current_thread s \<and>
    idle_thread s' = idle_thread s \<and> run_queue s' = run_queue s \<and>
    run_queue_bitmap s' = run_queue_bitmap s \<and> dpc_list s' = dpc_list s"
  using assms
  by (cases f) (auto simp: run_frame_def Let_def dec_critical_section_def split: if_splits)

lemma run_frame_wq:
  assumes "run_frame f r s = Some (r', s')"
  shows "wq_list (wqs s' q) = wq_list (wqs s q) \<and> wq_count (wqs s' q) = wq_count (wqs s q)"
  using assms
  by (cases f) (auto simp: run_frame_def Let_def dec_critical_section_def split: if_splits)

lemma run_frame_exits:
  assumes "run_frame f r s = Some (r', s')"
  shows "f \<noteq> F_thread_exit \<and> critical_section_count s' = critical_section_count s - exits f"
  using assms
  by (cases f) (auto simp: run_frame_def Let_def exits_def dec_critical_section_def split: if_splits)

lemma run_frame_Some:
  assumes "f \<noteq> F_thread_exit"
  shows "\<exists>r' s'. run_frame f r s = Some (r', s')"
  using assms by (cases f) (auto simp: run_frame_def Let_def)

text \<open>Only \<open>wait_queue_block\<close> with a timeout touches the timers: it cancels its own.\<close>

lemma run_frame_timers:
  assumes "run_frame f r s = Some (r', s')" and "\<not> timed_wait [f]"
  shows "timer_queue s' = timer_queue s \<and> tms s' = tms s"
  using assms
  by (cases f) (auto simp: run_frame_def Let_def dec_critical_section_def timed_wait_def
      split: if_splits)

lemma run_frame_timed_wait:
  assumes "run_frame f r s = Some (r', s')" and "timed_wait [f]"
  shows "s' = timer_cancel (Tstack (current_thread s)) s"
  using assms by (auto simp: run_frame_def timed_wait_def Let_def)


definition set_frames :: "kframe list \<Rightarrow> kernel \<Rightarrow> kernel" where
  "set_frames ks s = upd_thr (current_thread s) (\<lambda>t. t\<lparr>t_frames := ks\<rparr>) s"

lemma set_frames_sel [simp]:
  "t_state (thr (set_frames ks s) t) = t_state (thr s t)"
  "t_priority (thr (set_frames ks s) t) = t_priority (thr s t)"
  "saved_critical_section_count (thr (set_frames ks s) t) = saved_critical_section_count (thr s t)"
  "blocking_wait_queue (thr (set_frames ks s) t) = blocking_wait_queue (thr s t)"
  "t_frames (thr (set_frames ks s) t) = (if t = current_thread s then ks else t_frames (thr s t))"
  "thread_list (set_frames ks s) = thread_list s"
  "current_thread (set_frames ks s) = current_thread s"
  "idle_thread (set_frames ks s) = idle_thread s"
  "critical_section_count (set_frames ks s) = critical_section_count s"
  "timer_queue (set_frames ks s) = timer_queue s"
  "tms (set_frames ks s) = tms s"
  "wqs (set_frames ks s) = wqs s"
  "run_queue (set_frames ks s) = run_queue s"
  "timer_inv (set_frames ks s) = timer_inv s"
  "dpc_list (set_frames ks s) = dpc_list s"
  by (simp_all add: set_frames_def timer_inv_def)

lemma dpc_ok_set_frames [simp]: "dpc_ok (set_frames ks s) = dpc_ok s"
  by (simp add: dpc_ok_def)

lemma kcore_set_frames [simp]: "kcore X (set_frames ks s) = kcore X s"
  by (simp add: set_frames_def kcore_upd_thr_same)

lemma tstack_ok_cancel:
  assumes "tstack_ok (set_frames (f # ks) s)" and "timer_inv s"
  shows "tstack_ok (set_frames ks (timer_cancel (Tstack (current_thread s)) s))"
  unfolding tstack_ok_def
proof (intro allI impI)
  let ?i = "Tstack (current_thread s)"
  fix t assume "Tstack t \<in> set (timer_queue (set_frames ks (timer_cancel ?i s)))"
  then have "Tstack t \<in> set (remove1 ?i (timer_queue s))"
    using timer_cancel_inv(2) [OF assms(2)] by (simp add: set_frames_def)
  then have t: "t \<noteq> current_thread s" "Tstack t \<in> set (timer_queue s)"
    using assms(2) by (auto simp: timer_inv_def)
  with assms(1) have "tstack_at (set_frames (f # ks) s) t"
    by (simp add: tstack_ok_def set_frames_def)
  with t show "tstack_at (set_frames ks (timer_cancel ?i s)) t"
    by (simp add: tstack_at_def set_frames_def timer_cancel_def timer_unlink_def Let_def)
qed

lemma tstack_ok_pop:
  assumes "tstack_ok (set_frames (f # ks) s)" and "\<not> timed_wait [f]"
    and "timer_queue s' = timer_queue s" "tms s' = tms s" "thr s' = thr s"
    "thread_list s' = thread_list s" "current_thread s' = current_thread s"
  shows "tstack_ok (set_frames ks s')"
  unfolding tstack_ok_def
proof (intro allI impI)
  fix t assume "Tstack t \<in> set (timer_queue (set_frames ks s'))"
  with assms have "tstack_at (set_frames (f # ks) s) t"
    by (simp add: tstack_ok_def set_frames_def)
  with assms show "tstack_at (set_frames ks s') t"
    by (simp add: tstack_at_def set_frames_def timed_wait_Cons [of f ks] split: if_splits)
qed

lemma ksound_pop:
  assumes run: "run_frame f r s = Some (r', s')" and sound: "ksound (set_frames (f # ks) s)"
  shows "ksound (set_frames ks s')"
proof -
  note sched = run_frame_sched [OF run] run_frame_wq [OF run]
  have core: "kcore {} s" and timers: "timer_inv s" and stk: "tstack_ok (set_frames (f # ks) s)"
    and fr: "frames_ok (set_frames (f # ks) s)" and cur: "current_thread s \<in> set (thread_list s)"
    and dpc: "dpc_ok s"
    using sound by (auto simp: ksound_def)
  have "kcore {} s' = kcore {} s" by (rule kcore_cong) (simp_all add: sched)
  moreover have "frames_ok (set_frames ks s')"
    using fr run_frame_exits [OF run] by (auto simp: frames_ok_def set_frames_def sched split: if_splits)
  moreover have "timer_inv s' \<and> tstack_ok (set_frames ks s')"
  proof (cases "timed_wait [f]")
    case True
    then show ?thesis
      using run_frame_timed_wait [OF run] timer_cancel_inv(1) [OF timers] tstack_ok_cancel [OF stk timers]
      by simp
  next
    case False
    then show ?thesis
      using run_frame_timers [OF run] timers tstack_ok_pop [OF stk False] sched
      by (auto simp: timer_inv_def)
  qed
  ultimately show ?thesis
    using core cur dpc by (simp add: ksound_def sched dpc_ok_def)
qed

lemma unwind_ok:
  assumes "F_thread_exit \<notin> set ks" and "ksound (set_frames ks s)"
  shows "\<exists>r' s'. unwind ks r s = Some (r', s') \<and> ksound (set_frames [] s') \<and> thr s' = thr s \<and>
    thread_list s' = thread_list s \<and> current_thread s' = current_thread s \<and>
    idle_thread s' = idle_thread s \<and> run_queue s' = run_queue s \<and>
    critical_section_count s' = critical_section_count s - exits_of ks"
  using assms
proof (induction ks arbitrary: r s)
  case Nil
  then show ?case by simp
next
  case (Cons f ks)
  then obtain r1 s1 where run: "run_frame f r s = Some (r1, s1)"
    using run_frame_Some [of f r s] by auto
  then have "ksound (set_frames ks s1)" by (rule ksound_pop) (rule Cons.prems)
  with Cons.IH [of s1 r1] Cons.prems(1) run_frame_sched [OF run] run_frame_exits [OF run] run
  show ?case by auto
qed

subsection \<open>Rescheduling\<close>

lemma kcore_dequeue:
  assumes core: "kcore X s" and p: "p < 32" and q: "run_queue s p = t # rest"
    and b: "b = (if rest = [] then run_queue_bitmap s AND NOT (push_bit p 1) else run_queue_bitmap s)"
  shows "kcore (insert t X) (s\<lparr>run_queue := (run_queue s)(p := rest), run_queue_bitmap := b\<rparr>)"
    (is "kcore _ ?s")
proof -
  have q_ok: "distinct (t # rest)" "set (t # rest) = ready_at X s p" "bit (run_queue_bitmap s) p"
    using core p q unfolding kcore_def rq_ok_def by (metis list.discI)+
  have t: "t_state (thr s t) = THREAD_READY" "t_priority (thr s t) = int p"
    using q_ok(2) by (auto simp: ready_at_def)
  have ready: "ready_at (insert t X) ?s i = ready_at X s i - {t}" for i
    by (auto simp: ready_at_def)
  have wait: "waiting_on (insert t X) ?s w = waiting_on X s w" for w
    using t by (auto simp: waiting_on_def)
  have other: "t \<notin> ready_at X s i" if "i \<noteq> p" for i
    using that t by (auto simp: ready_at_def)
  have "rq_ok (insert t X) ?s"
    unfolding rq_ok_def
  proof (intro allI impI conjI)
    fix i :: nat assume i: "i < 32"
    show "distinct (run_queue ?s i)" using core i q_ok by (auto simp: kcore_def rq_ok_def)
    show "set (run_queue ?s i) = ready_at (insert t X) ?s i"
      using core i q_ok other by (auto simp: kcore_def rq_ok_def ready)
    show "bit (run_queue_bitmap ?s) i \<longleftrightarrow> run_queue ?s i \<noteq> []"
      using core i p q_ok(3)
      by (auto simp: b kcore_def rq_ok_def bit_and_iff bit_not_iff bit_exp_iff)
  qed
  then show ?thesis
    using core by (auto simp: kcore_def prio_ok_def wq_ok_def wait)
qed

lemma bitmap_nonzero:
  assumes "kcore {} s" and "t \<in> set (thread_list s)" and "t_state (thr s t) = THREAD_READY"
  shows "run_queue_bitmap s \<noteq> 0"
proof -
  let ?p = "nat (t_priority (thr s t))"
  have "0 \<le> t_priority (thr s t)" "t_priority (thr s t) < 32"
    using assms by (auto simp: kcore_def prio_ok_def)
  then have "?p < 32" and "t \<in> ready_at {} s ?p" using assms by (auto simp: ready_at_def)
  then have "bit (run_queue_bitmap s) ?p"
    using assms(1) unfolding kcore_def rq_ok_def by (metis empty_iff empty_set)
  then show ?thesis by auto
qed

text \<open>
  What \<open>thread_resched\<close> does: it takes the first thread of the highest non-empty run queue and
  makes it the current one.
\<close>

lemma thread_resched_eq:
  assumes core: "kcore {} s" and b: "run_queue_bitmap s \<noteq> 0" and p: "p = 31 - clz32 (run_queue_bitmap s)"
  obtains new rest where "p < 32" and "run_queue s p = new # rest"
    and "\<And>j. p < j \<Longrightarrow> j < 32 \<Longrightarrow> run_queue s j = []"
    and "new \<in> set (thread_list s)" "t_state (thr s new) = THREAD_READY" "t_priority (thr s new) = int p"
proof -
  note top = clz32_highest [OF b, folded p]
  have "run_queue s p \<noteq> []" using core top by (auto simp: kcore_def rq_ok_def)
  then obtain new rest where q: "run_queue s p = new # rest" by (cases "run_queue s p") auto
  then have "new \<in> ready_at {} s p" using core top(1) unfolding kcore_def rq_ok_def by (metis list.set_intros(1))
  moreover have "run_queue s j = []" if "p < j" "j < 32" for j
    using core top(3) [OF that] that by (auto simp: kcore_def rq_ok_def)
  ultimately show ?thesis using that [OF top(1) q] by (auto simp: ready_at_def)
qed

definition dequeue_next :: "nat \<Rightarrow> tid \<Rightarrow> tid list \<Rightarrow> kernel \<Rightarrow> kernel" where
  "dequeue_next p new rest s =
     upd_thr new (\<lambda>t. t\<lparr>t_state := THREAD_RUNNING\<rparr>)
       (s\<lparr>run_queue := (run_queue s)(p := rest),
          run_queue_bitmap := (if rest = [] then run_queue_bitmap s AND NOT (push_bit p 1)
                               else run_queue_bitmap s)\<rparr>)"

definition switch_to :: "tid \<Rightarrow> kernel \<Rightarrow> kernel" where
  "switch_to new s =
     (let s4 = (if remaining_quantum (thr s new) \<le> 0
                then upd_thr new (\<lambda>t. t\<lparr>remaining_quantum := 5\<rparr>) s else s);
          s5 = upd_thr (current_thread s)
                 (\<lambda>t. t\<lparr>saved_critical_section_count := critical_section_count s4\<rparr>) s4
      in s5\<lparr>current_thread := new,
            critical_section_count := saved_critical_section_count (thr s5 new)\<rparr>)"

lemma thread_resched_unfold:
  assumes "run_queue_bitmap s \<noteq> 0" and "p = 31 - clz32 (run_queue_bitmap s)"
    and "run_queue s p = new # rest"
  shows "thread_resched s = Some (if new = current_thread s then dequeue_next p new rest s
     else switch_to new (dequeue_next p new rest s))"
proof -
  have eq: "(if rest = [] then s\<lparr>run_queue := rq, run_queue_bitmap := b AND NOT (push_bit p 1)\<rparr>
      else s\<lparr>run_queue := rq\<rparr>) = s\<lparr>run_queue := rq,
      run_queue_bitmap := (if rest = [] then b AND NOT (push_bit p 1) else run_queue_bitmap s)\<rparr>"
    for rq b by simp
  show ?thesis
    using assms
    by (simp add: thread_resched_def dequeue_next_def switch_to_def Let_def)
qed

lemma dequeue_next_sel [simp]:
  "thr (dequeue_next p new rest s) =
     (thr s)(new := (thr s new)\<lparr>t_state := THREAD_RUNNING\<rparr>)"
  "thread_list (dequeue_next p new rest s) = thread_list s"
  "current_thread (dequeue_next p new rest s) = current_thread s"
  "idle_thread (dequeue_next p new rest s) = idle_thread s"
  "critical_section_count (dequeue_next p new rest s) = critical_section_count s"
  "timer_queue (dequeue_next p new rest s) = timer_queue s"
  "tms (dequeue_next p new rest s) = tms s"
  "wqs (dequeue_next p new rest s) = wqs s"
  "run_queue (dequeue_next p new rest s) = (run_queue s)(p := rest)"
  "dpc_list (dequeue_next p new rest s) = dpc_list s"
  by (simp_all add: dequeue_next_def)

lemma dequeue_next_core:
  assumes core: "kcore {} s" and p: "p < 32" and q: "run_queue s p = new # rest"
  shows "kcore {} (dequeue_next p new rest s)"
proof -
  let ?d = "s\<lparr>run_queue := (run_queue s)(p := rest),
          run_queue_bitmap := (if rest = [] then run_queue_bitmap s AND NOT (push_bit p 1)
                               else run_queue_bitmap s)\<rparr>"
  have d: "kcore {new} ?d" by (rule kcore_dequeue [OF core p q refl])
  have "kcore (insert new {new}) (dequeue_next p new rest s)"
    unfolding dequeue_next_def
    by (rule kcore_detach [OF d]) (use core in \<open>simp_all add: kcore_def prio_ok_def\<close>)
  then have "kcore (insert new {}) (dequeue_next p new rest s)" by simp
  then show ?thesis by (rule kcore_release) simp_all
qed

lemma tstack_ok_state:
  assumes "tstack_ok s" and "t_state (thr s t) \<noteq> THREAD_SLEEPING"
    and "timer_queue s' = timer_queue s" "tms s' = tms s" "thread_list s' = thread_list s"
    and "\<And>u. u \<noteq> t \<Longrightarrow> t_state (thr s' u) = t_state (thr s u)"
    and "\<And>u. t_frames (thr s' u) = t_frames (thr s u)"
  shows "tstack_ok s'"
  unfolding tstack_ok_def
proof (intro allI impI)
  fix u assume "Tstack u \<in> set (timer_queue s')"
  with assms have "tstack_at s u" by (simp add: tstack_ok_def)
  with assms show "tstack_at s' u" by (cases "u = t") (auto simp: tstack_at_def)
qed

lemma dequeue_next_ok:
  assumes sw: "kswitch s" and p: "p < 32" and q: "run_queue s p = new # rest"
    and new: "new \<in> set (thread_list s)" "t_state (thr s new) = THREAD_READY"
  shows "ksound (dequeue_next p new rest s)"
    and "{t \<in> set (thread_list s). t_state (thr (dequeue_next p new rest s) t) = THREAD_RUNNING} = {new}"
proof -
  have sound: "kcore {} s" "frames_ok s" "timer_inv s" "tstack_ok s" "current_thread s \<in> set (thread_list s)"
    "dpc_ok s"
    using sw by (simp_all add: kswitch_def ksound_def)
  have "tstack_ok (dequeue_next p new rest s)"
    by (rule tstack_ok_state [OF sound(4), of new]) (simp_all add: new)
  moreover have "frames_ok (dequeue_next p new rest s)"
    using sound(2) new by (auto simp: frames_ok_def)
  moreover have "dpc_ok (dequeue_next p new rest s)"
    using sound(6) new by (auto simp: dpc_ok_def)
  ultimately show "ksound (dequeue_next p new rest s)"
    using sound dequeue_next_core [OF sound(1) p q] by (simp add: ksound_def timer_inv_def)
  show "{t \<in> set (thread_list s). t_state (thr (dequeue_next p new rest s) t) = THREAD_RUNNING} = {new}"
    using sw new by (auto simp: kswitch_def)
qed

lemma switch_to_ok:
  assumes "ksound s" and "new \<in> set (thread_list s)"
  shows "ksound (switch_to new s)"
  using assms unfolding ksound_def
  by (auto simp: switch_to_def Let_def kcore_upd_thr_same frames_ok_def tstack_ok_def tstack_at_def
      timer_inv_def dpc_ok_def)

lemma switch_to_sel [simp]:
  "thread_list (switch_to new s) = thread_list s"
  "current_thread (switch_to new s) = new"
  "idle_thread (switch_to new s) = idle_thread s"
  "t_frames (thr (switch_to new s) t) = t_frames (thr s t)"
  "t_state (thr (switch_to new s) t) = t_state (thr s t)"
  "saved_critical_section_count (thr (switch_to new s) t) =
     (if t = current_thread s then critical_section_count s
      else saved_critical_section_count (thr s t))"
  "new \<noteq> current_thread s \<Longrightarrow>
     critical_section_count (switch_to new s) = saved_critical_section_count (thr s new)"
  by (simp_all add: switch_to_def Let_def)

lemma resched_ok:
  assumes sw: "kswitch s"
  obtains s' where "thread_resched s = Some s'" and "ksound s'" and "running_ok s'"
    and "thread_list s' = thread_list s" "idle_thread s' = idle_thread s"
    and "\<And>t. t_frames (thr s' t) = t_frames (thr s t)"
    and "\<And>t. t \<noteq> current_thread s' \<Longrightarrow> t_state (thr s' t) = t_state (thr s t)"
    and "t_state (thr s (current_thread s')) = THREAD_READY"
    and "\<And>t. saved_critical_section_count (thr s' t) =
      (if t = current_thread s \<and> current_thread s' \<noteq> current_thread s
       then critical_section_count s else saved_critical_section_count (thr s t))"
    and "critical_section_count s' = (if current_thread s' = current_thread s
       then critical_section_count s else saved_critical_section_count (thr s (current_thread s')))"
proof -
  let ?p = "31 - clz32 (run_queue_bitmap s)"
  have core: "kcore {} s" using sw by (simp add: kswitch_def ksound_def)
  have nz: "run_queue_bitmap s \<noteq> 0"
    using sw bitmap_nonzero [OF core] by (auto simp: kswitch_def)
  obtain new rest where p: "?p < 32" and q: "run_queue s ?p = new # rest"
    and new: "new \<in> set (thread_list s)" "t_state (thr s new) = THREAD_READY"
    using thread_resched_eq [OF core nz refl] by metis
  let ?d = "dequeue_next ?p new rest s"
  note d = dequeue_next_ok [OF sw p q new]
  note eq = thread_resched_unfold [OF nz refl q]
  show thesis
  proof (cases "new = current_thread s")
    case True
    then show thesis
      using that [of ?d] eq d new by (simp add: running_ok_def)
  next
    case False
    have "ksound (switch_to new ?d)" by (rule switch_to_ok [OF d(1)]) (simp add: new)
    then show thesis
      using that [of "switch_to new ?d"] eq d(2) new False by (simp add: running_ok_def)
  qed
qed

lemma upd_thr_id: "f (thr s t) = thr s t \<Longrightarrow> upd_thr t f s = s"
  by (simp add: upd_thr_def)

lemma same_fields_result:
  "t_state (((thr s)(t := (thr s t)\<lparr>t_result := r\<rparr>)) u) = t_state (thr s u)"
  "t_frames (((thr s)(t := (thr s t)\<lparr>t_result := r\<rparr>)) u) = t_frames (thr s u)"
  "saved_critical_section_count (((thr s)(t := (thr s t)\<lparr>t_result := r\<rparr>)) u) =
     saved_critical_section_count (thr s u)"
  by simp_all

lemma set_result_inv:
  "ksound (upd_thr t (\<lambda>x. x\<lparr>t_result := r\<rparr>) s) = ksound s"
  "running_ok (upd_thr t (\<lambda>x. x\<lparr>t_result := r\<rparr>) s) = running_ok s"
  "kinv (upd_thr t (\<lambda>x. x\<lparr>t_result := r\<rparr>) s) = kinv s"
  by (simp_all add: kinv_def ksound_def running_ok_def kcore_upd_thr_same frames_ok_def
      tstack_ok_def tstack_at_def timer_inv_def dpc_ok_def same_fields_result del: fun_upd_apply)

lemma switch_and_resume:
  assumes sw: "kswitch (set_frames ks s)"
  shows "\<exists>s'. thread_resched (set_frames ks s) \<bind> resume_current = Some s' \<and> kinv s' \<and>
    thread_list s' = thread_list s \<and> idle_thread s' = idle_thread s \<and>
    t_state (thr s (current_thread s')) = THREAD_READY \<and>
    (\<forall>t. t \<noteq> current_thread s' \<longrightarrow> t_state (thr s' t) = t_state (thr s t)) \<and>
    (\<forall>t. user_cs s' t = (if t = current_thread s then critical_section_count s - exits_of ks
       else saved_critical_section_count (thr s t) - exits_of (t_frames (thr s t))))"
proof -
  let ?z = "set_frames ks s"
  obtain s1 where r: "thread_resched ?z = Some s1" and sound: "ksound s1" and run: "running_ok s1"
    and tl: "thread_list s1 = thread_list ?z" "idle_thread s1 = idle_thread ?z"
    and fr: "\<And>t. t_frames (thr s1 t) = t_frames (thr ?z t)"
    and st: "\<And>t. t \<noteq> current_thread s1 \<Longrightarrow> t_state (thr s1 t) = t_state (thr ?z t)"
    and rdy: "t_state (thr ?z (current_thread s1)) = THREAD_READY"
    and sv: "\<And>t. saved_critical_section_count (thr s1 t) =
      (if t = current_thread ?z \<and> current_thread s1 \<noteq> current_thread ?z
       then critical_section_count ?z else saved_critical_section_count (thr ?z t))"
    and cs: "critical_section_count s1 = (if current_thread s1 = current_thread ?z
       then critical_section_count ?z else saved_critical_section_count (thr ?z (current_thread s1)))"
    by (rule resched_ok [OF sw]) blast
  let ?new = "current_thread s1" and ?fs = "t_frames (cur s1)"
  let ?e = "set_frames [] s1"
  have new: "?new \<in> set (thread_list s1)" "t_state (cur s1) = THREAD_RUNNING"
    using run by (auto simp: running_ok_def)
  have noexit: "F_thread_exit \<notin> set ?fs"
    using sound new by (simp add: ksound_def frames_ok_def)
  have "set_frames ?fs ?e = s1" by (simp add: set_frames_def upd_thr_def)
  then obtain r' s2 where u: "unwind ?fs 0 ?e = Some (r', s2)" and s2: "ksound (set_frames [] s2)"
    "thr s2 = thr ?e" "thread_list s2 = thread_list ?e" "current_thread s2 = current_thread ?e"
    "idle_thread s2 = idle_thread ?e" "critical_section_count s2 = critical_section_count ?e - exits_of ?fs"
    using unwind_ok [OF noexit, of ?e 0] sound by auto
  let ?s3 = "upd_thr (current_thread s2) (\<lambda>t. t\<lparr>t_result := r'\<rparr>) s2"
  have res: "resume_current s1 = Some ?s3"
    using u by (simp add: resume_current_def set_frames_def)
  have "set_frames [] s2 = s2" using s2 by (simp add: set_frames_def upd_thr_id)
  with s2(1) have "ksound s2" by simp
  moreover have "running_ok s2"
  proof -
    have "t_state (thr ?e u) = t_state (thr s1 u)" for u by (simp add: set_frames_def)
    then show ?thesis using run s2(2-4) by (simp add: running_ok_def)
  qed
  moreover have "t_frames (cur s2) = []" using s2 by (simp add: set_frames_def)
  ultimately have inv: "kinv ?s3" by (simp add: set_result_inv) (simp add: kinv_def)
  have ucs: "user_cs ?s3 t = (if t = current_thread s then critical_section_count s - exits_of ks
       else saved_critical_section_count (thr s t) - exits_of (t_frames (thr s t)))" for t
    using s2 fr sv cs by (auto simp: user_cs_def set_frames_def)
  have st3: "t_state (thr ?s3 t) = t_state (thr s1 t)" "current_thread ?s3 = current_thread s1" for t
    using s2 by (simp_all add: set_frames_def)
  show ?thesis
    using r res inv ucs s2 tl st rdy st3 by (intro exI [of _ ?s3]) simp
qed

subsection \<open>The contract of a kernel operation\<close>

text \<open>
  What an operation owes its caller: the calling thread, the other threads' saved state and the
  set of threads are as before; if it returns, the invariant holds and the critical section
  counter is \<open>c\<close>; if it switches, the scheduler may run and the functions left unfinished will
  bring the counter back to \<open>c\<close>.
\<close>

definition same_threads :: "kernel \<Rightarrow> kernel \<Rightarrow> bool" where
  "same_threads s s' \<longleftrightarrow> current_thread s' = current_thread s \<and> thread_list s' = thread_list s \<and>
     idle_thread s' = idle_thread s \<and>
     (\<forall>t. t \<noteq> current_thread s \<longrightarrow> t_state (thr s t) = THREAD_READY \<longrightarrow> t_state (thr s' t) = THREAD_READY) \<and>
     (\<forall>t. t \<noteq> current_thread s \<longrightarrow> t_frames (thr s' t) = t_frames (thr s t) \<and>
        saved_critical_section_count (thr s' t) = saved_critical_section_count (thr s t))"

fun kop_ok :: "int \<Rightarrow> kernel \<Rightarrow> kout \<Rightarrow> bool" where
  "kop_ok c s (Ret r s') \<longleftrightarrow> kinv s' \<and> same_threads s s' \<and> critical_section_count s' = c"
| "kop_ok c s (Switch ks s') \<longleftrightarrow> kswitch (set_frames ks s') \<and> same_threads s s' \<and>
     t_state (cur s') \<noteq> THREAD_DEATH \<and>
     critical_section_count s' = c + exits_of ks"

text \<open>A thread is live when it runs or waits on a run queue.\<close>

definition live :: "kernel \<Rightarrow> tid \<Rightarrow> bool" where
  "live s t \<longleftrightarrow> t_state (thr s t) = THREAD_READY \<or> t_state (thr s t) = THREAD_RUNNING"

fun kout_state :: "kout \<Rightarrow> kernel" where
  "kout_state (Ret r s) = s"
| "kout_state (Switch ks s) = s"

text \<open>
  A call whose operation meets the contract: some thread goes on in its own code, the invariant
  holds, and the caller's critical section depth is what the contract says.
\<close>

lemma kop_ok_call:
  assumes x: "op s = Some x" and ok: "kop_ok c s0 x"
  obtains s' where "kcall op s = Some s'" and "kinv s'"
    and "thread_list s' = thread_list s0" "idle_thread s' = idle_thread s0"
    and "\<And>t. user_cs s' t = (if t = current_thread s0 then c
      else saved_critical_section_count (thr s0 t) - exits_of (t_frames (thr s0 t)))"
    and "\<And>t. live (kout_state x) t \<Longrightarrow> live s' t"
proof (cases x)
  case (Ret r s')
  let ?s = "upd_thr (current_thread s') (\<lambda>t. t\<lparr>t_result := r\<rparr>) s'"
  from ok Ret have "kinv ?s" by (simp add: set_result_inv)
  moreover have "user_cs ?s t = (if t = current_thread s0 then c
      else saved_critical_section_count (thr s0 t) - exits_of (t_frames (thr s0 t)))" for t
    using ok Ret by (auto simp: user_cs_def same_threads_def)
  ultimately show thesis
    using x Ret ok by (intro that [of ?s]) (auto simp: kcall_def same_threads_def live_def)
next
  case (Switch ks s')
  from ok Switch have sw: "kswitch (set_frames ks s')" by simp
  then obtain s'' where s'': "thread_resched (set_frames ks s') \<bind> resume_current = Some s''"
    "kinv s''" "thread_list s'' = thread_list s'" "idle_thread s'' = idle_thread s'"
    and st: "\<And>t. t \<noteq> current_thread s'' \<Longrightarrow> t_state (thr s'' t) = t_state (thr s' t)"
    and cs: "\<And>t. user_cs s'' t = (if t = current_thread s' then critical_section_count s' - exits_of ks
       else saved_critical_section_count (thr s' t) - exits_of (t_frames (thr s' t)))"
    using switch_and_resume by blast
  have "user_cs s'' t = (if t = current_thread s0 then c
      else saved_critical_section_count (thr s0 t) - exits_of (t_frames (thr s0 t)))" for t
    using ok Switch by (simp add: cs same_threads_def)
  moreover have "kcall op s = Some s''"
    using x Switch s''(1) by (simp add: kcall_def set_frames_def)
  moreover have "live s'' t" if "live s' t" for t
    using that st [of t] s''(2) by (cases "t = current_thread s''") (auto simp: live_def kinv_def running_ok_def)
  ultimately show thesis using s'' ok Switch by (intro that [of s'']) (auto simp: same_threads_def)
qed

lemma kop_ok_same: "kop_ok c s x \<Longrightarrow> same_threads s (kout_state x)"
  by (cases x) simp_all

lemma live_other:
  assumes "kinv s" and "same_threads s s'" and "t \<in> set (thread_list s)" and "t \<noteq> current_thread s" and "live s t"
  shows "live s' t"
  using assms by (auto simp: live_def same_threads_def kinv_def running_ok_def)

locale kernel_op =
  fixes op :: kop and pre :: "kernel \<Rightarrow> bool"
  assumes contract: "kinv s \<Longrightarrow> pre s \<Longrightarrow> \<exists>x. op s = Some x \<and> kop_ok (critical_section_count s) s x"
begin

lemma call_threads:
  assumes "kinv s" and "pre s"
  obtains x s' where "op s = Some x" and "kcall op s = Some s'" and "kinv s'"
    and "thread_list s' = thread_list s" "idle_thread s' = idle_thread s"
    and "\<And>t. user_cs s' t = user_cs s t"
    and "\<And>t. live (kout_state x) t \<Longrightarrow> live s' t" and "same_threads s (kout_state x)"
proof -
  obtain x where x: "op s = Some x" and ok: "kop_ok (critical_section_count s) s x"
    using contract [OF assms] by blast
  obtain s' where s': "kcall op s = Some s'" "kinv s'" "thread_list s' = thread_list s"
    "idle_thread s' = idle_thread s"
    "\<And>t. user_cs s' t = (if t = current_thread s then critical_section_count s
      else saved_critical_section_count (thr s t) - exits_of (t_frames (thr s t)))"
    "\<And>t. live (kout_state x) t \<Longrightarrow> live s' t"
    by (rule kop_ok_call [of op s, OF x ok]) blast
  show thesis
    by (rule that [OF x s'(1-4)]) (simp_all add: s'(5,6) user_cs_def [of s] kop_ok_same [OF ok])
qed

lemma call_ok:
  assumes "kinv s" and "pre s"
  shows "\<exists>s'. kcall op s = Some s' \<and> kinv s' \<and> thread_list s' = thread_list s \<and>
    idle_thread s' = idle_thread s \<and> (\<forall>t. user_cs s' t = user_cs s t) \<and>
    (\<forall>t \<in> set (thread_list s). t \<noteq> current_thread s \<longrightarrow> live s t \<longrightarrow> live s' t)"
proof -
  obtain x s' where s': "kcall op s = Some s'" "kinv s'" "thread_list s' = thread_list s"
    "idle_thread s' = idle_thread s" "\<And>t. user_cs s' t = user_cs s t"
    "\<And>t. live (kout_state x) t \<Longrightarrow> live s' t" "same_threads s (kout_state x)"
    using call_threads [OF assms] by metis
  then show ?thesis using live_other [OF assms(1) s'(7)] by blast
qed

end

text \<open>An operation that never takes its caller off the run queues.\<close>

locale kernel_op_live = kernel_op +
  assumes stays: "kinv s \<Longrightarrow> pre s \<Longrightarrow> op s = Some x \<Longrightarrow> live (kout_state x) (current_thread s)"
begin

lemma call_live:
  assumes "kinv s" and "pre s"
  shows "\<exists>s'. kcall op s = Some s' \<and> kinv s' \<and> thread_list s' = thread_list s \<and>
    idle_thread s' = idle_thread s \<and> (\<forall>t. user_cs s' t = user_cs s t) \<and>
    (\<forall>t \<in> set (thread_list s). live s t \<longrightarrow> live s' t)"
proof -
  obtain x s' where s': "op s = Some x" "kcall op s = Some s'" "\<And>t. live (kout_state x) t \<Longrightarrow> live s' t"
    using call_threads [OF assms] by metis
  then show ?thesis
    using call_ok [OF assms] stays [OF assms s'(1)] by auto
qed

end

end
