(* ===== verification/LK_Thread_Ops.thy ===== *)
theory LK_Thread_Ops
  imports LK_Kcall
begin

text \<open>
  The operations of \<^verbatim>\<open>kernel/thread.c\<close> satisfy the contract of the locale \<open>kernel_op\<close>.
\<close>

subsection \<open>Shared steps\<close>

lemma kinv_frame [simp]:
  "kinv (enter_critical_section s) = kinv s"
  "kinv (exit_critical_section s) = kinv s"
  "kinv (upd_mtx m h s) = kinv s"
  "kinv (upd_evt e k s) = kinv s"
  by (simp_all add: kinv_def ksound_def running_ok_def frames_ok_def tstack_ok_def tstack_at_def
      timer_inv_def dpc_ok_def)

lemma kinv_current:
  assumes "kinv s"
  shows "current_thread s \<in> set (thread_list s)" "t_state (cur s) = THREAD_RUNNING"
    "t_frames (cur s) = []" "kcore {} s" "ksound s" "timer_inv s"
  using assms by (auto simp: kinv_def ksound_def running_ok_def)

lemma kinv_not_running:
  assumes "kinv s" and "t \<in> set (thread_list s)" and "t \<noteq> current_thread s"
  shows "t_state (thr s t) \<noteq> THREAD_RUNNING"
  using assms by (auto simp: kinv_def running_ok_def)

lemma kinv_no_stack_timer:
  assumes "kinv s"
  shows "Tstack (current_thread s) \<notin> set (timer_queue s)"
proof
  assume "Tstack (current_thread s) \<in> set (timer_queue s)"
  with kinv_current(5) [OF assms] have "tstack_at s (current_thread s)"
    by (simp add: ksound_def tstack_ok_def)
  with kinv_current [OF assms] show False by (simp add: tstack_at_def)
qed

text \<open>
  Changing the state of one thread \<open>c\<close> and its stack timer, and waking others whose stack
  timers are not those of a sleep, keeps everything that does not concern the queues.
\<close>

lemma ksound_step:
  assumes sound: "ksound s" and core: "kcore {} s'"
    and same: "thread_list s' = thread_list s" "current_thread s' = current_thread s"
    and dpc: "dpc_ok s'"
    and timers: "timer_inv s'"
      "\<And>t. t \<noteq> c \<Longrightarrow> Tstack t \<in> set (timer_queue s') \<Longrightarrow> Tstack t \<in> set (timer_queue s)"
      "\<And>t. t \<noteq> c \<Longrightarrow> tms s' (Tstack t) = tms s (Tstack t)"
    and fr: "\<And>t. t \<noteq> c \<Longrightarrow> t_frames (thr s' t) = t_frames (thr s t)"
    and st: "\<And>t. t \<noteq> c \<Longrightarrow> t_state (thr s' t) = t_state (thr s t) \<or>
      t_state (thr s' t) = THREAD_READY \<and> t_state (thr s t) \<noteq> THREAD_DEATH \<and>
      (t_state (thr s t) = THREAD_SLEEPING \<longrightarrow> Tstack t \<notin> set (timer_queue s))"
    and c: "Tstack c \<in> set (timer_queue s') \<Longrightarrow> tstack_at s' c"
      "if t_state (thr s' c) = THREAD_DEATH then t_frames (thr s' c) = [F_thread_exit]
       else F_thread_exit \<notin> set (t_frames (thr s' c))"
  shows "ksound s'"
proof -
  have "tstack_at s' t" if t: "Tstack t \<in> set (timer_queue s')" for t
  proof (cases "t = c")
    case False
    then have q: "Tstack t \<in> set (timer_queue s)" using timers t by blast
    then have "tstack_at s t" using sound by (simp add: ksound_def tstack_ok_def)
    then show ?thesis using False q fr [OF False] st [OF False] timers(3) [OF False] same
      by (auto simp: tstack_at_def)
  qed (use c t in simp)
  moreover have "if t_state (thr s' t) = THREAD_DEATH then t_frames (thr s' t) = [F_thread_exit]
      else F_thread_exit \<notin> set (t_frames (thr s' t))" if t: "t \<in> set (thread_list s')" for t
  proof (cases "t = c")
    case False
    then have "t_state (thr s' t) = THREAD_DEATH \<longleftrightarrow> t_state (thr s t) = THREAD_DEATH"
      using st [OF False] by auto
    then show ?thesis using sound same fr [OF False] t by (auto simp: ksound_def frames_ok_def)
  qed (use c in simp)
  ultimately show ?thesis
    using sound core same timers(1) dpc by (simp add: ksound_def tstack_ok_def frames_ok_def)
qed

lemma dpc_ok_upd_thr:
  assumes "dpc_ok s" and "t_state (thr s t) = THREAD_DEATH \<Longrightarrow> t_state (f (thr s t)) = THREAD_DEATH"
  shows "dpc_ok (upd_thr t f s)"
  using assms by (auto simp: dpc_ok_def)

lemma dpc_ok_frame [simp]:
  "dpc_ok (upd_wq q g s) = dpc_ok s"
  "dpc_ok (upd_mtx m h s) = dpc_ok s"
  "dpc_ok (upd_evt e k s) = dpc_ok s"
  "dpc_ok (enter_critical_section s) = dpc_ok s"
  "dpc_ok (exit_critical_section s) = dpc_ok s"
  by (simp_all add: dpc_ok_def)

text \<open>
  In the middle of an operation that only wakes threads: \<open>s\<close> differs from the state \<open>s0\<close> at entry in
  the queues, in the state of the current thread, and in threads made ready.
\<close>

definition kmid :: "kernel \<Rightarrow> kernel \<Rightarrow> bool" where
  "kmid s0 s \<longleftrightarrow> kinv s0 \<and> same_threads s0 s \<and> timer_queue s = timer_queue s0 \<and> tms s = tms s0 \<and>
     t_frames (cur s) = [] \<and>
     dpc_ok s \<and> clock s = clock s0 \<and>
     (\<forall>t. t \<noteq> current_thread s0 \<longrightarrow> t_state (thr s t) = t_state (thr s0 t) \<or>
        t_state (thr s t) = THREAD_READY \<and> t_state (thr s0 t) \<noteq> THREAD_DEATH \<and>
        (t_state (thr s0 t) = THREAD_SLEEPING \<longrightarrow> Tstack t \<notin> set (timer_queue s0)))"

lemma kmid_refl: "kinv s \<Longrightarrow> kmid s s"
  by (auto simp: kmid_def same_threads_def kinv_def ksound_def)

lemma kmid_same: "kmid s0 s \<Longrightarrow> same_threads s0 s"
  by (simp add: kmid_def)

lemma kmid_sound:
  assumes mid: "kmid s0 s" and core: "kcore {} s"
    and ks: "if t_state (cur s) = THREAD_DEATH then ks = [F_thread_exit] else F_thread_exit \<notin> set ks"
  shows "ksound (set_frames ks s)"
    and "\<And>t. t \<in> set (thread_list s) \<Longrightarrow> t \<noteq> current_thread s \<Longrightarrow> t_state (thr s t) \<noteq> THREAD_RUNNING"
    and "current_thread s \<in> set (thread_list s)"
proof -
  have inv: "kinv s0" and same: "thread_list s = thread_list s0" "current_thread s = current_thread s0"
    using mid by (auto simp: kmid_def same_threads_def)
  show "ksound (set_frames ks s)"
    by (rule ksound_step [OF kinv_current(5) [OF inv], where c = "current_thread s0"])
      (use mid core ks kinv_no_stack_timer [OF inv] kinv_current(6) [OF inv]
        in \<open>auto simp: kmid_def same_threads_def timer_inv_def\<close>)
  show "t_state (thr s t) \<noteq> THREAD_RUNNING" if "t \<in> set (thread_list s)" "t \<noteq> current_thread s" for t
    using kinv_not_running [OF inv, of t] mid that by (auto simp: kmid_def same_threads_def)
  show "current_thread s \<in> set (thread_list s)" using kinv_current(1) [OF inv] same by simp
qed

lemma set_frames_id: "t_frames (cur s) = ks \<Longrightarrow> set_frames ks s = s"
  by (simp add: set_frames_def upd_thr_id)

lemma kmid_return:
  assumes mid: "kmid s0 s" and core: "kcore {} s" and run: "t_state (cur s) = THREAD_RUNNING"
  shows "kinv s"
proof -
  have "t_frames (cur s) = []" using mid by (simp add: kmid_def)
  then show ?thesis
    using kmid_sound [OF mid core, of "[]"] run by (auto simp: kinv_def running_ok_def set_frames_id)
qed

lemma kmid_switch:
  assumes mid: "kmid s0 s" and core: "kcore {} s" and ready: "t_state (cur s) = THREAD_READY"
    and ks: "F_thread_exit \<notin> set ks"
  shows "kswitch (set_frames ks s)"
proof -
  have "t_state (thr s t) \<noteq> THREAD_RUNNING" if "t \<in> set (thread_list s)" for t
    using kmid_sound(2) [OF mid core _ that, of ks] ready ks by (cases "t = current_thread s") simp_all
  then show ?thesis
    using kmid_sound [OF mid core, of ks] ready ks by (auto simp: kswitch_def)
qed

text \<open>The insertions touch nothing but the run queues and their bitmap.\<close>

lemma insert_in_run_queue_Some:
  assumes "insert_in_run_queue_head t s = Some s' \<or> insert_in_run_queue_tail t s = Some s'"
  shows "thr s' = thr s" "thread_list s' = thread_list s" "current_thread s' = current_thread s"
    "idle_thread s' = idle_thread s" "timer_queue s' = timer_queue s" "tms s' = tms s"
    "critical_section_count s' = critical_section_count s" "wqs s' = wqs s" "clock s' = clock s"
    "mtx s' = mtx s" "evt s' = evt s" "dpc_list s' = dpc_list s" "ints_enabled s' = ints_enabled s"
    "kmid s0 s' = kmid s0 s"
  using assms
  by (auto simp: insert_in_run_queue_head_def insert_in_run_queue_tail_def Let_def kmid_def
      same_threads_def dpc_ok_def split: if_splits)

lemmas insert_head_Some = insert_in_run_queue_Some [OF disjI1]
lemmas insert_tail_Some = insert_in_run_queue_Some [OF disjI2]

text \<open>The current thread, made ready and put on its run queue while the threads of \<open>X\<close> are detached.\<close>

lemma enqueue_current:
  assumes mid: "kmid s0 s" and core: "kcore X s" and run: "t_state (cur s) = THREAD_RUNNING"
    and X: "current_thread s \<notin> X" and mem: "current_thread s \<in> set (thread_list s)"
    and f: "t_state (f (cur s)) = THREAD_READY" "t_priority (f (cur s)) = t_priority (cur s)"
      "t_frames (f (cur s)) = t_frames (cur s)"
    and which: "ins = insert_in_run_queue_head \<or> ins = insert_in_run_queue_tail"
  obtains s' where "ins (current_thread s) (upd_thr (current_thread s) f s) = Some s'"
    and "kcore X s'" and "kmid s0 s'" and "thr s' = (thr s)(current_thread s := f (cur s))"
      "thread_list s' = thread_list s" "current_thread s' = current_thread s"
      "critical_section_count s' = critical_section_count s" "wqs s' = wqs s"
      "mtx s' = mtx s" "evt s' = evt s"
proof -
  let ?c = "current_thread s" and ?u = "upd_thr (current_thread s) f s"
  have det: "kcore (insert ?c X) ?u"
    using kcore_detach [OF core, of ?c f] run f core by (simp add: kcore_def prio_ok_def)
  have rdy: "t_state (thr ?u ?c) = THREAD_READY" and mem': "?c \<in> set (thread_list ?u)"
    using mem f by simp_all
  have mid': "kmid s0 ?u" using mid f run by (auto simp: kmid_def same_threads_def intro: dpc_ok_upd_thr)
  obtain s' where ins: "ins ?c ?u = Some s'" and core': "kcore X s'"
    using which kcore_insert_head [OF det mem' X rdy] kcore_insert_tail [OF det mem' X rdy]
    by metis
  have ins': "insert_in_run_queue_head ?c ?u = Some s' \<or> insert_in_run_queue_tail ?c ?u = Some s'"
    using ins which by auto
  show thesis
    using ins core' mid' insert_in_run_queue_Some [OF ins'] by (intro that [of s']) simp_all
qed

text \<open>A thread made ready and put on its run queue.\<close>

lemma enqueue_woken:
  assumes mid: "kmid s0 s" and core: "kcore {t} s" and t: "t \<in> set (thread_list s)"
    and y: "t_state (thr s t) = THREAD_READY"
  obtains s' where "insert_in_run_queue_head t s = Some s'" and "kcore {} s'" and "kmid s0 s'"
    and "thr s' = thr s" "thread_list s' = thread_list s" "current_thread s' = current_thread s"
      "critical_section_count s' = critical_section_count s" "wqs s' = wqs s"
      "mtx s' = mtx s" "evt s' = evt s"
proof -
  obtain s' where ins: "insert_in_run_queue_head t s = Some s'" and core': "kcore {} s'"
    by (rule kcore_insert_head [OF core t _ y]) auto
  show thesis
    using core' mid insert_head_Some [OF ins] by (intro that [OF ins]) simp_all
qed

subsection \<open>A call followed by the rest of its caller\<close>

lemma kthen_ok:
  assumes ok: "kop_ok c s x" and f: "f \<noteq> F_thread_exit"
  shows "\<exists>y. kthen (Some x) f = Some y \<and> kop_ok (c - exits f) s y"
proof (cases x)
  case (Ret r s')
  then have inv: "kinv s'" and th: "same_threads s s'" and cs: "critical_section_count s' = c"
    using ok by auto
  obtain r1 s1 where run: "run_frame f r s' = Some (r1, s1)"
    using run_frame_Some [OF f] by blast
  note c' = kinv_current [OF inv]
  have "ksound (set_frames [f] s')"
    by (rule kmid_sound [OF kmid_refl [OF inv] c'(4)]) (use f c' in simp_all)
  then have "ksound (set_frames [] s1)" by (rule ksound_pop [OF run])
  moreover have "set_frames [] s1 = s1"
    using c'(3) run_frame_sched [OF run] by (simp add: set_frames_id)
  ultimately have "kinv s1"
    using inv run_frame_sched [OF run] by (simp add: kinv_def running_ok_def)
  then show ?thesis
    using Ret run th cs run_frame_sched [OF run] run_frame_exits [OF run]
    by (simp add: kthen_def same_threads_def)
next
  case (Switch ks s')
  then have sw: "kswitch (set_frames ks s')" and th: "same_threads s s'"
    and cs: "critical_section_count s' = c + exits_of ks" and alive: "t_state (cur s') \<noteq> THREAD_DEATH"
    using ok by auto
  have sound: "tstack_ok (set_frames ks s')" "frames_ok (set_frames ks s')"
    using sw by (simp_all add: kswitch_def ksound_def)
  have "tstack_ok (set_frames (ks @ [f]) s')"
    using sound(1) by (auto simp: tstack_ok_def tstack_at_def)
  moreover have "frames_ok (set_frames (ks @ [f]) s')"
    using sound(2) f alive by (auto simp: frames_ok_def split: if_splits)
  ultimately have "kswitch (set_frames (ks @ [f]) s')"
    using sw by (simp add: kswitch_def ksound_def)
  then show ?thesis using Switch th cs alive by (simp add: kthen_def)
qed

lemma same_threads_trans:
  "same_threads s s' \<Longrightarrow> same_threads s' s'' \<Longrightarrow> same_threads s s''"
  by (auto simp: same_threads_def)

lemma kop_ok_trans:
  "same_threads s s' \<Longrightarrow> kop_ok c s' x \<Longrightarrow> kop_ok c s x"
  by (cases x) (auto intro: same_threads_trans)

subsection \<open>Yield, preemption, resume\<close>

lemma thread_yield_ok:
  assumes "kinv s"
  shows "\<exists>x. thread_yield s = Some x \<and> kop_ok (critical_section_count s) s x"
proof -
  let ?e = "enter_critical_section s"
  let ?f = "\<lambda>t. t\<lparr>t_state := THREAD_READY, remaining_quantum := 0\<rparr>"
  have inv: "kinv ?e" using assms by simp
  obtain s' where s': "insert_in_run_queue_tail (current_thread ?e) (upd_thr (current_thread ?e) ?f ?e) = Some s'"
    "kcore {} s'" "kmid ?e s'" "thr s' = (thr ?e)(current_thread ?e := ?f (cur ?e))"
    "current_thread s' = current_thread ?e" "critical_section_count s' = critical_section_count ?e"
    by (rule enqueue_current [OF kmid_refl [OF inv] kinv_current(4) [OF inv], of ?f insert_in_run_queue_tail])
      (use kinv_current [OF inv] in simp_all)
  have "kswitch (set_frames [F_thread_yield] s')"
    by (rule kmid_switch [OF s'(3,2)]) (use s' in simp_all)
  then show ?thesis
    using s' kmid_same [OF s'(3)] by (simp add: thread_yield_def Let_def same_threads_def exits_def)
qed

lemma thread_preempt_ok:
  assumes "kinv s"
  shows "\<exists>x. thread_preempt s = Some x \<and> kop_ok (critical_section_count s) s x"
proof -
  let ?e = "enter_critical_section s"
  let ?f = "\<lambda>t. t\<lparr>t_state := THREAD_READY\<rparr>"
  let ?ins = "if remaining_quantum (cur s) > 0 then insert_in_run_queue_head else insert_in_run_queue_tail"
  have inv: "kinv ?e" using assms by simp
  obtain s' where s': "?ins (current_thread ?e) (upd_thr (current_thread ?e) ?f ?e) = Some s'"
    "kcore {} s'" "kmid ?e s'" "thr s' = (thr ?e)(current_thread ?e := ?f (cur ?e))"
    "current_thread s' = current_thread ?e" "critical_section_count s' = critical_section_count ?e"
    by (rule enqueue_current [OF kmid_refl [OF inv] kinv_current(4) [OF inv], of ?f ?ins])
      (use kinv_current [OF inv] in simp_all)
  have "kswitch (set_frames [F_thread_preempt] s')"
    by (rule kmid_switch [OF s'(3,2)]) (use s' in simp_all)
  then show ?thesis
    using s' kmid_same [OF s'(3)]
    by (simp add: thread_preempt_def Let_def same_threads_def exits_def split: if_splits)
qed

text \<open>
  \<open>thread_resume\<close> keeps the invariant for a suspended thread, and reports one that is ready or
  running. Its test lets blocked, sleeping and dead threads through.
\<close>

definition resumable :: "tid \<Rightarrow> kernel \<Rightarrow> bool" where
  "resumable t s \<longleftrightarrow> t \<in> set (thread_list s) \<and>
     t_state (thr s t) \<in> {THREAD_SUSPENDED, THREAD_READY, THREAD_RUNNING}"

lemma thread_resume_ok:
  assumes inv: "kinv s" and pre: "resumable t s"
  shows "\<exists>x. thread_resume t s = Some x \<and> kop_ok (critical_section_count s) s x"
proof (cases "t_state (thr s t) = THREAD_SUSPENDED")
  case False
  then show ?thesis
    using inv pre by (auto simp: thread_resume_def resumable_def same_threads_def)
next
  case True
  let ?f = "\<lambda>x. x\<lparr>t_state := THREAD_READY\<rparr>"
  let ?u = "upd_thr t ?f (enter_critical_section s)"
  have t: "t \<in> set (thread_list s)" "t \<noteq> current_thread s"
    using pre True kinv_current(2) [OF inv] by (auto simp: resumable_def)
  have core: "kcore {} (enter_critical_section s)" using kinv_current(4) [OF inv] by simp
  have det: "kcore {t} ?u"
    using kcore_detach [OF core, of t ?f] kinv_current(4) [OF inv] True
    by (simp add: kcore_def [of "{}" s] prio_ok_def)
  have mid: "kmid s ?u"
    using kmid_refl [OF inv] t True by (auto simp: kmid_def same_threads_def intro!: dpc_ok_upd_thr)
  obtain s' where s': "insert_in_run_queue_head t ?u = Some s'" "kcore {} s'" "kmid s s'"
    "thr s' = thr ?u" "current_thread s' = current_thread ?u"
    "critical_section_count s' = critical_section_count ?u"
    by (rule enqueue_woken [OF mid det]) (use t in simp_all)
  have inv': "kinv s'"
    by (rule kmid_return [OF s'(3,2)]) (use s' t kinv_current(2) [OF inv] in simp)
  obtain x where x: "thread_yield s' = Some x" and ok: "kop_ok (critical_section_count s') s' x"
    using thread_yield_ok [OF inv'] by blast
  obtain y where "kthen (Some x) F_thread_resume = Some y" "kop_ok (critical_section_count s' - exits F_thread_resume) s' y"
    using kthen_ok [OF ok, of F_thread_resume] by blast
  then show ?thesis
    using True s' x kop_ok_trans [OF kmid_same [OF s'(3)]] by (simp add: thread_resume_def Let_def exits_def)
qed

subsection \<open>Sleeping and blocking\<close>

text \<open>
  \<open>thread_resched\<close> dereferences a null thread when every run queue is empty: the current thread
  may leave the processor without being put on a run queue only when another thread is ready.
\<close>

definition some_ready :: "kernel \<Rightarrow> bool" where
  "some_ready s \<longleftrightarrow> (\<exists>t \<in> set (thread_list s). t_state (thr s t) = THREAD_READY)"

lemma stack_timer_set:
  assumes inv: "timer_inv s" and free: "Tstack t \<notin> set (timer_queue s)"
  obtains s' where "timer_set_oneshot (Tstack t) delay cb a s = Some s'" and "timer_inv s'"
    and "set (timer_queue s') = insert (Tstack t) (set (timer_queue s))"
      "\<And>j. j \<noteq> Tstack t \<Longrightarrow> tms s' j = tms s j" "tm_callback (tms s' (Tstack t)) = cb" "tm_arg (tms s' (Tstack t)) = a"
proof -
  have "\<not> tm_linked (tms s (Tstack t))" using assms by (simp add: timer_inv_def)
  then obtain s' where s': "timer_set_oneshot (Tstack t) delay cb a s = Some s'"
    and tms: "\<And>j. j \<noteq> Tstack t \<Longrightarrow> tms s' j = tms s j" "tm_callback (tms s' (Tstack t)) = cb" "tm_arg (tms s' (Tstack t)) = a"
    by (simp add: timer_set_oneshot_def timer_set_def Let_def)
  note set = s' [unfolded timer_set_oneshot_def]
  have "timer_sane (Tstack t) ((tms s (Tstack t))\<lparr>tm_periodic_time := 0, tm_callback := cb\<rparr>)"
    by (simp add: timer_sane_def)
  then show thesis
    using timer_set_inv(1,2) [OF inv set] tms s' by (intro that [of s']) auto
qed

text \<open>The current thread leaves the processor, with or without a timer on its stack.\<close>

lemma suspend_switch:
  assumes inv: "kinv s" and core: "kcore {} s'" and ready: "some_ready s"
    and same: "thread_list s' = thread_list s" "current_thread s' = current_thread s"
    and thr: "\<And>t. t \<noteq> current_thread s \<Longrightarrow> thr s' t = thr s t"
    and dpc: "dpc_list s' = dpc_list s"
    and c: "t_state (cur s') \<noteq> THREAD_RUNNING" "t_state (cur s') \<noteq> THREAD_DEATH"
    and timers: "timer_inv s'" "set (timer_queue s') \<subseteq> insert (Tstack (current_thread s)) (set (timer_queue s))"
      "\<And>j. j \<noteq> Tstack (current_thread s) \<Longrightarrow> tms s' j = tms s j"
    and ks: "F_thread_exit \<notin> set ks"
    and owner: "Tstack (current_thread s) \<in> set (timer_queue s') \<Longrightarrow> tstack_at (set_frames ks s') (current_thread s)"
  shows "kswitch (set_frames ks s')"
proof -
  have "t_state (thr s' t) = THREAD_DEATH" if "t_state (thr s t) = THREAD_DEATH" for t
    using that thr [of t] kinv_current(2) [OF inv] by (cases "t = current_thread s") auto
  then have dpc_ok: "dpc_ok s'"
    using kinv_current(5) [OF inv] same dpc by (simp add: ksound_def dpc_ok_def)
  have "ksound (set_frames ks s')"
    by (rule ksound_step [OF kinv_current(5) [OF inv], where c = "current_thread s"])
      (use core same thr dpc_ok c timers ks owner in auto)
  moreover have "t_state (thr s' t) \<noteq> THREAD_RUNNING" if "t \<in> set (thread_list s)" for t
    using kinv_not_running [OF inv that] thr c same by (cases "t = current_thread s") auto
  moreover obtain t where t: "t \<in> set (thread_list s)" "t_state (thr s t) = THREAD_READY"
    using ready by (auto simp: some_ready_def)
  then have "t \<noteq> current_thread s" using kinv_current(2) [OF inv] by auto
  ultimately show ?thesis using t thr same by (auto simp: kswitch_def intro!: bexI [of _ t])
qed

lemma thread_sleep_ok:
  assumes inv: "kinv s" and ready: "some_ready s"
  shows "\<exists>x. thread_sleep delay s = Some x \<and> kop_ok (critical_section_count s) s x"
proof -
  let ?c = "current_thread s"
  let ?s2 = "enter_critical_section (timer_initialize (Tstack ?c) s)"
  have ti: "timer_inv ?s2" and free: "Tstack ?c \<notin> set (timer_queue ?s2)"
    using timer_inv_initialize [OF kinv_current(6) [OF inv] kinv_no_stack_timer [OF inv]]
      kinv_no_stack_timer [OF inv] by (simp_all add: timer_inv_def)
  obtain s3 where s3: "timer_set_oneshot (Tstack ?c) delay CB_thread_sleep_handler ?c ?s2 = Some s3"
    and tm: "timer_inv s3" "set (timer_queue s3) = insert (Tstack ?c) (set (timer_queue ?s2))"
      "\<And>j. j \<noteq> Tstack ?c \<Longrightarrow> tms s3 j = tms ?s2 j"
      "tm_callback (tms s3 (Tstack ?c)) = CB_thread_sleep_handler" "tm_arg (tms s3 (Tstack ?c)) = ?c"
    by (rule stack_timer_set [OF ti free]) blast
  note f = timer_set_oneshot_Some [OF s3]
  let ?s4 = "upd_thr ?c (\<lambda>t. t\<lparr>t_state := THREAD_SLEEPING\<rparr>) s3"
  have "kcore {} s3" using kinv_current(4) [OF inv] f by (simp add: kcore_cong_thr [of s3 s])
  then have core: "kcore {} ?s4"
    by (rule kcore_set_idle) (use f kinv_current [OF inv] in \<open>auto simp: kcore_def prio_ok_def\<close>)
  have "kswitch (set_frames [F_thread_sleep] ?s4)"
    by (rule suspend_switch [OF inv core ready])
      (use f tm kinv_current [OF inv] in \<open>auto simp: timer_inv_def timer_initialize_def tstack_at_def\<close>)
  then show ?thesis
    using s3 f by (simp add: thread_sleep_def Let_def same_threads_def exits_def)
qed

lemma wait_queue_block_ok:
  assumes inv: "kinv s" and pre: "timeout = 0 \<or> some_ready s"
  shows "\<exists>x. wait_queue_block q timeout s = Some x \<and> kop_ok (critical_section_count s) s x"
proof (cases "timeout = 0")
  case True
  then show ?thesis using inv by (simp add: wait_queue_block_def same_threads_def)
next
  case False
  then have ready: "some_ready s" using pre by simp
  let ?c = "current_thread s"
  let ?w = "\<lambda>w. w\<lparr>wq_list := wq_list w @ [?c], wq_count := wq_count w + 1\<rparr>"
  let ?f = "\<lambda>x. x\<lparr>t_state := THREAD_BLOCKED, blocking_wait_queue := Some q,
                   wait_queue_block_ret := NO_ERROR\<rparr>"
  let ?s2 = "upd_thr ?c ?f (upd_wq q ?w s)"
  let ?ks = "[F_thread_block, F_wait_queue_block timeout]"
  have "kcore {?c} (upd_thr ?c ?f s)"
    using kcore_detach [OF kinv_current(4) [OF inv], of ?c ?f] kinv_current [OF inv]
    by (simp add: kcore_def [of "{}" s] prio_ok_def)
  then have "kcore {} (upd_wq q ?w (upd_thr ?c ?f s))"
    by (rule kcore_wq_append) (use kinv_current(1) [OF inv] in simp_all)
  then have core: "kcore {} ?s2"
    by (simp add: kcore_cong_thr [of ?s2 "upd_wq q ?w (upd_thr ?c ?f s)"])
  have ti: "timer_inv (timer_initialize (Tstack ?c) ?s2)"
    and free: "Tstack ?c \<notin> set (timer_queue (timer_initialize (Tstack ?c) ?s2))"
    using timer_inv_initialize [OF kinv_current(6) [OF inv] kinv_no_stack_timer [OF inv]]
      kinv_no_stack_timer [OF inv] by (simp_all add: timer_inv_def timer_initialize_def)
  show ?thesis
  proof (cases "timeout = INFINITE_TIME")
    case True
    have "kswitch (set_frames ?ks (enter_critical_section ?s2))"
      by (rule suspend_switch [OF inv _ ready])
        (use core kinv_current(6) [OF inv] kinv_no_stack_timer [OF inv] in \<open>auto simp: timer_inv_def\<close>)
    then show ?thesis
      using True False
      by (simp add: wait_queue_block_def thread_block_def kthen_def Let_def same_threads_def exits_def)
  next
    case timed: False
    obtain s3 where s3: "timer_set_oneshot (Tstack ?c) timeout CB_wait_queue_timeout_handler ?c
          (timer_initialize (Tstack ?c) ?s2) = Some s3"
      and tm: "timer_inv s3" "set (timer_queue s3) = insert (Tstack ?c) (set (timer_queue (timer_initialize (Tstack ?c) ?s2)))"
        "\<And>j. j \<noteq> Tstack ?c \<Longrightarrow> tms s3 j = tms (timer_initialize (Tstack ?c) ?s2) j"
        "tm_callback (tms s3 (Tstack ?c)) = CB_wait_queue_timeout_handler" "tm_arg (tms s3 (Tstack ?c)) = ?c"
      by (rule stack_timer_set [OF ti free]) blast
    note f = timer_set_oneshot_Some [OF s3]
    have core3: "kcore {} s3" using core f by (simp add: kcore_cong_thr [of s3 ?s2])
    have "kswitch (set_frames ?ks (enter_critical_section s3))"
      by (rule suspend_switch [OF inv _ ready])
        (use core3 f tm timed kinv_current(1) [OF inv]
          in \<open>auto simp: timer_inv_def timer_initialize_def tstack_at_def timed_wait_def\<close>)
    then show ?thesis
      using s3 f timed False
      by (simp add: wait_queue_block_def thread_block_def kthen_def Let_def same_threads_def exits_def)
  qed
qed

subsection \<open>Waking threads\<close>

abbreviation (input) make_ready :: "int \<Rightarrow> thread_t \<Rightarrow> thread_t" where
  "make_ready err \<equiv> (\<lambda>x. x\<lparr>t_state := THREAD_READY, wait_queue_block_ret := err,
     blocking_wait_queue := None\<rparr>)"

text \<open>A thread taken off the wait queue it is blocked on and marked ready.\<close>

lemma unlink_waiter:
  assumes mid: "kmid s0 s" and core: "kcore {} s" and mem: "t \<in> set (wq_list (wqs s q))"
    and c: "t_state (cur s) \<noteq> THREAD_BLOCKED"
    and l: "wq_list (g (wqs s q)) = remove1 t (wq_list (wqs s q))"
      "wq_count (g (wqs s q)) = wq_count (wqs s q) - 1"
    and f: "t_state (f (thr s t)) = THREAD_READY" "t_priority (f (thr s t)) = t_priority (thr s t)"
      "t_frames (f (thr s t)) = t_frames (thr s t)"
      "saved_critical_section_count (f (thr s t)) = saved_critical_section_count (thr s t)"
  shows "kcore {t} (upd_thr t f (upd_wq q g s))" and "kmid s0 (upd_thr t f (upd_wq q g s))"
    and "t \<in> set (thread_list s)" and "t \<noteq> current_thread s" and "t_state (thr s t) = THREAD_BLOCKED"
proof -
  show t: "t \<in> set (thread_list s)" "t_state (thr s t) = THREAD_BLOCKED"
    using core mem by (auto simp: kcore_def wq_ok_def waiting_on_def)
  then show ne: "t \<noteq> current_thread s" using c by auto
  have "kcore {t} (upd_wq q g s)" using kcore_wq_unlink [OF core mem, of g] l by simp
  then show "kcore {t} (upd_thr t f (upd_wq q g s))"
    using kcore_detach [of "{t}" "upd_wq q g s" t f] f core by (simp add: kcore_def [of "{}" s] prio_ok_def)
  show "kmid s0 (upd_thr t f (upd_wq q g s))"
    using mid ne t f by (auto simp: kmid_def same_threads_def intro!: dpc_ok_upd_thr)
qed

lemma wait_queue_wake_one_ok:
  assumes inv: "kinv s"
  shows "\<exists>x. wait_queue_wake_one q reschedule err s = Some x \<and> kop_ok (critical_section_count s) s x"
proof (cases "wq_list (wqs s q)")
  case Nil
  then show ?thesis using inv by (simp add: wait_queue_wake_one_def same_threads_def)
next
  case (Cons t rest)
  let ?g = "\<lambda>w. w\<lparr>wq_list := rest, wq_count := wq_count w - 1\<rparr>"
  let ?s2 = "upd_thr t (make_ready err) (upd_wq q ?g s)"
  note c = kinv_current [OF inv]
  have u: "kcore {t} ?s2" "kmid s ?s2" "t \<in> set (thread_list s)" "t \<noteq> current_thread s"
    using unlink_waiter [OF kmid_refl [OF inv] c(4), of t q ?g "make_ready err"] Cons c by simp_all
  show ?thesis
  proof (cases reschedule)
    case False
    obtain s' where s': "insert_in_run_queue_head t ?s2 = Some s'" "kcore {} s'" "kmid s s'"
      "thr s' = thr ?s2" "current_thread s' = current_thread ?s2"
      "critical_section_count s' = critical_section_count ?s2"
      by (rule enqueue_woken [OF u(2,1)]) (use u in simp_all)
    have "kinv s'" by (rule kmid_return [OF s'(3,2)]) (use s' u c in simp)
    then show ?thesis
      using False Cons s' kmid_same [OF s'(3)] by (simp add: wait_queue_wake_one_def Let_def)
  next
    case True
    let ?f = "\<lambda>x. x\<lparr>t_state := THREAD_READY\<rparr>"
    obtain s3 where s3: "insert_in_run_queue_head (current_thread ?s2) (upd_thr (current_thread ?s2) ?f ?s2) = Some s3"
      "kcore {t} s3" "kmid s s3" "thr s3 = (thr ?s2)(current_thread ?s2 := ?f (cur ?s2))"
      "thread_list s3 = thread_list ?s2" "current_thread s3 = current_thread ?s2"
      "critical_section_count s3 = critical_section_count ?s2"
      by (rule enqueue_current [OF u(2,1), of ?f insert_in_run_queue_head]) (use u c in simp_all)
    obtain s' where s': "insert_in_run_queue_head t s3 = Some s'" "kcore {} s'" "kmid s s'"
      "thr s' = thr s3" "current_thread s' = current_thread s3"
      "critical_section_count s' = critical_section_count s3"
      by (rule enqueue_woken [OF s3(3,2)]) (use u s3 in simp_all)
    have "kswitch (set_frames [F_wait_queue_wake_one] s')"
      by (rule kmid_switch [OF s'(3,2)]) (use s' s3 in simp_all)
    then show ?thesis
      using True Cons s3 s' kmid_same [OF s'(3)] by (simp add: wait_queue_wake_one_def Let_def exits_def)
  qed
qed

text \<open>The loop of \<open>wait_queue_wake_all\<close> empties the queue and keeps the invariant at every turn.\<close>

lemma wake_loop_ok:
  assumes "kmid s0 s" and "kcore {} s" and "wq_list (wqs s q) = ts"
    and "t_state (cur s) \<noteq> THREAD_BLOCKED"
  shows "\<exists>s'. wake_loop q err ts s = Some s' \<and> kmid s0 s' \<and> kcore {} s' \<and> wq_list (wqs s' q) = [] \<and>
    cur s' = cur s \<and> current_thread s' = current_thread s \<and>
    critical_section_count s' = critical_section_count s"
  using assms
proof (induction ts arbitrary: s)
  case (Cons t rest)
  let ?g = "\<lambda>w. w\<lparr>wq_list := rest, wq_count := wq_count w - 1\<rparr>"
  let ?s2 = "upd_thr t (make_ready err) (upd_wq q ?g s)"
  have u: "kcore {t} ?s2" "kmid s0 ?s2" "t \<in> set (thread_list s)" "t \<noteq> current_thread s"
    using unlink_waiter [OF Cons.prems(1,2), of t q ?g "make_ready err"] Cons.prems by simp_all
  obtain s3 where s3: "insert_in_run_queue_head t ?s2 = Some s3" "kcore {} s3" "kmid s0 s3"
    "thr s3 = thr ?s2" "current_thread s3 = current_thread ?s2" "wqs s3 = wqs ?s2"
    "critical_section_count s3 = critical_section_count ?s2"
    by (rule enqueue_woken [OF u(2,1)]) (use u in simp_all)
  have "cur s3 = cur s" "wq_list (wqs s3 q) = rest" using s3 u by simp_all
  then show ?case
    using Cons.IH [OF s3(3,2)] Cons.prems(4) s3(1,5,7) by (simp add: Let_def)
qed simp

lemma wait_queue_wake_all_ok:
  assumes inv: "kinv s"
  shows "\<exists>x. wait_queue_wake_all q reschedule err s = Some x \<and> kop_ok (critical_section_count s) s x"
proof -
  note c = kinv_current [OF inv]
  have count: "wq_count (wqs s q) = int (length (wq_list (wqs s q)))"
    using c(4) by (auto simp: kcore_def wq_ok_def)
  show ?thesis
  proof (cases "reschedule \<and> wq_list (wqs s q) \<noteq> []")
    case False
    obtain s' where s': "wake_loop q err (wq_list (wqs s q)) s = Some s'" "kmid s s'" "kcore {} s'"
      "cur s' = cur s" "critical_section_count s' = critical_section_count s"
      using wake_loop_ok [OF kmid_refl [OF inv] c(4) refl] c(2) by force
    have "kinv s'" by (rule kmid_return [OF s'(2,3)]) (simp add: s' c)
    then show ?thesis
      using False s' count kmid_same [OF s'(2)] by (auto simp: wait_queue_wake_all_def Let_def)
  next
    case True
    let ?f = "\<lambda>x. x\<lparr>t_state := THREAD_READY\<rparr>"
    obtain s1 where s1: "insert_in_run_queue_head (current_thread s) (upd_thr (current_thread s) ?f s) = Some s1"
      "kcore {} s1" "kmid s s1" "thr s1 = (thr s)(current_thread s := ?f (cur s))"
      "current_thread s1 = current_thread s" "wqs s1 = wqs s"
      "critical_section_count s1 = critical_section_count s"
      by (rule enqueue_current [OF kmid_refl [OF inv] c(4), of ?f insert_in_run_queue_head]) (use c in simp_all)
    obtain s' where s': "wake_loop q err (wq_list (wqs s1 q)) s1 = Some s'" "kmid s s'" "kcore {} s'"
      "cur s' = cur s1" "critical_section_count s' = critical_section_count s1"
      using wake_loop_ok [OF s1(3,2) refl, of q err] s1 by auto
    have "kswitch (set_frames [F_wait_queue_wake_all n] s')" for n
      by (rule kmid_switch [OF s'(2,3)]) (use s' s1 in simp_all)
    then show ?thesis
      using True count s1 s' kmid_same [OF s'(2)] by (simp add: wait_queue_wake_all_def Let_def exits_def)
  qed
qed

lemma wait_queue_destroy_ok:
  assumes inv: "kinv s"
  shows "\<exists>x. wait_queue_destroy q reschedule s = Some x \<and> kop_ok (critical_section_count s) s x"
proof -
  obtain x where x: "wait_queue_wake_all q reschedule ERR_OBJECT_DESTROYED s = Some x"
    and ok: "kop_ok (critical_section_count s) s x" using wait_queue_wake_all_ok [OF inv] by blast
  show ?thesis
    using kthen_ok [OF ok, of "F_wait_queue_destroy q"] x by (simp add: wait_queue_destroy_def exits_def)
qed

text \<open>
  Unblocking one thread from its queue, without a reschedule. With one, the calling thread is on
  no queue when it gives the processor away; and a thread that is not blocked leaves the critical
  section entered.
\<close>

definition unblockable :: "tid \<Rightarrow> kernel \<Rightarrow> bool" where
  "unblockable t s \<longleftrightarrow> t \<in> set (thread_list s) \<and> t_state (thr s t) = THREAD_BLOCKED"

lemma thread_unblock_ok:
  assumes inv: "kinv s" and pre: "unblockable t s"
  shows "\<exists>s'. thread_unblock_from_wait_queue t False err s = Some (Ret NO_ERROR s') \<and>
    kop_ok (critical_section_count s) s (Ret NO_ERROR s')"
proof -
  let ?e = "enter_critical_section s"
  note c = kinv_current [OF inv]
  obtain q where q: "blocking_wait_queue (thr s t) = Some q" and mem: "t \<in> set (wq_list (wqs s q))"
    using c(4) pre by (force simp: kcore_def wq_ok_def waiting_on_def unblockable_def)
  let ?g = "\<lambda>w. w\<lparr>wq_list := remove1 t (wq_list w), wq_count := wq_count w - 1\<rparr>"
  let ?f = "\<lambda>x. x\<lparr>blocking_wait_queue := None, t_state := THREAD_READY, wait_queue_block_ret := err\<rparr>"
  let ?s3 = "upd_thr t ?f (upd_wq q ?g ?e)"
  have mid: "kmid s ?e" using kmid_refl [OF inv] by (simp add: kmid_def same_threads_def)
  have u: "kcore {t} ?s3" "kmid s ?s3" "t \<in> set (thread_list s)" "t \<noteq> current_thread s"
    using unlink_waiter [OF mid, of t q ?g ?f] mem c by simp_all
  obtain s' where s': "insert_in_run_queue_head t ?s3 = Some s'" "kcore {} s'" "kmid s s'"
    "thr s' = thr ?s3" "current_thread s' = current_thread ?s3"
    "critical_section_count s' = critical_section_count ?s3"
    by (rule enqueue_woken [OF u(2,1)]) (use u in simp_all)
  have "kinv s'" by (rule kmid_return [OF s'(3,2)]) (use s' u c in simp)
  then show ?thesis
    using pre q s' kmid_same [OF s'(3)]
    by (simp add: thread_unblock_from_wait_queue_def Let_def unblockable_def same_threads_def)
qed

subsection \<open>Operations that keep their caller runnable\<close>

lemma kthen_live:
  assumes "kthen out f = Some y"
  obtains x where "out = Some x" and "\<And>t. live (kout_state y) t = live (kout_state x) t"
proof -
  obtain x where x: "out = Some x" using assms by (cases out) (auto simp: kthen_def)
  have "live (kout_state y) t = live (kout_state x) t" for t
    using assms x by (cases x) (auto simp: kthen_def live_def bind_eq_Some_conv dest!: run_frame_sched)
  then show thesis using that x by blast
qed

lemma thread_yield_live: "thread_yield s = Some x \<Longrightarrow> live (kout_state x) (current_thread s)"
  by (auto simp: thread_yield_def Let_def live_def bind_eq_Some_conv insert_tail_Some)

lemma thread_preempt_live: "thread_preempt s = Some x \<Longrightarrow> live (kout_state x) (current_thread s)"
  by (auto simp: thread_preempt_def Let_def live_def bind_eq_Some_conv insert_tail_Some insert_head_Some
      split: if_splits)

lemma thread_resume_live:
  assumes "thread_resume t s = Some x" and "live s (current_thread s)"
  shows "live (kout_state x) (current_thread s)"
proof (cases "t_state (thr s t) = THREAD_READY \<or> t_state (thr s t) = THREAD_RUNNING")
  case False
  then obtain s3 where s3: "insert_in_run_queue_head t (upd_thr t (\<lambda>x. x\<lparr>t_state := THREAD_READY\<rparr>)
      (enter_critical_section s)) = Some s3" and x: "kthen (thread_yield s3) F_thread_resume = Some x"
    using assms(1) by (auto simp: thread_resume_def Let_def bind_eq_Some_conv)
  obtain y where y: "thread_yield s3 = Some y" "\<And>t. live (kout_state x) t = live (kout_state y) t"
    by (rule kthen_live [OF x]) blast
  then show ?thesis
    using thread_yield_live [OF y(1)] insert_head_Some(3) [OF s3] by simp
qed (use assms in \<open>auto simp: thread_resume_def\<close>)

lemma wake_loop_live:
  assumes "wake_loop q err ts s = Some s'" and "live s u"
  shows "live s' u"
  using assms
proof (induction ts arbitrary: s)
  case (Cons t ts)
  then obtain s3 where "insert_in_run_queue_head t (upd_thr t (make_ready err)
      (upd_wq q (\<lambda>w. w\<lparr>wq_list := ts, wq_count := wq_count w - 1\<rparr>) s)) = Some s3"
    and "wake_loop q err ts s3 = Some s'"
    by (auto simp: Let_def bind_eq_Some_conv)
  then show ?case using Cons by (auto simp: live_def insert_head_Some)
qed simp

lemma wait_queue_wake_one_live:
  assumes "wait_queue_wake_one q reschedule err s = Some x" and "live s (current_thread s)"
  shows "live (kout_state x) (current_thread s)"
  using assms
  by (auto simp: wait_queue_wake_one_def Let_def live_def bind_eq_Some_conv insert_head_Some
      split: list.splits if_splits)

lemma wait_queue_wake_all_live:
  assumes "wait_queue_wake_all q reschedule err s = Some x" and "live s (current_thread s)"
  shows "live (kout_state x) (current_thread s)"
proof -
  obtain s1 where s1: "(if reschedule \<and> wq_count (wqs s q) > 0
      then insert_in_run_queue_head (current_thread s)
             (upd_thr (current_thread s) (\<lambda>x. x\<lparr>t_state := THREAD_READY\<rparr>) s)
      else Some s) = Some s1" and x: "wake_loop q err (wq_list (wqs s1 q)) s1 = Some (kout_state x)"
    using assms(1)
    by (simp add: wait_queue_wake_all_def Let_def bind_eq_Some_conv del: Option.bind.bind_lunit)
      (metis kout_state.simps option.inject)
  have "live s1 (current_thread s)"
    using s1 assms(2) by (auto simp: live_def insert_head_Some split: if_splits)
  then show ?thesis by (rule wake_loop_live [OF x])
qed

lemma wait_queue_destroy_live:
  assumes "wait_queue_destroy q reschedule s = Some x" and "live s (current_thread s)"
  shows "live (kout_state x) (current_thread s)"
proof -
  obtain y where y: "wait_queue_wake_all q reschedule ERR_OBJECT_DESTROYED s = Some y"
    "\<And>t. live (kout_state x) t = live (kout_state y) t"
    by (rule kthen_live [OF assms(1) [unfolded wait_queue_destroy_def]]) blast
  then show ?thesis using wait_queue_wake_all_live [OF y(1) assms(2)] by simp
qed

lemma kinv_live: "kinv s \<Longrightarrow> live s (current_thread s)"
  by (simp add: live_def kinv_current)

interpretation yield: kernel_op_live thread_yield "\<lambda>_. True"
  by unfold_locales (rule thread_yield_ok, assumption, rule thread_yield_live)

interpretation preempt: kernel_op_live thread_preempt "\<lambda>_. True"
  by unfold_locales (rule thread_preempt_ok, assumption, rule thread_preempt_live)

interpretation resume: kernel_op_live "thread_resume t" "resumable t" for t
  by unfold_locales (simp_all add: thread_resume_ok thread_resume_live kinv_live)

interpretation sleep: kernel_op "thread_sleep delay" some_ready for delay
  by unfold_locales (rule thread_sleep_ok)

interpretation wq_block: kernel_op "wait_queue_block q timeout" "\<lambda>s. timeout = 0 \<or> some_ready s" for q timeout
  by unfold_locales (rule wait_queue_block_ok)

interpretation wq_wake_one: kernel_op_live "wait_queue_wake_one q reschedule err" "\<lambda>_. True"
  for q reschedule err
  by unfold_locales (simp_all add: wait_queue_wake_one_ok wait_queue_wake_one_live kinv_live)

interpretation wq_wake_all: kernel_op_live "wait_queue_wake_all q reschedule err" "\<lambda>_. True"
  for q reschedule err
  by unfold_locales (simp_all add: wait_queue_wake_all_ok wait_queue_wake_all_live kinv_live)

interpretation wq_destroy: kernel_op_live "wait_queue_destroy q reschedule" "\<lambda>_. True" for q reschedule
  by unfold_locales (simp_all add: wait_queue_destroy_ok wait_queue_destroy_live kinv_live)

interpretation wq_unblock: kernel_op "thread_unblock_from_wait_queue t False err" "unblockable t" for t err
  by unfold_locales (use thread_unblock_ok in blast)

end
