(* ===== verification/LK_Sync.thy ===== *)
theory LK_Sync
  imports LK_Thread_Ops
begin

text \<open>
  Mutexes (\<^verbatim>\<open>kernel/mutex.c\<close>) and events (\<^verbatim>\<open>kernel/event.c\<close>), built on the wait queues.
  The wait queue of mutex \<open>m\<close> is \<open>WQ_mutex m\<close>, that of event \<open>e\<close> is \<open>WQ_event e\<close>. The part of each
  function after its call of a wait queue function is the frame of the same name in
  \<open>run_frame\<close> of theory \<open>LK_Thread\<close>. \<open>None\<close> is a \<open>panic\<close>.
\<close>

subsection \<open>Mutexes\<close>

definition mutex_init :: "nat \<Rightarrow> kernel \<Rightarrow> kernel" where
  "mutex_init m s =
     wait_queue_init (WQ_mutex m)
       (upd_mtx m (\<lambda>_. \<lparr>m_magic = MUTEX_MAGIC, m_count = 0, m_holder = None\<rparr>) s)"

definition mutex_destroy :: "nat \<Rightarrow> kop" where
  "mutex_destroy m s =
     (let s1 = enter_critical_section s;
          s2 = upd_mtx m (\<lambda>x. x\<lparr>m_magic := 0, m_count := 0\<rparr>) s1
      in kthen (wait_queue_destroy (WQ_mutex m) True s2) F_mutex_destroy)"

definition mutex_acquire :: "nat \<Rightarrow> kop" where
  "mutex_acquire m s =
     (if m_holder (mtx s m) = Some (current_thread s) then None
      else
        let s1 = enter_critical_section s;
            s2 = upd_mtx m (\<lambda>x. x\<lparr>m_count := m_count x + 1\<rparr>) s1
        in if m_count (mtx s2 m) > 1
           then kthen (wait_queue_block (WQ_mutex m) INFINITE_TIME s2) (F_mutex_acquire m)
           else Some (Ret NO_ERROR (exit_critical_section
                        (upd_mtx m (\<lambda>x. x\<lparr>m_holder := Some (current_thread s2)\<rparr>) s2))))"

definition mutex_acquire_timeout :: "nat \<Rightarrow> u32 \<Rightarrow> kop" where
  "mutex_acquire_timeout m timeout s =
     (if m_holder (mtx s m) = Some (current_thread s) then None
      else if timeout = INFINITE_TIME then mutex_acquire m s
      else
        let s1 = enter_critical_section s;
            s2 = upd_mtx m (\<lambda>x. x\<lparr>m_count := m_count x + 1\<rparr>) s1
        in if m_count (mtx s2 m) > 1
           then kthen (wait_queue_block (WQ_mutex m) timeout s2) (F_mutex_acquire_timeout m)
           else Some (Ret NO_ERROR (exit_critical_section
                        (upd_mtx m (\<lambda>x. x\<lparr>m_holder := Some (current_thread s2)\<rparr>) s2))))"

definition mutex_release :: "nat \<Rightarrow> kop" where
  "mutex_release m s =
     (if m_holder (mtx s m) \<noteq> Some (current_thread s) then None
      else
        let s1 = enter_critical_section s;
            s2 = upd_mtx m (\<lambda>x. x\<lparr>m_holder := None, m_count := m_count x - 1\<rparr>) s1
        in if m_count (mtx s2 m) \<ge> 1
           then kthen (wait_queue_wake_one (WQ_mutex m) True NO_ERROR s2) F_mutex_release
           else Some (Ret NO_ERROR (exit_critical_section s2)))"

subsection \<open>Events\<close>

abbreviation (input) EVENT_FLAG_AUTOUNSIGNAL :: u32 where "EVENT_FLAG_AUTOUNSIGNAL \<equiv> 1"

definition event_init :: "nat \<Rightarrow> bool \<Rightarrow> u32 \<Rightarrow> kernel \<Rightarrow> kernel" where
  "event_init e initial flags s =
     wait_queue_init (WQ_event e)
       (upd_evt e (\<lambda>_. \<lparr>e_magic = EVENT_MAGIC, e_signalled = initial, e_flags = flags\<rparr>) s)"

definition event_destroy :: "nat \<Rightarrow> kop" where
  "event_destroy e s =
     (let s1 = enter_critical_section s;
          s2 = upd_evt e (\<lambda>_. \<lparr>e_magic = 0, e_signalled = False, e_flags = 0\<rparr>) s1
      in kthen (wait_queue_destroy (WQ_event e) True s2) F_event_destroy)"

definition event_wait_timeout :: "nat \<Rightarrow> u32 \<Rightarrow> kop" where
  "event_wait_timeout e timeout s =
     (let s1 = enter_critical_section s in
      if e_signalled (evt s1 e)
      then
        let s2 = (if e_flags (evt s1 e) AND EVENT_FLAG_AUTOUNSIGNAL \<noteq> 0
                  then upd_evt e (\<lambda>x. x\<lparr>e_signalled := False\<rparr>) s1 else s1)
        in Some (Ret NO_ERROR (exit_critical_section s2))
      else kthen (wait_queue_block (WQ_event e) timeout s1) F_event_wait)"

definition event_wait :: "nat \<Rightarrow> kop" where
  "event_wait e = event_wait_timeout e INFINITE_TIME"

definition event_signal :: "nat \<Rightarrow> bool \<Rightarrow> kop" where
  "event_signal e reschedule s =
     (let s1 = enter_critical_section s in
      if \<not> e_signalled (evt s1 e)
      then if e_flags (evt s1 e) AND EVENT_FLAG_AUTOUNSIGNAL \<noteq> 0
           then kthen (wait_queue_wake_one (WQ_event e) reschedule NO_ERROR s1) (F_event_signal_one e)
           else let s2 = upd_evt e (\<lambda>x. x\<lparr>e_signalled := True\<rparr>) s1
                in kthen (wait_queue_wake_all (WQ_event e) reschedule NO_ERROR s2) F_event_signal_all
      else Some (Ret NO_ERROR (exit_critical_section s1)))"

definition event_unsignal :: "nat \<Rightarrow> kop" where
  "event_unsignal e s =
     (let s1 = enter_critical_section s;
          s2 = upd_evt e (\<lambda>x. x\<lparr>e_signalled := False\<rparr>) s1
      in Some (Ret NO_ERROR (exit_critical_section s2)))"

subsection \<open>They satisfy the contract of kernel operations\<close>

text \<open>A function that enters a critical section, calls another and leaves the section again.\<close>

lemma kthen_op:
  assumes g: "\<exists>x. out = Some x \<and> kop_ok (critical_section_count s1) s1 x"
    and s1: "same_threads s s1" "critical_section_count s1 = critical_section_count s + exits f"
    and f: "f \<noteq> F_thread_exit"
  shows "\<exists>y. kthen out f = Some y \<and> kop_ok (critical_section_count s) s y"
proof -
  obtain x where x: "out = Some x" and ok: "kop_ok (critical_section_count s1) s1 x"
    using g by blast
  show ?thesis
    using kthen_ok [OF ok f] kop_ok_trans [OF s1(1)] x s1(2) by (metis add_diff_cancel_right')
qed

lemma same_threads_simps [simp]:
  "same_threads s s"
  "same_threads s (enter_critical_section s') = same_threads s s'"
  "same_threads s (exit_critical_section s') = same_threads s s'"
  "same_threads s (upd_mtx m f s') = same_threads s s'"
  "same_threads s (upd_evt e g s') = same_threads s s'"
  by (simp_all add: same_threads_def)

lemma some_ready_simps [simp]:
  "some_ready (enter_critical_section s) = some_ready s"
  "some_ready (upd_mtx m f s) = some_ready s"
  "some_ready (upd_evt e g s) = some_ready s"
  by (simp_all add: some_ready_def)

lemma kop_ok_exit:
  assumes "kinv s'" and "same_threads s s'" and "critical_section_count s' = critical_section_count s + 1"
  shows "kop_ok (critical_section_count s) s (Ret r (exit_critical_section s'))"
  using assms by simp

text \<open>
  The preconditions: a thread acquires a mutex it does not hold and releases one it holds (the
  code panics otherwise), and a call that may block finds another thread ready.
\<close>

definition may_acquire :: "nat \<Rightarrow> u32 \<Rightarrow> kernel \<Rightarrow> bool" where
  "may_acquire m timeout s \<longleftrightarrow> m_holder (mtx s m) \<noteq> Some (current_thread s) \<and>
     (m_count (mtx s m) \<ge> 1 \<longrightarrow> timeout = 0 \<or> some_ready s)"

definition may_release :: "nat \<Rightarrow> kernel \<Rightarrow> bool" where
  "may_release m s \<longleftrightarrow> m_holder (mtx s m) = Some (current_thread s)"

definition may_wait :: "nat \<Rightarrow> u32 \<Rightarrow> kernel \<Rightarrow> bool" where
  "may_wait e timeout s \<longleftrightarrow> e_signalled (evt s e) \<or> timeout = 0 \<or> some_ready s"

lemma mutex_acquire_ok:
  assumes inv: "kinv s" and pre: "may_acquire m INFINITE_TIME s"
  shows "\<exists>x. mutex_acquire m s = Some x \<and> kop_ok (critical_section_count s) s x"
proof (cases "m_count (mtx s m) \<ge> 1")
  case True
  have "\<exists>y. kthen (wait_queue_block (WQ_mutex m) INFINITE_TIME
      (upd_mtx m (\<lambda>x. x\<lparr>m_count := m_count x + 1\<rparr>) (enter_critical_section s))) (F_mutex_acquire m) = Some y \<and>
    kop_ok (critical_section_count s) s y"
    by (rule kthen_op [OF wait_queue_block_ok]) (use inv pre True in \<open>auto simp: may_acquire_def exits_def\<close>)
  then show ?thesis
    using True pre by (simp add: mutex_acquire_def Let_def may_acquire_def)
qed (use inv pre in \<open>simp add: mutex_acquire_def Let_def may_acquire_def\<close>)

lemma mutex_acquire_timeout_ok:
  assumes inv: "kinv s" and pre: "may_acquire m timeout s"
  shows "\<exists>x. mutex_acquire_timeout m timeout s = Some x \<and> kop_ok (critical_section_count s) s x"
proof (cases "timeout \<noteq> INFINITE_TIME \<and> m_count (mtx s m) \<ge> 1")
  case True
  have "\<exists>y. kthen (wait_queue_block (WQ_mutex m) timeout
      (upd_mtx m (\<lambda>x. x\<lparr>m_count := m_count x + 1\<rparr>) (enter_critical_section s))) (F_mutex_acquire_timeout m) = Some y \<and>
    kop_ok (critical_section_count s) s y"
    by (rule kthen_op [OF wait_queue_block_ok]) (use inv pre True in \<open>auto simp: may_acquire_def exits_def\<close>)
  then show ?thesis
    using True pre by (simp add: mutex_acquire_timeout_def Let_def may_acquire_def)
next
  case False
  then show ?thesis
    using inv pre mutex_acquire_ok [OF inv, of m]
    by (auto simp: mutex_acquire_timeout_def Let_def may_acquire_def)
qed

lemma mutex_release_ok:
  assumes inv: "kinv s" and pre: "may_release m s"
  shows "\<exists>x. mutex_release m s = Some x \<and> kop_ok (critical_section_count s) s x"
proof -
  have "\<exists>y. kthen (wait_queue_wake_one (WQ_mutex m) True NO_ERROR
      (upd_mtx m (\<lambda>x. x\<lparr>m_holder := None, m_count := m_count x - 1\<rparr>) (enter_critical_section s)))
      F_mutex_release = Some y \<and> kop_ok (critical_section_count s) s y"
    by (rule kthen_op [OF wait_queue_wake_one_ok]) (use inv in \<open>simp_all add: exits_def\<close>)
  then show ?thesis
    using pre inv by (simp add: mutex_release_def Let_def may_release_def)
qed

lemma mutex_destroy_ok:
  assumes inv: "kinv s"
  shows "\<exists>x. mutex_destroy m s = Some x \<and> kop_ok (critical_section_count s) s x"
  unfolding mutex_destroy_def Let_def
  by (rule kthen_op [OF wait_queue_destroy_ok]) (use inv in \<open>simp_all add: exits_def\<close>)

lemma event_wait_timeout_ok:
  assumes inv: "kinv s" and pre: "may_wait e timeout s"
  shows "\<exists>x. event_wait_timeout e timeout s = Some x \<and> kop_ok (critical_section_count s) s x"
proof (cases "e_signalled (evt s e)")
  case False
  have "\<exists>y. kthen (wait_queue_block (WQ_event e) timeout (enter_critical_section s)) F_event_wait = Some y \<and>
    kop_ok (critical_section_count s) s y"
    by (rule kthen_op [OF wait_queue_block_ok]) (use inv pre False in \<open>auto simp: may_wait_def exits_def\<close>)
  then show ?thesis using False by (simp add: event_wait_timeout_def Let_def)
qed (use inv in \<open>simp add: event_wait_timeout_def Let_def\<close>)

lemma event_signal_ok:
  assumes inv: "kinv s"
  shows "\<exists>x. event_signal e reschedule s = Some x \<and> kop_ok (critical_section_count s) s x"
proof -
  have "\<exists>y. kthen (wait_queue_wake_one (WQ_event e) reschedule NO_ERROR (enter_critical_section s))
      (F_event_signal_one e) = Some y \<and> kop_ok (critical_section_count s) s y"
    by (rule kthen_op [OF wait_queue_wake_one_ok]) (use inv in \<open>simp_all add: exits_def\<close>)
  moreover have "\<exists>y. kthen (wait_queue_wake_all (WQ_event e) reschedule NO_ERROR
      (upd_evt e (\<lambda>x. x\<lparr>e_signalled := True\<rparr>) (enter_critical_section s)))
      F_event_signal_all = Some y \<and> kop_ok (critical_section_count s) s y"
    by (rule kthen_op [OF wait_queue_wake_all_ok]) (use inv in \<open>simp_all add: exits_def\<close>)
  ultimately show ?thesis using inv by (simp add: event_signal_def Let_def)
qed

lemma event_destroy_ok:
  assumes inv: "kinv s"
  shows "\<exists>x. event_destroy e s = Some x \<and> kop_ok (critical_section_count s) s x"
  unfolding event_destroy_def Let_def
  by (rule kthen_op [OF wait_queue_destroy_ok]) (use inv in \<open>simp_all add: exits_def\<close>)

subsection \<open>Which of them keep their caller runnable\<close>

lemma kthen_liveI:
  assumes "kthen out f = Some y" and "\<And>x. out = Some x \<Longrightarrow> live (kout_state x) t"
  shows "live (kout_state y) t"
  using kthen_live [OF assms(1)] assms(2) by metis

lemma mutex_release_live:
  assumes inv: "kinv s" and op: "mutex_release m s = Some x"
  shows "live (kout_state x) (current_thread s)"
proof -
  let ?s = "upd_mtx m (\<lambda>x. x\<lparr>m_holder := None, m_count := m_count x - 1\<rparr>) (enter_critical_section s)"
  have l: "live ?s (current_thread ?s)" using kinv_live [OF inv] by (simp add: live_def)
  show ?thesis
  proof (cases "m_count (mtx s m) \<ge> 2")
    case True
    have k: "kthen (wait_queue_wake_one (WQ_mutex m) True NO_ERROR ?s) F_mutex_release = Some x"
      using op True by (simp add: mutex_release_def Let_def split: if_splits)
    have "live (kout_state x) (current_thread ?s)"
      by (rule kthen_liveI [OF k]) (erule wait_queue_wake_one_live [OF _ l])
    then show ?thesis by simp
  next
    case False
    then have "x = Ret NO_ERROR (exit_critical_section ?s)"
      using op by (simp add: mutex_release_def Let_def split: if_splits)
    then show ?thesis using l by (simp add: live_def)
  qed
qed

lemma destroy_live:
  assumes "kthen (wait_queue_destroy q True s) f = Some x" and "live s (current_thread s)"
  shows "live (kout_state x) (current_thread s)"
  by (rule kthen_liveI [OF assms(1)]) (erule wait_queue_destroy_live [OF _ assms(2)])

lemma event_signal_live:
  assumes cur: "live s (current_thread s)" and op: "event_signal e reschedule s = Some x"
  shows "live (kout_state x) (current_thread s)"
proof -
  let ?s = "enter_critical_section s"
  let ?u = "upd_evt e (\<lambda>x. x\<lparr>e_signalled := True\<rparr>) ?s"
  have l: "live ?s (current_thread ?s)" "live ?u (current_thread ?u)"
    using cur by (simp_all add: live_def)
  consider (signalled) "e_signalled (evt s e)"
    | (one) "\<not> e_signalled (evt s e)" "e_flags (evt s e) AND EVENT_FLAG_AUTOUNSIGNAL \<noteq> 0"
    | (all) "\<not> e_signalled (evt s e)" "e_flags (evt s e) AND EVENT_FLAG_AUTOUNSIGNAL = 0"
    by blast
  then show ?thesis
  proof cases
    case signalled
    then have "x = Ret NO_ERROR (exit_critical_section ?s)"
      using op by (simp add: event_signal_def Let_def)
    then show ?thesis using l by (simp add: live_def)
  next
    case one
    then have k: "kthen (wait_queue_wake_one (WQ_event e) reschedule NO_ERROR ?s) (F_event_signal_one e) = Some x"
      using op by (simp add: event_signal_def Let_def)
    have "live (kout_state x) (current_thread ?s)"
      by (rule kthen_liveI [OF k]) (erule wait_queue_wake_one_live [OF _ l(1)])
    then show ?thesis by simp
  next
    case all
    then have k: "kthen (wait_queue_wake_all (WQ_event e) reschedule NO_ERROR ?u) F_event_signal_all = Some x"
      using op by (simp add: event_signal_def Let_def)
    have "live (kout_state x) (current_thread ?u)"
      by (rule kthen_liveI [OF k]) (erule wait_queue_wake_all_live [OF _ l(2)])
    then show ?thesis by simp
  qed
qed

interpretation acquire: kernel_op "mutex_acquire m" "may_acquire m INFINITE_TIME" for m
  by unfold_locales (rule mutex_acquire_ok)

interpretation acquire_timeout: kernel_op "mutex_acquire_timeout m timeout" "may_acquire m timeout" for m timeout
  by unfold_locales (rule mutex_acquire_timeout_ok)

interpretation release: kernel_op_live "mutex_release m" "may_release m" for m
  by unfold_locales (rule mutex_release_ok, assumption+, rule mutex_release_live)

interpretation mutex_destroy: kernel_op_live "mutex_destroy m" "\<lambda>_. True" for m
proof unfold_locales
  show "live (kout_state x) (current_thread s)" if "kinv s" "mutex_destroy m s = Some x" for s x
    using destroy_live [OF that(2) [unfolded mutex_destroy_def Let_def]] kinv_live [OF that(1)]
    by (simp add: live_def)
qed (rule mutex_destroy_ok)

interpretation wait: kernel_op "event_wait_timeout e timeout" "may_wait e timeout" for e timeout
  by unfold_locales (rule event_wait_timeout_ok)

interpretation signal: kernel_op_live "event_signal e reschedule" "\<lambda>_. True" for e reschedule
  by unfold_locales (rule event_signal_ok, assumption, rule event_signal_live, erule kinv_live)

interpretation event_destroy: kernel_op_live "event_destroy e" "\<lambda>_. True" for e
proof unfold_locales
  show "live (kout_state x) (current_thread s)" if "kinv s" "event_destroy e s = Some x" for s x
    using destroy_live [OF that(2) [unfolded event_destroy_def Let_def]] kinv_live [OF that(1)]
    by (simp add: live_def)
qed (rule event_destroy_ok)

interpretation unsignal: kernel_op_live "event_unsignal e" "\<lambda>_. True" for e
  by unfold_locales (auto simp: event_unsignal_def Let_def live_def kinv_current)

end
