(* ===== verification/LK_Dpc.thy ===== *)
theory LK_Dpc
  imports LK_Sync
begin

text \<open>
  Deferred procedure calls (\<^verbatim>\<open>kernel/dpc.c\<close>) and the end of a thread
  (\<^verbatim>\<open>thread_exit\<close> and \<^verbatim>\<open>thread_cleanup_dpc\<close> of \<^verbatim>\<open>kernel/thread.c\<close>), which frees
  itself through one. The results of \<open>malloc\<close> are arguments; a driver's callback is a parameter.
\<close>

abbreviation (input) dpc_event :: nat where "dpc_event \<equiv> 0"
abbreviation (input) DPC_FLAG_NORESCHED :: u32 where "DPC_FLAG_NORESCHED \<equiv> 1"

text \<open>\<open>dpc_queue\<close> writes through the result of \<open>malloc\<close> without looking at it.\<close>

definition dpc_queue :: "dpc_callback \<Rightarrow> nat \<Rightarrow> u32 \<Rightarrow> nat option \<Rightarrow> kop" where
  "dpc_queue cb arg flags mem s =
     (case mem of
        None \<Rightarrow> None
      | Some _ \<Rightarrow>
          let s1 = enter_critical_section s;
              s2 = s1\<lparr>dpc_list := dpc_list s1 @ [\<lparr>dpc_cb = cb, dpc_arg = arg\<rparr>]\<rparr>
          in kthen (event_signal dpc_event (flags AND DPC_FLAG_NORESCHED = 0) s2) F_dpc_queue)"

definition dpc_init :: "tid option \<Rightarrow> nat option \<Rightarrow> nat \<Rightarrow> kop" where
  "dpc_init mem stackmem dpc_thread_routine s =
     (let s1 = event_init dpc_event False 0 s;
          (t, s2) = thread_create ''dpc'' dpc_thread_routine 0 DPC_PRIORITY 0x2000 mem stackmem s1
      in case t of None \<Rightarrow> None | Some t' \<Rightarrow> thread_resume t' s2)"

text \<open>
  One turn of \<open>dpc_thread_routine\<close> after its \<open>event_wait\<close>: take the first call off the list, and
  clear the event when there is none.
\<close>

definition dpc_thread_next :: "kernel \<Rightarrow> (dpc_t option \<times> kernel) option" where
  "dpc_thread_next s =
     (let s1 = enter_critical_section s in
      case dpc_list s1 of
        [] \<Rightarrow> do { x \<leftarrow> event_unsignal dpc_event s1; Some (None, exit_critical_section (kout_state x)) }
      | d # ds \<Rightarrow> Some (Some d, exit_critical_section (s1\<lparr>dpc_list := ds\<rparr>)))"

text \<open>\<open>thread_cleanup_dpc\<close>: the pointers it hands to \<open>free\<close>, in order, and the new state.\<close>

definition thread_cleanup_dpc :: "tid \<Rightarrow> kernel \<Rightarrow> nat list \<times> kernel" where
  "thread_cleanup_dpc t s =
     (let s1 = enter_critical_section s;
          s2 = s1\<lparr>thread_list := remove1 t (thread_list s1)\<rparr>;
          s3 = exit_critical_section s2
      in ((if t_stack (thr s3 t) \<noteq> 0 then [t_stack (thr s3 t)] else []) @ [t], s3))"

definition dpc_call :: "(nat \<Rightarrow> nat \<Rightarrow> kernel \<Rightarrow> kernel) \<Rightarrow> dpc_t \<Rightarrow> kernel \<Rightarrow> kernel" where
  "dpc_call driver d s =
     (case dpc_cb d of
        DPC_thread_cleanup \<Rightarrow> snd (thread_cleanup_dpc (dpc_arg d) s)
      | DPC_driver n \<Rightarrow> driver n (dpc_arg d) s)"

text \<open>
  \<open>thread_exit\<close>: its dpc is queued without a reschedule, so \<open>dpc_queue\<close> returns; then the thread
  calls \<open>thread_resched\<close> and must not come back (the frame \<open>F_thread_exit\<close> is the \<open>panic\<close>).
\<close>

definition thread_exit :: "int \<Rightarrow> nat option \<Rightarrow> kop" where
  "thread_exit retcode mem s =
     (let s1 = enter_critical_section s;
          s2 = upd_thr (current_thread s1) (\<lambda>t. t\<lparr>t_state := THREAD_DEATH, t_retcode := retcode\<rparr>) s1
      in do {
           x \<leftarrow> dpc_queue DPC_thread_cleanup (current_thread s2) DPC_FLAG_NORESCHED mem s2;
           case x of
             Ret r s3 \<Rightarrow> Some (Switch [F_thread_exit] s3)
           | Switch ks s3 \<Rightarrow> Some (Switch (ks @ [F_thread_exit]) s3) })"

subsection \<open>Queueing a call\<close>

lemma cleanups_append [simp]: "cleanups [] = []" "cleanups (ds @ es) = cleanups ds @ cleanups es"
  by (simp_all add: cleanups_def)

lemma cleanups_Cons:
  "cleanups (d # ds) = (if dpc_cb d = DPC_thread_cleanup then [dpc_arg d] else []) @ cleanups ds"
  by (simp add: cleanups_def)

lemma kinv_dpc_list:
  assumes "kinv s" and "dpc_ok (s\<lparr>dpc_list := ds\<rparr>)"
  shows "kinv (s\<lparr>dpc_list := ds\<rparr>)"
  using assms
  by (simp add: kinv_def ksound_def running_ok_def frames_ok_def tstack_ok_def tstack_at_def timer_inv_def)

lemma dpc_queue_ok:
  assumes inv: "kinv s" and mem: "mem \<noteq> None" and cb: "cb \<noteq> DPC_thread_cleanup"
  shows "\<exists>x. dpc_queue cb arg flags mem s = Some x \<and> kop_ok (critical_section_count s) s x"
proof -
  let ?ds = "dpc_list s @ [\<lparr>dpc_cb = cb, dpc_arg = arg\<rparr>]"
  let ?s = "(enter_critical_section s)\<lparr>dpc_list := ?ds\<rparr>"
  have "cleanups ?ds = cleanups (dpc_list s)" using cb by (simp add: cleanups_def)
  moreover have "dpc_ok s" using kinv_current(5) [OF inv] by (simp add: ksound_def)
  ultimately have "dpc_ok ?s" by (simp add: dpc_ok_def)
  moreover have "kinv (enter_critical_section s)" using inv by simp
  ultimately have "kinv ?s" by (rule kinv_dpc_list [rotated])
  moreover have "same_threads s ?s" by (simp add: same_threads_def)
  ultimately have "\<exists>y. kthen (event_signal dpc_event (flags AND DPC_FLAG_NORESCHED = 0) ?s) F_dpc_queue = Some y \<and>
    kop_ok (critical_section_count s) s y"
    by (intro kthen_op [OF event_signal_ok]) (simp_all add: exits_def)
  then show ?thesis using mem by (auto simp: dpc_queue_def Let_def)
qed

lemma dpc_queue_live:
  assumes inv: "kinv s" and op: "dpc_queue cb arg flags mem s = Some x"
  shows "live (kout_state x) (current_thread s)"
proof -
  let ?s = "(enter_critical_section s)\<lparr>dpc_list := dpc_list s @ [\<lparr>dpc_cb = cb, dpc_arg = arg\<rparr>]\<rparr>"
  have l: "live ?s (current_thread ?s)" using kinv_live [OF inv] by (simp add: live_def)
  have k: "kthen (event_signal dpc_event (flags AND DPC_FLAG_NORESCHED = 0) ?s) F_dpc_queue = Some x"
    using op by (simp add: dpc_queue_def Let_def split: option.splits)
  have "live (kout_state x) (current_thread ?s)"
    by (rule kthen_liveI [OF k]) (erule event_signal_live [OF l])
  then show ?thesis by simp
qed

interpretation dpc: kernel_op_live "dpc_queue (DPC_driver n) arg flags mem" "\<lambda>_. mem \<noteq> None"
  for n arg flags mem
  by unfold_locales (rule dpc_queue_ok, simp_all add: dpc_queue_live)

subsection \<open>The end of a thread\<close>

lemma kmid_frame [simp]:
  "kmid s0 (enter_critical_section s) = kmid s0 s"
  "kmid s0 (exit_critical_section s) = kmid s0 s"
  "kmid s0 (upd_evt e f s) = kmid s0 s"
  by (simp_all add: kmid_def)

text \<open>Signalling an event without a reschedule, in the middle of an operation.\<close>

lemma wake_one_mid:
  assumes mid: "kmid s0 s" and core: "kcore {} s" and cur: "t_state (cur s) \<noteq> THREAD_BLOCKED"
  shows "\<exists>n s'. wait_queue_wake_one q False err s = Some (Ret n s') \<and> kmid s0 s' \<and> kcore {} s' \<and>
    cur s' = cur s \<and> current_thread s' = current_thread s \<and>
    critical_section_count s' = critical_section_count s"
proof (cases "wq_list (wqs s q)")
  case Nil
  then show ?thesis using mid core by (simp add: wait_queue_wake_one_def)
next
  case (Cons t rest)
  let ?g = "\<lambda>w. w\<lparr>wq_list := rest, wq_count := wq_count w - 1\<rparr>"
  let ?s2 = "upd_thr t (make_ready err) (upd_wq q ?g s)"
  have u: "kcore {t} ?s2" "kmid s0 ?s2" "t \<in> set (thread_list s)" "t \<noteq> current_thread s"
    using unlink_waiter [OF mid core, of t q ?g "make_ready err"] Cons cur by simp_all
  obtain s' where s': "insert_in_run_queue_head t ?s2 = Some s'" "kcore {} s'" "kmid s0 s'"
    "thr s' = thr ?s2" "current_thread s' = current_thread ?s2"
    "critical_section_count s' = critical_section_count ?s2"
    by (rule enqueue_woken [OF u(2,1)]) (use u in simp_all)
  then show ?thesis using Cons u by (simp add: wait_queue_wake_one_def Let_def)
qed

lemma signal_mid:
  assumes mid: "kmid s0 s" and core: "kcore {} s" and cur: "t_state (cur s) \<noteq> THREAD_BLOCKED"
  shows "\<exists>s'. event_signal e False s = Some (Ret NO_ERROR s') \<and> kmid s0 s' \<and> kcore {} s' \<and>
    cur s' = cur s \<and> current_thread s' = current_thread s \<and>
    critical_section_count s' = critical_section_count s"
proof -
  let ?s1 = "enter_critical_section s" and ?s2 = "upd_evt e (\<lambda>x. x\<lparr>e_signalled := True\<rparr>) (enter_critical_section s)"
  obtain n s3 where one: "wait_queue_wake_one (WQ_event e) False NO_ERROR ?s1 = Some (Ret n s3)" "kmid s0 s3"
    "kcore {} s3" "cur s3 = cur s" "current_thread s3 = current_thread s"
    "critical_section_count s3 = critical_section_count s + 1"
    using wake_one_mid [of s0 ?s1 "WQ_event e" NO_ERROR] mid core cur by auto
  obtain s4 where all: "wake_loop (WQ_event e) NO_ERROR (wq_list (wqs ?s2 (WQ_event e))) ?s2 = Some s4"
    "kmid s0 s4" "kcore {} s4" "cur s4 = cur s" "current_thread s4 = current_thread s"
    "critical_section_count s4 = critical_section_count s + 1"
    using wake_loop_ok [of s0 ?s2 "WQ_event e" _ NO_ERROR, OF _ _ refl] mid core cur by auto
  show ?thesis
    using one all mid core
    by (simp add: event_signal_def wait_queue_wake_all_def kthen_def run_frame_def Let_def)
qed

lemma thread_exit_ok:
  assumes inv: "kinv s" and ready: "some_ready s" and mem: "mem \<noteq> None"
  shows "\<exists>s'. thread_exit retcode mem s = Some (Switch [F_thread_exit] s') \<and>
    kswitch (set_frames [F_thread_exit] s') \<and> same_threads s s' \<and> t_state (cur s') = THREAD_DEATH"
proof -
  let ?c = "current_thread s"
  let ?f = "\<lambda>t. t\<lparr>t_state := THREAD_DEATH, t_retcode := retcode\<rparr>"
  let ?s2 = "upd_thr ?c ?f (enter_critical_section s)"
  let ?s3 = "(enter_critical_section ?s2)\<lparr>dpc_list := dpc_list s @ [\<lparr>dpc_cb = DPC_thread_cleanup, dpc_arg = ?c\<rparr>]\<rparr>"
  note c = kinv_current [OF inv]
  have core: "kcore {} ?s2"
    by (rule kcore_set_idle) (use c in \<open>auto simp: kcore_def [of "{}" s] prio_ok_def\<close>)
  have notin: "?c \<notin> set (cleanups (dpc_list s))"
    using c(2,5) by (auto simp: ksound_def dpc_ok_def)
  then have "dpc_ok ?s3" using c(1,5) by (auto simp: ksound_def dpc_ok_def cleanups_Cons)
  then have mid: "kmid s ?s3"
    using kmid_refl [OF inv] by (auto simp: kmid_def same_threads_def)
  obtain s4 where s4: "event_signal dpc_event False ?s3 = Some (Ret NO_ERROR s4)" "kmid s s4" "kcore {} s4"
    "cur s4 = cur ?s3" "current_thread s4 = ?c"
    using signal_mid [OF mid, of dpc_event] core by auto
  let ?s5 = "exit_critical_section s4"
  have dead: "t_state (cur ?s5) = THREAD_DEATH" using s4 by simp
  obtain t where t: "t \<in> set (thread_list s)" "t_state (thr s t) = THREAD_READY"
    using ready by (auto simp: some_ready_def)
  then have ne: "t \<noteq> ?c" using c(2) by auto
  have mid5: "kmid s ?s5" and core5: "kcore {} ?s5" using s4 by simp_all
  note k = kmid_sound [OF mid5 core5, of "[F_thread_exit]"]
  have "t_state (thr ?s5 t) = THREAD_READY" using t ne kmid_same [OF mid5] by (simp add: same_threads_def)
  moreover have "t_state (thr ?s5 u) \<noteq> THREAD_RUNNING" if "u \<in> set (thread_list ?s5)" for u
    using k(2) [OF _ that] dead by (cases "u = current_thread ?s5") auto
  ultimately have "kswitch (set_frames [F_thread_exit] ?s5)"
    using k(1) dead t kmid_same [OF mid5] by (auto simp: kswitch_def same_threads_def)
  then show ?thesis
    using s4 mem dead kmid_same [OF mid5]
    by (auto simp: thread_exit_def dpc_queue_def kthen_def run_frame_def Let_def)
qed

lemma enter_thread_list:
  "(enter_critical_section s)\<lparr>thread_list := l\<rparr> = enter_critical_section (s\<lparr>thread_list := l\<rparr>)"
  by (simp add: enter_critical_section_def Let_def)

text \<open>Freeing a dead thread: it is on no queue and has no timer, so taking it off the list is safe.\<close>

lemma kcore_forget:
  assumes core: "kcore {} s" and t: "t_state (thr s t) \<noteq> THREAD_READY" "t_state (thr s t) \<noteq> THREAD_BLOCKED"
  shows "kcore {} (s\<lparr>thread_list := remove1 t (thread_list s)\<rparr>)"
proof -
  let ?s = "s\<lparr>thread_list := remove1 t (thread_list s)\<rparr>"
  have tl: "set (thread_list ?s) = set (thread_list s) - {t}"
    using core by (simp add: kcore_def)
  have "ready_at {} ?s p = ready_at {} s p" "waiting_on {} ?s q = waiting_on {} s q" for p q
    using t tl by (auto simp: ready_at_def waiting_on_def)
  then show ?thesis
    using core tl by (simp add: kcore_def prio_ok_def rq_ok_def wq_ok_def)
qed

lemma thread_cleanup_ok:
  assumes inv: "kinv s" and t: "t_state (thr s t) = THREAD_DEATH" "t \<notin> set (cleanups (dpc_list s))"
  shows "kinv (snd (thread_cleanup_dpc t s))"
proof -
  let ?s = "s\<lparr>thread_list := remove1 t (thread_list s)\<rparr>"
  note c = kinv_current [OF inv]
  have ne: "t \<noteq> current_thread s" using c t by auto
  have tl: "set (thread_list ?s) = set (thread_list s) - {t}" using c(4) by (simp add: kcore_def)
  have no_timer: "Tstack t \<notin> set (timer_queue s)"
    using c(5) t by (auto simp: ksound_def tstack_ok_def tstack_at_def frames_ok_def timed_wait_def)
  have "tstack_at ?s u" if "Tstack u \<in> set (timer_queue s)" for u
    using c(5) that no_timer tl by (cases "u = t") (auto simp: ksound_def tstack_ok_def tstack_at_def)
  moreover have "frames_ok ?s" "dpc_ok ?s" "timer_inv ?s"
    using c(5) tl t by (auto simp: ksound_def frames_ok_def dpc_ok_def timer_inv_def)
  moreover have "kcore {} ?s" by (rule kcore_forget [OF c(4)]) (simp_all add: t)
  ultimately have "ksound ?s" using c(1) ne tl by (simp add: ksound_def tstack_ok_def)
  moreover have "running_ok ?s"
    using inv tl ne t unfolding kinv_def running_ok_def by auto
  ultimately have "kinv ?s" using c(3) by (simp add: kinv_def)
  moreover have "snd (thread_cleanup_dpc t s) =
      exit_critical_section ((enter_critical_section s)\<lparr>thread_list := remove1 t (thread_list s)\<rparr>)"
    by (simp add: thread_cleanup_dpc_def Let_def)
  ultimately show ?thesis by (simp add: enter_thread_list)
qed

text \<open>A turn of the dpc thread that takes a call off the list and, for a dead thread, frees it.\<close>

lemma dpc_thread_next_ok:
  assumes inv: "kinv s" and nxt: "dpc_thread_next s = Some (d, s')"
  shows "kinv s'" and "thread_list s' = thread_list s"
    and "\<And>x. d = Some x \<Longrightarrow> dpc_cb x = DPC_thread_cleanup \<Longrightarrow>
      dpc_arg x \<in> set (thread_list s) \<and> t_state (thr s' (dpc_arg x)) = THREAD_DEATH \<and>
      dpc_arg x \<notin> set (cleanups (dpc_list s'))"
proof -
  note c = kinv_current [OF inv]
  have dpc: "dpc_ok s" using c(5) by (simp add: ksound_def)
  show "kinv s'"
  proof (cases "dpc_list s")
    case (Cons x ds)
    have "dpc_ok ((enter_critical_section s)\<lparr>dpc_list := ds\<rparr>)"
      using dpc Cons by (auto simp: dpc_ok_def cleanups_Cons split: if_splits)
    moreover have "kinv (enter_critical_section s)" using inv by simp
    ultimately have "kinv ((enter_critical_section s)\<lparr>dpc_list := ds\<rparr>)" by (rule kinv_dpc_list [rotated])
    then show ?thesis using nxt Cons by (auto simp: dpc_thread_next_def Let_def)
  qed (use inv nxt in \<open>auto simp: dpc_thread_next_def event_unsignal_def Let_def\<close>)
  show "thread_list s' = thread_list s"
    using nxt by (auto simp: dpc_thread_next_def event_unsignal_def Let_def split: list.splits)
  show "dpc_arg x \<in> set (thread_list s) \<and> t_state (thr s' (dpc_arg x)) = THREAD_DEATH \<and>
      dpc_arg x \<notin> set (cleanups (dpc_list s'))" if "d = Some x" "dpc_cb x = DPC_thread_cleanup" for x
    using dpc that nxt
    by (auto simp: dpc_thread_next_def event_unsignal_def Let_def dpc_ok_def cleanups_Cons split: list.splits)
qed

end
