(* ===== verification/LK_Tick.thy ===== *)
theory LK_Tick
  imports LK_Dpc
begin

text \<open>
  The timer interrupt: \<^verbatim>\<open>timer_tick\<close> of \<^verbatim>\<open>kernel/timer.c\<close>, which fires the timers that are
  due and lets the scheduler count down the quantum, and the exception entry \<^verbatim>\<open>arm_irq\<close> of
  \<^verbatim>\<open>arch/arm/exceptions.S\<close>, which preempts the interrupted thread. The callback of a driver's timer
  is a parameter, with the locale \<open>timer_driver\<close> as its contract. The loop over the due timers need
  not end, so it is a partial function; \<open>timer_tick_ok\<close> shows that it does end under the contract.
\<close>

type_synonym timer_driver_fun =
  "nat \<Rightarrow> timer_id \<Rightarrow> u32 \<Rightarrow> nat \<Rightarrow> kernel \<Rightarrow> (handler_return \<times> kernel) option"

text \<open>\<open>timer->callback(timer, now, timer->arg)\<close>\<close>

definition timer_call :: "timer_driver_fun \<Rightarrow> u32 \<Rightarrow> timer_id \<Rightarrow> kernel \<Rightarrow> (handler_return \<times> kernel) option" where
  "timer_call driver now i s =
     (case tm_callback (tms s i) of
        CB_none \<Rightarrow> None
      | CB_thread_sleep_handler \<Rightarrow> thread_sleep_handler (tm_arg (tms s i)) s
      | CB_wait_queue_timeout_handler \<Rightarrow> wait_queue_timeout_handler (tm_arg (tms s i)) s
      | CB_driver n \<Rightarrow> driver n i now (tm_arg (tms s i)) s)"

text \<open>One turn of the loop of \<open>timer_tick\<close>, for the timer \<open>i\<close> at the head of the queue.\<close>

definition timer_fire :: "timer_driver_fun \<Rightarrow> u32 \<Rightarrow> timer_id \<Rightarrow> kernel \<Rightarrow> (handler_return \<times> kernel) option" where
  "timer_fire driver now i s =
     (let s1 = timer_unlink i s;
          periodic = tm_periodic_time (tms s1 i) > 0
      in do {
           (h, s2) \<leftarrow> timer_call driver now i s1;
           let s3 = (if periodic \<and> \<not> tm_linked (tms s2 i) \<and> tm_periodic_time (tms s2 i) > 0
                     then insert_timer_in_queue i
                            (upd_tm i (\<lambda>t. t\<lparr>tm_scheduled_time := now + tm_periodic_time t\<rparr>) s2)
                     else s2)
           in Some (h, s3) })"

partial_function (option) timer_loop ::
  "timer_driver_fun \<Rightarrow> u32 \<Rightarrow> handler_return \<Rightarrow> kernel \<Rightarrow> (handler_return \<times> kernel) option" where
  "timer_loop driver now ret s =
     (case timer_queue s of
        [] \<Rightarrow> Some (ret, s)
      | i # _ \<Rightarrow>
          if TIME_LT now (tm_scheduled_time (tms s i)) then Some (ret, s)
          else do {
            (h, s') \<leftarrow> timer_fire driver now i s;
            timer_loop driver now (if h = INT_RESCHEDULE then INT_RESCHEDULE else ret) s' })"

text \<open>The result of the loop is dropped: \<open>// XXX fix this, should return ret\<close>.\<close>

definition timer_tick :: "timer_driver_fun \<Rightarrow> u32 \<Rightarrow> kernel \<Rightarrow> (handler_return \<times> kernel) option" where
  "timer_tick driver now s = do {
     (ret, s1) \<leftarrow> timer_loop driver now INT_NO_RESCHEDULE s;
     let (h, s2) = thread_timer_tick s1;
         ret = (if h = INT_RESCHEDULE then INT_RESCHEDULE else ret)
     in Some (INT_RESCHEDULE, s2) }"

text \<open>
  A timer interrupt at time \<open>now\<close>, from the exception entry to the return into the interrupted
  code: the processor masks interrupts, the entry counts a critical section, the platform's
  handler runs \<open>timer_tick\<close>, and a nonzero result preempts the thread.
\<close>

definition arm_irq :: "timer_driver_fun \<Rightarrow> u32 \<Rightarrow> kop" where
  "arm_irq driver now s =
     (let s1 = inc_critical_section (s\<lparr>ints_enabled := False, clock := now\<rparr>)
      in do {
           (h, s2) \<leftarrow> timer_tick driver now s1;
           if h \<noteq> INT_NO_RESCHEDULE then kthen (thread_preempt s2) F_arm_irq
           else kthen (Some (Ret 0 s2)) F_arm_irq })"

subsection \<open>Changes that concern only the timers\<close>

lemma kinv_timers:
  assumes inv: "kinv s"
    and same: "thr s' = thr s" "thread_list s' = thread_list s" "current_thread s' = current_thread s"
      "run_queue s' = run_queue s" "run_queue_bitmap s' = run_queue_bitmap s" "wqs s' = wqs s"
      "dpc_list s' = dpc_list s"
    and ti: "timer_inv s'"
    and stk: "\<And>t. Tstack t \<in> set (timer_queue s') \<Longrightarrow> Tstack t \<in> set (timer_queue s) \<and>
      tm_arg (tms s' (Tstack t)) = tm_arg (tms s (Tstack t)) \<and>
      tm_callback (tms s' (Tstack t)) = tm_callback (tms s (Tstack t))"
  shows "kinv s'"
proof -
  have "tstack_at s' t" if "Tstack t \<in> set (timer_queue s')" for t
    using kinv_current(5) [OF inv] stk [OF that] same by (simp add: ksound_def tstack_ok_def tstack_at_def)
  moreover have "kcore {} s' = kcore {} s" by (rule kcore_cong_thr) (simp_all add: same)
  ultimately show ?thesis
    using inv ti by (simp add: kinv_def ksound_def running_ok_def frames_ok_def tstack_ok_def dpc_ok_def same)
qed

lemma timer_unlink_tms [simp]:
  "tms (timer_unlink i s) = (tms s)(i := (tms s i)\<lparr>tm_linked := False\<rparr>)"
  "timer_queue (timer_unlink i s) = remove1 i (timer_queue s)"
  by (simp_all add: timer_unlink_def)

lemma kinv_timer_unlink:
  assumes inv: "kinv s"
  shows "kinv (timer_unlink i s)" "i \<notin> set (timer_queue (timer_unlink i s))"
proof -
  show "kinv (timer_unlink i s)"
    by (rule kinv_timers [OF inv]) (use timer_inv_unlink [OF kinv_current(6) [OF inv]] in
        \<open>auto dest: notin_set_remove1 [THEN contrapos_nn] set_remove1_subset [THEN subsetD]\<close>)
  show "i \<notin> set (timer_queue (timer_unlink i s))"
    using kinv_current(6) [OF inv] by (simp add: timer_inv_def)
qed

lemma kinv_timer_insert:
  assumes inv: "kinv s" and i: "Tobject n \<notin> set (timer_queue s)" "timer_sane (Tobject n) (f (tms s (Tobject n)))"
    and f: "tm_linked (f (tms s (Tobject n))) = tm_linked (tms s (Tobject n))"
  shows "kinv (insert_timer_in_queue (Tobject n) (upd_tm (Tobject n) f s))"
proof (rule kinv_timers [OF inv])
  have "timer_inv (upd_tm (Tobject n) f s)"
    by (rule timer_inv_upd_tm [OF kinv_current(6) [OF inv]]) (simp_all add: i f)
  then show "timer_inv (insert_timer_in_queue (Tobject n) (upd_tm (Tobject n) f s))"
    by (rule timer_inv_insert) (simp_all add: i)
qed auto

subsection \<open>The handlers of the kernel's own timers\<close>

text \<open>What firing timer \<open>i\<close> does: every other timer is untouched, and \<open>i\<close> is queued again only for later.\<close>

definition fired :: "u32 \<Rightarrow> timer_id \<Rightarrow> kernel \<Rightarrow> kernel \<Rightarrow> bool" where
  "fired now i s s' \<longleftrightarrow> kinv s' \<and> same_threads s s' \<and> clock s' = clock s \<and>
     (\<forall>j. j \<noteq> i \<longrightarrow> tms s' j = tms s j \<and> (j \<in> set (timer_queue s') \<longleftrightarrow> j \<in> set (timer_queue s))) \<and>
     (i \<in> set (timer_queue s') \<longrightarrow> TIME_LT now (tm_scheduled_time (tms s' i)))"

lemma sleep_handler_ok:
  assumes inv: "kinv s" and t: "t \<in> set (thread_list s)" "t_state (thr s t) = THREAD_SLEEPING"
    and timer: "Tstack t \<notin> set (timer_queue s)"
  shows "\<exists>s'. thread_sleep_handler t s = Some (INT_RESCHEDULE, s') \<and> kinv s' \<and> same_threads s s' \<and>
    timer_queue s' = timer_queue s \<and> tms s' = tms s \<and> clock s' = clock s \<and>
    critical_section_count s' = critical_section_count s"
proof -
  let ?u = "upd_thr t (\<lambda>x. x\<lparr>t_state := THREAD_READY\<rparr>) s"
  note c = kinv_current [OF inv]
  have ne: "t \<noteq> current_thread s" using t c by auto
  have det: "kcore {t} ?u"
    using kcore_detach [OF c(4), of t "\<lambda>x. x\<lparr>t_state := THREAD_READY\<rparr>"] t c(4)
    by (simp add: kcore_def [of "{}" s] prio_ok_def)
  have mid: "kmid s ?u"
    using kmid_refl [OF inv] t ne timer by (auto simp: kmid_def same_threads_def intro!: dpc_ok_upd_thr)
  obtain s' where s': "insert_in_run_queue_head t ?u = Some s'" "kcore {} s'" "kmid s s'"
    "thr s' = thr ?u" "current_thread s' = current_thread ?u"
    "critical_section_count s' = critical_section_count ?u"
    by (rule enqueue_woken [OF mid det]) (use t in simp_all)
  have "kinv s'" by (rule kmid_return [OF s'(3,2)]) (use s' ne c in simp)
  then show ?thesis
    using s' kmid_same [OF s'(3)] insert_head_Some [OF s'(1)] by (simp add: thread_sleep_handler_def)
qed

lemma thread_unblock_timers:
  assumes "thread_unblock_from_wait_queue t False err s = Some x"
  shows "timer_queue (kout_state x) = timer_queue s" "tms (kout_state x) = tms s"
    "clock (kout_state x) = clock s"
  using assms
  by (auto simp: thread_unblock_from_wait_queue_def Let_def bind_eq_Some_conv insert_head_Some
      split: if_splits option.splits)

text \<open>
  The timeout of a wait. If the thread is no longer blocked, the critical section entered by
  \<open>thread_unblock_from_wait_queue\<close> is never left.
\<close>

lemma timeout_handler_ok:
  assumes inv: "kinv s" and t: "t \<in> set (thread_list s)"
  shows "\<exists>h s'. wait_queue_timeout_handler t s = Some (h, s') \<and> kinv s' \<and> same_threads s s' \<and>
    timer_queue s' = timer_queue s \<and> tms s' = tms s \<and> clock s' = clock s \<and>
    critical_section_count s' = critical_section_count s +
      (if t_state (thr s t) = THREAD_BLOCKED then 0 else 1)"
proof (cases "t_state (thr s t) = THREAD_BLOCKED")
  case True
  then have "unblockable t s" using t by (simp add: unblockable_def)
  then obtain s' where s': "thread_unblock_from_wait_queue t False ERR_TIMED_OUT s = Some (Ret NO_ERROR s')"
    and ok: "kop_ok (critical_section_count s) s (Ret NO_ERROR s')"
    using thread_unblock_ok [OF inv] by blast
  show ?thesis
    using True s' ok thread_unblock_timers [OF s'] by (simp add: wait_queue_timeout_handler_def)
next
  case False
  then show ?thesis
    using inv by (simp add: wait_queue_timeout_handler_def thread_unblock_from_wait_queue_def Let_def)
qed

subsection \<open>The contract of a driver's timer callback\<close>

lemma kinv_quantum:
  "kinv (upd_thr t (\<lambda>x. x\<lparr>remaining_quantum := f x\<rparr>) s) = kinv s"
proof -
  have "t_state (((thr s)(t := (thr s t)\<lparr>remaining_quantum := q\<rparr>)) u) = t_state (thr s u)"
    "t_frames (((thr s)(t := (thr s t)\<lparr>remaining_quantum := q\<rparr>)) u) = t_frames (thr s u)" for u q
    by simp_all
  then show ?thesis
    by (simp add: kinv_def ksound_def running_ok_def kcore_upd_thr_same frames_ok_def tstack_ok_def
        tstack_at_def timer_inv_def dpc_ok_def del: fun_upd_apply)
qed

definition due :: "u32 \<Rightarrow> kernel \<Rightarrow> timer_id set" where
  "due now s = {i \<in> set (timer_queue s). \<not> TIME_LT now (tm_scheduled_time (tms s i))}"

locale timer_driver =
  fixes driver :: timer_driver_fun
  assumes driver_contract: "kinv s \<Longrightarrow> clock s = now \<Longrightarrow> Tobject k \<notin> set (timer_queue s) \<Longrightarrow>
    timer_sane (Tobject k) (tms s (Tobject k)) \<Longrightarrow> tm_callback (tms s (Tobject k)) = CB_driver n \<Longrightarrow>
    \<exists>h s'. driver n (Tobject k) now a s = Some (h, s') \<and> fired now (Tobject k) s s' \<and>
      critical_section_count s' = critical_section_count s \<and>
      timer_sane (Tobject k) (tms s' (Tobject k))"
begin

lemma timer_fire_stack:
  assumes inv: "kinv s" and i: "Tstack t \<in> set (timer_queue s)"
  shows "\<exists>h s'. timer_fire driver now (Tstack t) s = Some (h, s') \<and> fired now (Tstack t) s s' \<and>
    critical_section_count s' = critical_section_count s +
      (if tm_callback (tms s (Tstack t)) = CB_wait_queue_timeout_handler \<and>
          t_state (thr s t) \<noteq> THREAD_BLOCKED then 1 else 0)"
proof -
  let ?s = "timer_unlink (Tstack t) s"
  note u = kinv_timer_unlink [OF inv, of "Tstack t"]
  have sane: "tm_periodic_time (tms s (Tstack t)) = 0"
    using kinv_current(6) [OF inv] i by (auto simp: timer_inv_def timer_sane_def)
  have at: "tstack_at s t" using kinv_current(5) [OF inv] i by (simp add: ksound_def tstack_ok_def)
  then have t: "t \<in> set (thread_list ?s)" and arg: "tm_arg (tms ?s (Tstack t)) = t"
    by (simp_all add: tstack_at_def)
  have same: "same_threads s ?s" by (simp add: same_threads_def)
  have other: "j \<in> set (remove1 (Tstack t) (timer_queue s)) \<longleftrightarrow> j \<in> set (timer_queue s)" if "j \<noteq> Tstack t" for j
    using that by simp
  from at consider (sleep) "tm_callback (tms s (Tstack t)) = CB_thread_sleep_handler" "t_state (thr s t) = THREAD_SLEEPING"
    | (timeout) "tm_callback (tms s (Tstack t)) = CB_wait_queue_timeout_handler"
    by (auto simp: tstack_at_def)
  then show ?thesis
  proof cases
    case sleep
    obtain s' where "thread_sleep_handler t ?s = Some (INT_RESCHEDULE, s')" "kinv s'" "same_threads ?s s'"
      "timer_queue s' = timer_queue ?s" "tms s' = tms ?s" "clock s' = clock ?s"
      "critical_section_count s' = critical_section_count ?s"
      using sleep_handler_ok [OF u(1) t _ u(2)] sleep by auto
    then show ?thesis
      using sleep arg sane u(2) other same_threads_trans [OF same]
      by (simp add: timer_fire_def timer_call_def Let_def fired_def)
  next
    case timeout
    obtain h s' where "wait_queue_timeout_handler t ?s = Some (h, s')" "kinv s'" "same_threads ?s s'"
      "timer_queue s' = timer_queue ?s" "tms s' = tms ?s" "clock s' = clock ?s"
      "critical_section_count s' = critical_section_count ?s +
        (if t_state (thr ?s t) = THREAD_BLOCKED then 0 else 1)"
      using timeout_handler_ok [OF u(1) t] by blast
    then show ?thesis
      using timeout arg sane u(2) other same_threads_trans [OF same]
      by (simp add: timer_fire_def timer_call_def Let_def fired_def)
  qed
qed

lemma timer_fire_stack_gone:
  assumes inv: "kinv s" and i: "Tstack t \<in> set (timer_queue s)"
    and fire: "timer_fire driver now (Tstack t) s = Some (h, s')"
  shows "Tstack t \<notin> set (timer_queue s')"
proof -
  let ?s = "timer_unlink (Tstack t) s"
  note u = kinv_timer_unlink [OF inv, of "Tstack t"]
  have sane: "tm_periodic_time (tms s (Tstack t)) = 0"
    using kinv_current(6) [OF inv] i by (auto simp: timer_inv_def timer_sane_def)
  have at: "tstack_at s t" using kinv_current(5) [OF inv] i by (simp add: ksound_def tstack_ok_def)
  then have t: "t \<in> set (thread_list ?s)" and arg: "tm_arg (tms s (Tstack t)) = t"
    by (simp_all add: tstack_at_def)
  have call: "timer_call driver now (Tstack t) ?s = Some (h, s')"
    using fire sane by (auto simp: timer_fire_def Let_def bind_eq_Some_conv)
  have "timer_queue s' = timer_queue ?s"
    using at call sleep_handler_ok [OF u(1) t _ u(2)] timeout_handler_ok [OF u(1) t] arg
    by (auto simp: tstack_at_def timer_call_def)
  then show ?thesis using u(2) by simp
qed

lemma timer_fire_object:
  assumes inv: "kinv s" and i: "Tobject k \<in> set (timer_queue s)" and now: "clock s = now"
  shows "\<exists>h s'. timer_fire driver now (Tobject k) s = Some (h, s') \<and> fired now (Tobject k) s s' \<and>
    critical_section_count s' = critical_section_count s"
proof -
  let ?i = "Tobject k"
  let ?s = "timer_unlink ?i s"
  let ?f = "\<lambda>t. t\<lparr>tm_scheduled_time := now + tm_periodic_time t\<rparr>"
  note u = kinv_timer_unlink [OF inv, of ?i]
  have sane: "timer_sane ?i (tms s ?i)" using kinv_current(6) [OF inv] i by (simp add: timer_inv_def)
  then obtain n where n: "tm_callback (tms s ?i) = CB_driver n"
    by (auto simp: timer_sane_def split: timer_callback.splits)
  obtain h s2 where d: "driver n ?i now (tm_arg (tms s ?i)) ?s = Some (h, s2)" and fd: "fired now ?i ?s s2"
    and cs: "critical_section_count s2 = critical_section_count ?s" and sane2: "timer_sane ?i (tms s2 ?i)"
    using driver_contract [OF u(1) _ u(2), of now n "tm_arg (tms s ?i)"] sane n now by auto
  have fd': "fired now ?i s s2"
    using fd by (simp add: fired_def same_threads_def)
  let ?p = "tm_periodic_time (tms s2 ?i)"
  show ?thesis
  proof (cases "tm_periodic_time (tms s ?i) > 0 \<and> \<not> tm_linked (tms s2 ?i) \<and> ?p > 0")
    case False
    then show ?thesis
      using d n fd' cs by (auto simp: timer_fire_def timer_call_def Let_def)
  next
    case True
    have inv2: "kinv s2" using fd by (simp add: fired_def)
    have free: "?i \<notin> set (timer_queue s2)"
      using True kinv_current(6) [OF inv2] by (simp add: timer_inv_def)
    have "kinv (insert_timer_in_queue ?i (upd_tm ?i ?f s2))"
      by (rule kinv_timer_insert [OF inv2 free]) (simp_all add: sane2)
    moreover have "TIME_LT now (now + ?p)"
      by (rule TIME_LT_ahead) (use True sane2 in \<open>simp_all add: timer_sane_def\<close>)
    ultimately have "fired now ?i s (insert_timer_in_queue ?i (upd_tm ?i ?f s2))"
      using fd' by (simp add: fired_def same_threads_def)
    then show ?thesis
      using d n cs True by (simp add: timer_fire_def timer_call_def Let_def)
  qed
qed

lemma timer_fire_ok:
  assumes "kinv s" and "i \<in> set (timer_queue s)" and "clock s = now"
  obtains h s' where "timer_fire driver now i s = Some (h, s')" and "fired now i s s'"
  using timer_fire_stack [OF assms(1), of _ now] timer_fire_object [OF assms(1) _ assms(3)] assms(2)
  by (cases i) blast+

text \<open>The loop ends: every turn takes one timer out of those that are due.\<close>

lemma timer_loop_ok:
  assumes "kinv s" and "clock s = now"
  shows "\<exists>ret' s'. timer_loop driver now ret s = Some (ret', s') \<and> kinv s' \<and> same_threads s s' \<and>
    clock s' = now \<and>
    (timer_queue s' = [] \<or> TIME_LT now (tm_scheduled_time (tms s' (hd (timer_queue s')))))"
  using assms
proof (induction "card (due now s)" arbitrary: s ret rule: less_induct)
  case less
  show ?case
  proof (cases "timer_queue s = [] \<or> TIME_LT now (tm_scheduled_time (tms s (hd (timer_queue s))))")
    case True
    then show ?thesis
      using less.prems by (subst timer_loop.simps) (auto simp: same_threads_def split: list.splits)
  next
    case False
    then obtain i q where q: "timer_queue s = i # q" and i: "i \<in> due now s"
      by (cases "timer_queue s") (auto simp: due_def)
    obtain h s1 where fire: "timer_fire driver now i s = Some (h, s1)" and fd: "fired now i s s1"
      using timer_fire_ok [OF less.prems(1), of i] less.prems(2) q by auto
    have "due now s1 = due now s - {i}" using fd by (auto simp: due_def fired_def)
    then have "card (due now s1) < card (due now s)"
      using i card_Diff1_less [of "due now s" i] by (simp add: due_def [of now s])
    moreover have "kinv s1" "clock s1 = now" "same_threads s s1" using fd less.prems by (simp_all add: fired_def)
    ultimately show ?thesis
      using less.hyps [of s1 "if h = INT_RESCHEDULE then INT_RESCHEDULE else ret"] q fire False
        same_threads_trans [of s s1]
      by (subst timer_loop.simps) auto
  qed
qed

lemma timer_tick_ok:
  assumes inv: "kinv s" and now: "clock s = now"
  shows "\<exists>s'. timer_tick driver now s = Some (INT_RESCHEDULE, s') \<and> kinv s' \<and> same_threads s s' \<and>
    (timer_queue s' = [] \<or> TIME_LT now (tm_scheduled_time (tms s' (hd (timer_queue s')))))"
proof -
  obtain r s1 where s1: "timer_loop driver now INT_NO_RESCHEDULE s = Some (r, s1)" "kinv s1" "same_threads s s1"
    "timer_queue s1 = [] \<or> TIME_LT now (tm_scheduled_time (tms s1 (hd (timer_queue s1))))"
    using timer_loop_ok [OF assms] by blast
  have "kinv (snd (thread_timer_tick s1)) \<and> same_threads s1 (snd (thread_timer_tick s1)) \<and>
      timer_queue (snd (thread_timer_tick s1)) = timer_queue s1 \<and> tms (snd (thread_timer_tick s1)) = tms s1"
    using s1(2) by (simp add: thread_timer_tick_def Let_def kinv_quantum same_threads_def)
  then show ?thesis
    using s1 same_threads_trans [OF s1(3)] by (auto simp: timer_tick_def Let_def split: prod.splits)
qed

text \<open>A timer interrupt comes back to some thread's code, and no thread that could run is lost.\<close>

lemma arm_irq_ok:
  assumes inv: "kinv s"
  shows "\<exists>s'. kcall (arm_irq driver now) s = Some s' \<and> kinv s' \<and> thread_list s' = thread_list s \<and>
    idle_thread s' = idle_thread s \<and> (\<forall>t \<in> set (thread_list s). live s t \<longrightarrow> live s' t)"
proof -
  let ?s1 = "inc_critical_section (s\<lparr>ints_enabled := False, clock := now\<rparr>)"
  have "kinv ?s1" by (rule kinv_timers [OF inv])
      (use kinv_current(6) [OF inv] in \<open>simp_all add: inc_critical_section_def timer_inv_def\<close>)
  then obtain s2 where s2: "timer_tick driver now ?s1 = Some (INT_RESCHEDULE, s2)" "kinv s2" "same_threads ?s1 s2"
    using timer_tick_ok [of ?s1 now] by (auto simp: inc_critical_section_def)
  then have same: "same_threads s s2" by (simp add: inc_critical_section_def same_threads_def)
  obtain x where x: "thread_preempt s2 = Some x" and ok: "kop_ok (critical_section_count s2) s2 x"
    using thread_preempt_ok [OF s2(2)] by blast
  obtain y where y: "kthen (Some x) F_arm_irq = Some y"
    and oky: "kop_ok (critical_section_count s2 - exits F_arm_irq) s2 y"
    using kthen_ok [OF ok, of F_arm_irq] by blast
  have op: "arm_irq driver now s = Some y" using s2(1) x y by (simp add: arm_irq_def)
  have cur: "live (kout_state y) (current_thread s2)"
    by (rule kthen_liveI [OF y]) (use thread_preempt_live [of s2] x in auto)
  obtain s' where s': "kcall (arm_irq driver now) s = Some s'" "kinv s'" "thread_list s' = thread_list s2"
    "idle_thread s' = idle_thread s2" "\<And>t. live (kout_state y) t \<Longrightarrow> live s' t"
    using kop_ok_call [of "arm_irq driver now" s, OF op oky] by metis
  have "live s' t" if "t \<in> set (thread_list s)" "live s t" for t
  proof (cases "t = current_thread s")
    case True
    then show ?thesis using s'(5) cur same by (simp add: same_threads_def)
  next
    case False
    then have "live s2 t" using live_other [OF inv same] that by blast
    then show ?thesis
      using s'(5) live_other [OF s2(2) kop_ok_same [OF oky]] that False same by (simp add: same_threads_def)
  qed
  then show ?thesis using s' same by (auto simp: same_threads_def)
qed

end

end
