(* ===== verification/LK_Keys.thy ===== *)
theory LK_Keys
  imports LK_Tick
begin

unbundle bit_operations_syntax

text \<open>
  The key table (\<^verbatim>\<open>dev/keys/keys.c\<close>) and the matrix keypad driver
  (\<^verbatim>\<open>dev/keys/gpio_keypad.c\<close>), whose timer callback is an instance of the contract
  \<open>timer_driver\<close>: it re-arms its own timer and signals an event. The bitmap functions are those of
  \<^verbatim>\<open>include/bits.h\<close>. Reading a pin (\<open>gpio_get\<close>) is a parameter; the writes to pins are collected
  in a list. The keypad of the qsd8k board (\<^verbatim>\<open>target/surf-qsd8k/keypad.c\<close>) is the instance.
\<close>

subsection \<open>Bitmaps (include/bits.h)\<close>

definition bitmap_set :: "u32 list \<Rightarrow> nat \<Rightarrow> bool \<times> u32 list" where
  "bitmap_set bitmap b =
     (let mask = push_bit (b mod 32) 1; old = bitmap ! (b div 32)
      in (old AND mask \<noteq> 0, bitmap[b div 32 := old OR mask]))"

definition bitmap_clear :: "u32 list \<Rightarrow> nat \<Rightarrow> bool \<times> u32 list" where
  "bitmap_clear bitmap b =
     (let mask = push_bit (b mod 32) 1; old = bitmap ! (b div 32)
      in (old AND mask \<noteq> 0, bitmap[b div 32 := old AND NOT mask]))"

definition bitmap_test :: "u32 list \<Rightarrow> nat \<Rightarrow> bool" where
  "bitmap_test bitmap b = (bitmap ! (b div 32) AND push_bit (b mod 32) 1 \<noteq> 0)"

abbreviation (input) BITMAP_NUM_WORDS :: "nat \<Rightarrow> nat" where "BITMAP_NUM_WORDS x \<equiv> x div 32 + 1"

subsection \<open>The key table (dev/keys/keys.c)\<close>

abbreviation (input) MAX_KEYS :: nat where "MAX_KEYS \<equiv> 0x1ff"

definition keys_init :: "u32 list" where
  "keys_init = replicate (BITMAP_NUM_WORDS MAX_KEYS) 0"

definition keys_post_event :: "u16 \<Rightarrow> int \<Rightarrow> u32 list \<Rightarrow> u32 list" where
  "keys_post_event code val key_bitmap =
     (if unat code \<ge> MAX_KEYS then key_bitmap
      else if val \<noteq> 0 then snd (bitmap_set key_bitmap (unat code))
      else snd (bitmap_clear key_bitmap (unat code)))"

definition keys_get_state :: "u16 \<Rightarrow> u32 list \<Rightarrow> int" where
  "keys_get_state code key_bitmap =
     (if unat code \<ge> MAX_KEYS then - 1
      else if bitmap_test key_bitmap (unat code) then 1 else 0)"

subsection \<open>The matrix keypad (dev/keys/gpio_keypad.c)\<close>

abbreviation (input) GPIOKPF_ACTIVE_HIGH :: u32 where "GPIOKPF_ACTIVE_HIGH \<equiv> 1"
abbreviation (input) GPIOKPF_DRIVE_INACTIVE :: u32 where "GPIOKPF_DRIVE_INACTIVE \<equiv> 2"

record gpio_keypad_info =
  keymap :: "u16 list"
  input_gpios :: "nat list"
  output_gpios :: "nat list"
  ninputs :: nat
  noutputs :: nat
  settle_time :: u32
  poll_time :: u32
  kp_flags :: u32

record gpio_kp =
  current_output :: nat
  some_keys_pressed :: nat
  keys_pressed :: "u32 list"

datatype gpio_direction = GPIO_INPUT | GPIO_OUTPUT | GPIO_ZERO

datatype gpio_write = Gpio_set nat bool | Gpio_config nat gpio_direction

text \<open>One turn of the loop of \<open>check_output\<close>, for input \<open>i\<close>.\<close>

definition check_input ::
  "gpio_keypad_info \<Rightarrow> (nat \<Rightarrow> u32) \<Rightarrow> nat \<Rightarrow> bool \<Rightarrow> nat \<Rightarrow> gpio_kp \<times> u32 list \<Rightarrow> gpio_kp \<times> u32 list" where
  "check_input info gpio_get out polarity i = (\<lambda>(kp, key_bitmap).
     let key_index = out * ninputs info + i;
         gpio = input_gpios info ! i;
         (kp1, changed) =
           (if gpio_get gpio XOR (if polarity then 0 else 1) \<noteq> 0
            then let kp0 = (if some_keys_pressed kp < 3
                            then kp\<lparr>some_keys_pressed := some_keys_pressed kp + 1\<rparr> else kp);
                     (was, pressed) = bitmap_set (keys_pressed kp0) key_index
                 in (kp0\<lparr>keys_pressed := pressed\<rparr>, \<not> was)
            else let (was, pressed) = bitmap_clear (keys_pressed kp) key_index
                 in (kp\<lparr>keys_pressed := pressed\<rparr>, was))
     in if changed
        then (kp1, keys_post_event (keymap info ! key_index)
                     (if bitmap_test (keys_pressed kp1) key_index then 1 else 0) key_bitmap)
        else (kp1, key_bitmap))"

definition check_output ::
  "gpio_keypad_info \<Rightarrow> (nat \<Rightarrow> u32) \<Rightarrow> gpio_kp \<times> u32 list \<Rightarrow> nat \<Rightarrow> bool \<Rightarrow>
     (gpio_kp \<times> u32 list) \<times> gpio_write list" where
  "check_output info gpio_get st out polarity =
     (fold (check_input info gpio_get out polarity) [0..<ninputs info] st,
      let gpio = output_gpios info ! out in
      if kp_flags info AND GPIOKPF_DRIVE_INACTIVE \<noteq> 0 then [Gpio_set gpio (\<not> polarity)]
      else [Gpio_config gpio GPIO_INPUT])"

text \<open>
  The timer callback. \<open>ev\<close> is the event \<open>full_scan\<close>, \<open>n\<close> the number that stands for the callback
  itself. Events are signalled without a reschedule, so \<open>event_signal\<close> returns.
\<close>

definition gpio_keypad_timer_func ::
  "gpio_keypad_info \<Rightarrow> (nat \<Rightarrow> u32) \<Rightarrow> nat \<Rightarrow> gpio_kp \<times> u32 list \<Rightarrow> nat \<Rightarrow> timer_id \<Rightarrow> kernel \<Rightarrow>
     (handler_return \<times> (gpio_kp \<times> u32 list) \<times> gpio_write list \<times> kernel) option" where
  "gpio_keypad_timer_func info gpio_get ev st n timer s =
     (let polarity = (kp_flags info AND GPIOKPF_ACTIVE_HIGH \<noteq> 0);
          kp = fst st;
          (out, st1, w1) =
            (if current_output kp = noutputs info
             then (0, (kp\<lparr>some_keys_pressed := 0\<rparr>, snd st), [])
             else let (st', w) = check_output info gpio_get st (current_output kp) polarity
                  in (current_output kp + 1, st', w));
          st2 = ((fst st1)\<lparr>current_output := out\<rparr>, snd st1)
      in if out < noutputs info
         then let gpio = output_gpios info ! out;
                  w2 = (if kp_flags info AND GPIOKPF_DRIVE_INACTIVE \<noteq> 0 then [Gpio_set gpio polarity]
                        else [Gpio_config gpio (if polarity then GPIO_OUTPUT else GPIO_ZERO)])
              in do { s1 \<leftarrow> timer_set_oneshot timer (settle_time info) (CB_driver n) 0 s;
                      Some (INT_RESCHEDULE, st2, w1 @ w2, s1) }
         else do { x \<leftarrow> event_signal ev False s;
                   s1 \<leftarrow> timer_set_oneshot timer (poll_time info) (CB_driver n) 0 (kout_state x);
                   Some (INT_RESCHEDULE, st2, w1, s1) })"

text \<open>The effect of the callback on the kernel, for a keypad in scan state \<open>st\<close>.\<close>

definition keypad_driver ::
  "gpio_keypad_info \<Rightarrow> (nat \<Rightarrow> u32) \<Rightarrow> nat \<Rightarrow> gpio_kp \<times> u32 list \<Rightarrow> timer_driver_fun" where
  "keypad_driver info gpio_get ev st n timer now arg s =
     map_option (\<lambda>(h, _, _, s'). (h, s')) (gpio_keypad_timer_func info gpio_get ev st n timer s)"

text \<open>The keypad of the qsd8k board.\<close>

definition halibut_keymap :: "u16 list" where
  "halibut_keymap =
     [0x35, 0x39, 0x11a, 0x36, 0x110,
      0x30, 0x111, 0x31, 0x11d, 0x120,
      0x115, 0x122, 0x108, 0x106, 0x107,
      0x112, 0x121, 0x34, 0x117, 0x32,
      0x11b, 0x114, 0x113, 0x123, 0x38,
      0x116, 0x11c, 0x11e, 0x33, 0x37]"

definition halibut_keypad_info :: gpio_keypad_info where
  "halibut_keypad_info =
     \<lparr>keymap = halibut_keymap, input_gpios = [36, 37, 38, 39, 40],
      output_gpios = [31, 32, 33, 34, 35, 41], ninputs = 5, noutputs = 6,
      settle_time = 5, poll_time = 20, kp_flags = GPIOKPF_DRIVE_INACTIVE\<rparr>"

subsection \<open>Bitmap lemmas\<close>

lemma bitmap_test_bit: "bitmap_test bm b \<longleftrightarrow> bit (bm ! (b div 32)) (b mod 32)"
  by (simp add: bitmap_test_def push_bit_eq_mult and_exp_eq_0_iff_not_bit)

lemma bitmap_set_was: "fst (bitmap_set bm b) \<longleftrightarrow> bitmap_test bm b"
  by (simp add: bitmap_set_def bitmap_test_def Let_def)

lemma bitmap_clear_was: "fst (bitmap_clear bm b) \<longleftrightarrow> bitmap_test bm b"
  by (simp add: bitmap_clear_def bitmap_test_def Let_def)

lemma bitmap_length [simp]:
  "length (snd (bitmap_set bm b)) = length bm" "length (snd (bitmap_clear bm b)) = length bm"
  by (simp_all add: bitmap_set_def bitmap_clear_def Let_def)

lemma div_mod_eq: "c div 32 = b div 32 \<and> c mod 32 = b mod 32 \<longleftrightarrow> c = (b::nat)"
  by (metis div_mult_mod_eq)

lemma bitmap_test_set:
  assumes "b div 32 < length bm"
  shows "bitmap_test (snd (bitmap_set bm b)) c \<longleftrightarrow> c = b \<or> bitmap_test bm c"
proof (cases "c div 32 = b div 32")
  case True
  then show ?thesis
    using assms div_mod_eq [of c b]
    by (auto simp: bitmap_set_def bitmap_test_bit Let_def bit_or_iff bit_exp_iff)
qed (auto simp: bitmap_set_def bitmap_test_bit Let_def)

lemma bitmap_test_clear:
  assumes "b div 32 < length bm"
  shows "bitmap_test (snd (bitmap_clear bm b)) c \<longleftrightarrow> c \<noteq> b \<and> bitmap_test bm c"
proof (cases "c div 32 = b div 32")
  case True
  then show ?thesis
    using assms div_mod_eq [of c b]
    by (auto simp: bitmap_clear_def bitmap_test_bit Let_def bit_and_iff bit_not_iff bit_exp_iff)
qed (auto simp: bitmap_clear_def bitmap_test_bit Let_def)

subsection \<open>The callback meets the contract of timer drivers\<close>

lemma rearm_fired:
  assumes inv: "kinv s" and now: "clock s = now" and free: "Tobject k \<notin> set (timer_queue s)"
    and d: "d \<le> 0x80000000"
  shows "\<exists>s'. timer_set_oneshot (Tobject k) d (CB_driver n) a s = Some s' \<and> fired now (Tobject k) s s' \<and>
    critical_section_count s' = critical_section_count s \<and> timer_sane (Tobject k) (tms s' (Tobject k))"
proof -
  let ?d = "if d = 0 then 1 else d"
  note ti = kinv_current(6) [OF inv]
  have "\<not> tm_linked (tms s (Tobject k))" using ti free by (simp add: timer_inv_def)
  then obtain s' where s': "timer_set (Tobject k) ?d 0 (CB_driver n) a s = Some s'"
    and tms: "tms s' = (tms s)(Tobject k := (tms s (Tobject k))\<lparr>tm_scheduled_time := clock s + ?d,
      tm_periodic_time := 0, tm_callback := CB_driver n, tm_arg := a, tm_linked := True\<rparr>)"
    by (simp add: timer_set_def Let_def)
  have sane: "timer_sane (Tobject k) ((tms s (Tobject k))\<lparr>tm_periodic_time := 0, tm_callback := CB_driver n\<rparr>)"
    by (simp add: timer_sane_def)
  note si = timer_set_inv [OF ti s' sane] and same = timer_set_Some [OF s']
  have q: "set (timer_queue s') = insert (Tobject k) (set (timer_queue s))" by (simp add: si(2))
  have "kinv s'" by (rule kinv_timers [OF inv]) (use same si(1) q tms in auto)
  moreover have "TIME_LT now (now + ?d)"
    by (rule TIME_LT_ahead) (use d in \<open>auto simp: word_gt_0\<close>)
  ultimately have "fired now (Tobject k) s s'"
    using same q tms now by (simp add: fired_def same_threads_def)
  then show ?thesis
    using s' same tms by (simp add: timer_set_oneshot_def timer_sane_def)
qed

locale keypad =
  fixes info :: gpio_keypad_info
  assumes settle: "settle_time info \<le> 0x80000000" and poll: "poll_time info \<le> 0x80000000"
begin

lemma keypad_contract:
  assumes inv: "kinv s" and now: "clock s = now" and free: "Tobject k \<notin> set (timer_queue s)"
  shows "\<exists>h s'. keypad_driver info gpio_get ev st n (Tobject k) now a s = Some (h, s') \<and>
    fired now (Tobject k) s s' \<and> critical_section_count s' = critical_section_count s \<and>
    timer_sane (Tobject k) (tms s' (Tobject k))"
proof -
  note c = kinv_current [OF inv]
  obtain s1 where s1: "event_signal ev False s = Some (Ret NO_ERROR s1)" "kmid s s1" "kcore {} s1"
    "cur s1 = cur s" "critical_section_count s1 = critical_section_count s"
    using signal_mid [OF kmid_refl [OF inv] c(4), of ev] c(2) by auto
  have inv1: "kinv s1" by (rule kmid_return [OF s1(2,3)]) (simp add: s1 c)
  have t1: "timer_queue s1 = timer_queue s" "tms s1 = tms s" "clock s1 = clock s" "same_threads s s1"
    using s1(2) by (simp_all add: kmid_def)
  obtain s2 where s2: "timer_set_oneshot (Tobject k) (settle_time info) (CB_driver n) 0 s = Some s2"
    "fired now (Tobject k) s s2" "critical_section_count s2 = critical_section_count s"
    "timer_sane (Tobject k) (tms s2 (Tobject k))"
    using rearm_fired [OF inv now free settle] by blast
  obtain s3 where s3: "timer_set_oneshot (Tobject k) (poll_time info) (CB_driver n) 0 s1 = Some s3"
    "fired now (Tobject k) s1 s3" "critical_section_count s3 = critical_section_count s1"
    "timer_sane (Tobject k) (tms s3 (Tobject k))"
    using rearm_fired [OF inv1 _ _ poll, of now k n 0] now free t1 by auto
  have "fired now (Tobject k) s s3"
    using s3(2) t1 same_threads_trans [OF t1(4)] by (simp add: fired_def)
  then show ?thesis
    using s1 s2 s3
    by (auto simp: keypad_driver_def gpio_keypad_timer_func_def Let_def split: prod.splits)
qed

end

sublocale keypad \<subseteq> timer_driver "keypad_driver info gpio_get ev st" for gpio_get ev st
  by unfold_locales (rule keypad_contract)

interpretation halibut: keypad halibut_keypad_info
  by unfold_locales (simp_all add: halibut_keypad_info_def)

end
