(* ===== verification/LK_System.thy ===== *)
theory LK_System
  imports LK_Keys
begin

text \<open>
  The kernel as a transition system: the boot of \<^verbatim>\<open>kernel/main.c\<close>, the calls threads make, the
  timer interrupt, the end of threads and the dpc thread's work, each a step between states in
  which some thread runs its own code. The invariant of theory \<open>LK_Kcall\<close> holds in every reachable
  state, and every call whose documented precondition holds returns there: no null thread is
  scheduled and no \<open>panic\<close> is reached.
\<close>

subsection \<open>Boot\<close>

text \<open>The state before \<open>kmain\<close>: zeroed memory, and \<open>critical_section_count\<close> at 1.\<close>

definition kernel_bss :: kernel where
  "kernel_bss =
     \<lparr>thr = (\<lambda>_. \<lparr>t_magic = 0, t_priority = 0, t_state = THREAD_SUSPENDED,
        saved_critical_section_count = 0, remaining_quantum = 0, blocking_wait_queue = None,
        wait_queue_block_ret = 0, t_stack = 0, t_stack_size = 0, t_entry = 0, t_arg = 0,
        t_retcode = 0, t_name = [], t_frames = [], t_result = 0\<rparr>),
      thread_list = [], current_thread = 0, idle_thread = None, critical_section_count = 1,
      ints_enabled = False, run_queue = (\<lambda>_. []), run_queue_bitmap = 0,
      wqs = (\<lambda>_. \<lparr>wq_magic = 0, wq_list = [], wq_count = 0\<rparr>),
      tms = (\<lambda>_. \<lparr>tm_magic = 0, tm_linked = False, tm_scheduled_time = 0, tm_periodic_time = 0,
        tm_callback = CB_none, tm_arg = 0\<rparr>),
      timer_queue = [], clock = 0,
      mtx = (\<lambda>_. \<lparr>m_magic = 0, m_count = 0, m_holder = None\<rparr>),
      evt = (\<lambda>_. \<lparr>e_magic = 0, e_signalled = False, e_flags = 0\<rparr>), dpc_list = []\<rparr>"

text \<open>
  \<open>kmain\<close> up to the idle loop. \<open>bootstrap\<close> is the address of the static \<open>bootstrap_thread\<close>, \<open>dpc\<close> and
  \<open>boot2\<close> are the results of \<open>malloc\<close> for the two threads and their stacks. The initialization of
  the hardware and the heap between these calls does not touch the scheduler's state.
\<close>

definition kmain :: "tid \<Rightarrow> (tid \<times> nat) \<Rightarrow> (tid \<times> nat) \<Rightarrow> nat \<Rightarrow> nat \<Rightarrow> kernel option" where
  "kmain bootstrap dpc boot2 dpc_thread_routine bootstrap2 = do {
     let s1 = thread_init_early bootstrap kernel_bss;
     s2 \<leftarrow> kcall (dpc_init (Some (fst dpc)) (Some (snd dpc)) dpc_thread_routine) s1;
     let s3 = timer_init s2;
     let (t, s4) = thread_create ''bootstrap2'' bootstrap2 0 DEFAULT_PRIORITY 0x2000
                     (Some (fst boot2)) (Some (snd boot2)) s3;
     s5 \<leftarrow> (case t of None \<Rightarrow> None | Some t' \<Rightarrow> kcall (thread_resume t') s4);
     Some (thread_become_idle (exit_critical_section s5)) }"

subsection \<open>Calls\<close>

datatype kapi =
    A_thread_yield
  | A_thread_resume tid
  | A_thread_sleep u32
  | A_wait_queue_block wq_id u32
  | A_wait_queue_wake_one wq_id bool int
  | A_wait_queue_wake_all wq_id bool int
  | A_wait_queue_destroy wq_id bool
  | A_mutex_acquire nat
  | A_mutex_acquire_timeout nat u32
  | A_mutex_release nat
  | A_mutex_destroy nat
  | A_event_wait nat
  | A_event_wait_timeout nat u32
  | A_event_signal nat bool
  | A_event_unsignal nat
  | A_event_destroy nat
  | A_dpc_queue nat nat u32 "nat option"

fun api_op :: "kapi \<Rightarrow> kop" where
  "api_op A_thread_yield = thread_yield"
| "api_op (A_thread_resume t) = thread_resume t"
| "api_op (A_thread_sleep d) = thread_sleep d"
| "api_op (A_wait_queue_block q timeout) = wait_queue_block q timeout"
| "api_op (A_wait_queue_wake_one q r e) = wait_queue_wake_one q r e"
| "api_op (A_wait_queue_wake_all q r e) = wait_queue_wake_all q r e"
| "api_op (A_wait_queue_destroy q r) = wait_queue_destroy q r"
| "api_op (A_mutex_acquire m) = mutex_acquire m"
| "api_op (A_mutex_acquire_timeout m timeout) = mutex_acquire_timeout m timeout"
| "api_op (A_mutex_release m) = mutex_release m"
| "api_op (A_mutex_destroy m) = mutex_destroy m"
| "api_op (A_event_wait e) = event_wait e"
| "api_op (A_event_wait_timeout e timeout) = event_wait_timeout e timeout"
| "api_op (A_event_signal e r) = event_signal e r"
| "api_op (A_event_unsignal e) = event_unsignal e"
| "api_op (A_event_destroy e) = event_destroy e"
| "api_op (A_dpc_queue n arg flags mem) = dpc_queue (DPC_driver n) arg flags mem"

text \<open>What a caller must see to: the conditions under which the code panics or is undefined.\<close>

fun api_pre :: "kapi \<Rightarrow> kernel \<Rightarrow> bool" where
  "api_pre (A_thread_resume t) s = resumable t s"
| "api_pre (A_mutex_acquire m) s = (m_holder (mtx s m) \<noteq> Some (current_thread s))"
| "api_pre (A_mutex_acquire_timeout m timeout) s = (m_holder (mtx s m) \<noteq> Some (current_thread s))"
| "api_pre (A_mutex_release m) s = (m_holder (mtx s m) = Some (current_thread s))"
| "api_pre (A_dpc_queue n arg flags mem) s = (mem \<noteq> None)"
| "api_pre _ s = True"

subsection \<open>Steps\<close>

text \<open>
  The idle thread makes no calls. A new thread gets memory no other thread has. A driver sets a
  timer of its own that is not set, with a period of at most half the clock's range.
\<close>

inductive kstep :: "timer_driver_fun \<Rightarrow> kernel \<Rightarrow> kernel \<Rightarrow> bool" for driver where
  call: "idle_thread s \<noteq> Some (current_thread s) \<Longrightarrow> api_pre a s \<Longrightarrow> kcall (api_op a) s = Some s' \<Longrightarrow>
    kstep driver s s'"
| irq: "ints_enabled s \<Longrightarrow> kcall (arm_irq driver now) s = Some s' \<Longrightarrow> kstep driver s s'"
| enter: "kstep driver s (enter_critical_section s)"
| leave: "kstep driver s (exit_critical_section s)"
| create: "t \<notin> set (thread_list s) \<Longrightarrow> 0 \<le> priority \<Longrightarrow> priority < 32 \<Longrightarrow>
    thread_create name entry arg priority stack_size (Some t) stackmem s = (r, s') \<Longrightarrow> kstep driver s s'"
| exit: "idle_thread s \<noteq> Some (current_thread s) \<Longrightarrow> mem \<noteq> None \<Longrightarrow>
    kcall (thread_exit retcode mem) s = Some s' \<Longrightarrow> kstep driver s s'"
| dpc: "dpc_thread_next s = Some (d, s1) \<Longrightarrow>
    s' = (case d of Some x \<Rightarrow> if dpc_cb x = DPC_thread_cleanup then snd (thread_cleanup_dpc (dpc_arg x) s1) else s1
          | None \<Rightarrow> s1) \<Longrightarrow> kstep driver s s'"
| set_name: "kstep driver s (thread_set_name name s)"
| set_priority: "kstep driver s (thread_set_priority p s)"
| oneshot: "timer_set_oneshot (Tobject k) delay (CB_driver n) arg s = Some s' \<Longrightarrow> kstep driver s s'"
| periodic: "period \<le> 0x80000000 \<Longrightarrow> timer_set_periodic (Tobject k) period (CB_driver n) arg s = Some s' \<Longrightarrow>
    kstep driver s s'"
| cancel: "kstep driver s (timer_cancel (Tobject k) s)"
| mutex_init: "wq_list (wqs s (WQ_mutex m)) = [] \<Longrightarrow> kstep driver s (mutex_init m s)"
| event_init: "wq_list (wqs s (WQ_event e)) = [] \<Longrightarrow> kstep driver s (event_init e initial flags s)"

text \<open>The idle thread can always be scheduled.\<close>

definition idle_ok :: "kernel \<Rightarrow> bool" where
  "idle_ok s \<longleftrightarrow> (\<exists>i. idle_thread s = Some i \<and> i \<in> set (thread_list s) \<and> live s i)"

definition ksys :: "kernel \<Rightarrow> bool" where
  "ksys s \<longleftrightarrow> kinv s \<and> idle_ok s"

subsection \<open>Calls return and keep the invariant\<close>

lemma ksys_some_ready:
  assumes "ksys s" and "idle_thread s \<noteq> Some (current_thread s)"
  shows "some_ready s"
  using assms kinv_not_running by (auto simp: ksys_def idle_ok_def some_ready_def live_def)

lemma idle_okI:
  assumes "idle_ok s" and "idle_thread s' = idle_thread s" "thread_list s' = thread_list s"
    and "\<And>t. idle_thread s = Some t \<Longrightarrow> t \<in> set (thread_list s) \<Longrightarrow> live s t \<Longrightarrow> live s' t"
  shows "idle_ok s'"
  using assms by (auto simp: idle_ok_def)

lemma api_call_ok:
  assumes sys: "ksys s" and idle: "idle_thread s \<noteq> Some (current_thread s)" and pre: "api_pre a s"
  shows "\<exists>s'. kcall (api_op a) s = Some s' \<and> kinv s' \<and> thread_list s' = thread_list s \<and>
    idle_thread s' = idle_thread s \<and> (\<forall>t. user_cs s' t = user_cs s t) \<and>
    (\<forall>t \<in> set (thread_list s). t \<noteq> current_thread s \<longrightarrow> live s t \<longrightarrow> live s' t)"
proof -
  have inv: "kinv s" using sys by (simp add: ksys_def)
  have ready: "some_ready s" by (rule ksys_some_ready [OF sys idle])
  have "may_wait e timeout s" for e timeout using ready by (simp add: may_wait_def)
  moreover have "may_acquire m timeout s" if "m_holder (mtx s m) \<noteq> Some (current_thread s)" for m timeout
    using that ready by (simp add: may_acquire_def)
  ultimately show ?thesis
    using inv ready pre
    by (cases a)
      (simp_all add: event_wait_def may_release_def yield.call_ok resume.call_ok sleep.call_ok wq_block.call_ok
        wq_wake_one.call_ok wq_wake_all.call_ok wq_destroy.call_ok acquire.call_ok acquire_timeout.call_ok
        release.call_ok mutex_destroy.call_ok wait.call_ok signal.call_ok unsignal.call_ok
        event_destroy.call_ok dpc.call_ok)
qed

lemma api_call_ksys:
  assumes sys: "ksys s" and idle: "idle_thread s \<noteq> Some (current_thread s)" and pre: "api_pre a s"
    and call: "kcall (api_op a) s = Some s'"
  shows "ksys s'"
proof -
  have s': "kinv s'" "thread_list s' = thread_list s" "idle_thread s' = idle_thread s"
    "\<forall>t \<in> set (thread_list s). t \<noteq> current_thread s \<longrightarrow> live s t \<longrightarrow> live s' t"
    using api_call_ok [OF sys idle pre] call by auto
  have "idle_ok s'" by (rule idle_okI [of s]) (use sys s' idle in \<open>auto simp: ksys_def\<close>)
  then show ?thesis using s' by (simp add: ksys_def)
qed

subsection \<open>The other steps keep the invariant\<close>

lemma ksys_same:
  assumes "ksys s" and "kinv s'" and "idle_thread s' = idle_thread s" "thread_list s' = thread_list s"
    and "\<And>t. t_state (thr s' t) = t_state (thr s t)"
  shows "ksys s'"
  using assms by (auto simp: ksys_def idle_ok_def live_def)

text \<open>The running thread is on no queue: its priority and its name may change.\<close>

lemma kinv_upd_cur:
  assumes inv: "kinv s" and st: "t_state (f (cur s)) = t_state (cur s)" "t_frames (f (cur s)) = t_frames (cur s)"
    and prio: "0 \<le> t_priority (f (cur s)) \<and> t_priority (f (cur s)) < 32"
  shows "kinv (upd_thr (current_thread s) f s)"
proof -
  let ?s = "upd_thr (current_thread s) f s"
  note c = kinv_current [OF inv]
  have "kcore {} ?s" by (rule kcore_set_idle [OF c(4)]) (use c st prio in auto)
  moreover have "t_state (thr ?s t) = t_state (thr s t)" "t_frames (thr ?s t) = t_frames (thr s t)" for t
    using st by simp_all
  ultimately show ?thesis
    using inv by (simp add: kinv_def ksound_def running_ok_def frames_ok_def tstack_ok_def tstack_at_def
        timer_inv_def dpc_ok_def del: upd_thr_sel(1))
qed

lemma kinv_priority:
  assumes "kinv s"
  shows "0 \<le> t_priority (cur s)" and "t_priority (cur s) < 32"
  using kinv_current(1,4) [OF assms] by (auto simp: kcore_def prio_ok_def)

text \<open>What \<open>thread_create\<close> writes into the new thread's structure.\<close>

abbreviation (input) new_thread :: "string \<Rightarrow> nat \<Rightarrow> nat \<Rightarrow> int \<Rightarrow> u32 \<Rightarrow> nat \<Rightarrow> kframe list \<Rightarrow> thread_t" where
  "new_thread name entry arg priority stack_size m ks \<equiv>
     \<lparr>t_magic = THREAD_MAGIC, t_priority = priority, t_state = THREAD_SUSPENDED,
       saved_critical_section_count = 1, remaining_quantum = 0, blocking_wait_queue = None,
       wait_queue_block_ret = 0, t_stack = m, t_stack_size = stack_size, t_entry = entry, t_arg = arg,
       t_retcode = 0, t_name = take 31 name, t_frames = ks, t_result = 0\<rparr>"

lemma upd_thr_twice: "upd_thr t f (upd_thr t g s) = upd_thr t (\<lambda>x. f (g x)) s"
  by (simp add: upd_thr_def)

lemma thread_create_Some:
  "thread_create name entry arg priority stack_size (Some t) (Some m) s =
     (Some t, exit_critical_section (enter_critical_section
        ((upd_thr t (\<lambda>_. new_thread name entry arg priority stack_size m [F_initial_thread_func]) s)
           \<lparr>thread_list := t # thread_list s\<rparr>)))"
  by (simp add: thread_create_def init_thread_struct_def Let_def upd_thr_twice enter_thread_list)

lemma thread_create_None:
  "thread_create name entry arg priority stack_size (Some t) None s =
     (None, upd_thr t (\<lambda>_. new_thread name entry arg priority 0 0 []) s)"
  by (simp add: thread_create_def init_thread_struct_def Let_def upd_thr_twice)

text \<open>A structure that belongs to no thread may be written to.\<close>

lemma kinv_upd_free:
  assumes inv: "kinv s" and t: "t \<notin> set (thread_list s)"
  shows "kinv (upd_thr t (\<lambda>_. y) s)"
proof -
  let ?s = "upd_thr t (\<lambda>_. y) s"
  note c = kinv_current [OF inv]
  have other: "thr ?s u = thr s u" if "u \<in> set (thread_list s)" for u
    using that t by auto
  have no_timer: "Tstack t \<notin> set (timer_queue s)"
    using c(5) t by (auto simp: ksound_def tstack_ok_def tstack_at_def)
  have "ready_at {} ?s p = ready_at {} s p" "waiting_on {} ?s q = waiting_on {} s q" for p q
    using t by (auto simp: ready_at_def waiting_on_def)
  then have "kcore {} ?s" using c(4) t by (auto simp: kcore_def prio_ok_def rq_ok_def wq_ok_def)
  moreover have "tstack_ok ?s"
    using c(5) no_timer by (auto simp: ksound_def tstack_ok_def tstack_at_def)
  moreover have "running_ok ?s" "frames_ok ?s" "dpc_ok ?s" "t_frames (cur ?s) = []"
    using inv other t c(1) by (auto simp: kinv_def ksound_def running_ok_def frames_ok_def dpc_ok_def)
  ultimately show ?thesis
    using c(1,6) by (simp add: kinv_def ksound_def timer_inv_def)
qed

lemma kinv_add_thread:
  assumes inv: "kinv s" and t: "t \<notin> set (thread_list s)"
    and y: "t_state (thr s t) = THREAD_SUSPENDED" "0 \<le> t_priority (thr s t)" "t_priority (thr s t) < 32"
      "F_thread_exit \<notin> set (t_frames (thr s t))"
  shows "kinv (s\<lparr>thread_list := t # thread_list s\<rparr>)"
proof -
  let ?s = "s\<lparr>thread_list := t # thread_list s\<rparr>"
  note c = kinv_current [OF inv]
  have "ready_at {} ?s p = ready_at {} s p" "waiting_on {} ?s q = waiting_on {} s q" for p q
    using y by (auto simp: ready_at_def waiting_on_def)
  then have "kcore {} ?s" using c(4) t y by (auto simp: kcore_def prio_ok_def rq_ok_def wq_ok_def)
  moreover have "tstack_ok ?s"
    using c(5) by (auto simp: ksound_def tstack_ok_def tstack_at_def)
  moreover have "{u \<in> set (t # thread_list s). t_state (thr s u) = THREAD_RUNNING} =
      {u \<in> set (thread_list s). t_state (thr s u) = THREAD_RUNNING}"
    using y(1) by auto
  then have "running_ok ?s" using inv by (simp add: kinv_def running_ok_def)
  moreover have "frames_ok ?s" "dpc_ok ?s"
    using c(5) y by (auto simp: ksound_def frames_ok_def dpc_ok_def)
  ultimately show ?thesis
    using c(1,3,6) by (simp add: kinv_def ksound_def timer_inv_def)
qed

lemma thread_create_ok:
  assumes inv: "kinv s" and t: "t \<notin> set (thread_list s)" and p: "0 \<le> priority" "priority < 32"
  shows "kinv (snd (thread_create name entry arg priority stack_size (Some t) stackmem s))"
proof (cases stackmem)
  case None
  then show ?thesis using kinv_upd_free [OF inv t] by (simp add: thread_create_None)
next
  case (Some m)
  let ?u = "upd_thr t (\<lambda>_. new_thread name entry arg priority stack_size m [F_initial_thread_func]) s"
  have "kinv (?u\<lparr>thread_list := t # thread_list ?u\<rparr>)"
    by (rule kinv_add_thread [OF kinv_upd_free [OF inv t]]) (use t p in simp_all)
  then show ?thesis using Some by (simp add: thread_create_Some)
qed

lemma thread_create_ksys:
  assumes sys: "ksys s" and t: "t \<notin> set (thread_list s)" and p: "0 \<le> priority" "priority < 32"
  shows "ksys (snd (thread_create name entry arg priority stack_size (Some t) stackmem s))" (is "ksys ?s")
proof -
  obtain i where i: "idle_thread s = Some i" "i \<in> set (thread_list s)" "live s i"
    using sys by (auto simp: ksys_def idle_ok_def)
  then have "i \<noteq> t" using t by auto
  then have "idle_ok ?s"
    using i by (cases stackmem) (auto simp: idle_ok_def live_def thread_create_Some thread_create_None)
  then show ?thesis using thread_create_ok [OF _ t p] sys by (simp add: ksys_def)
qed

lemma thread_exit_call:
  assumes sys: "ksys s" and idle: "idle_thread s \<noteq> Some (current_thread s)" and mem: "mem \<noteq> None"
  shows "\<exists>s'. kcall (thread_exit retcode mem) s = Some s' \<and> ksys s' \<and> thread_list s' = thread_list s \<and>
    t_state (thr s' (current_thread s)) = THREAD_DEATH"
proof -
  have inv: "kinv s" using sys by (simp add: ksys_def)
  obtain s1 where op: "thread_exit retcode mem s = Some (Switch [F_thread_exit] s1)"
    and sw: "kswitch (set_frames [F_thread_exit] s1)" and same: "same_threads s s1"
    and dead: "t_state (cur s1) = THREAD_DEATH"
    using thread_exit_ok [OF inv ksys_some_ready [OF sys idle] mem] by blast
  obtain s' where s': "thread_resched (set_frames [F_thread_exit] s1) \<bind> resume_current = Some s'"
    "kinv s'" "thread_list s' = thread_list s1" "idle_thread s' = idle_thread s1"
    "t_state (thr s1 (current_thread s')) = THREAD_READY"
    "\<And>t. t \<noteq> current_thread s' \<Longrightarrow> t_state (thr s' t) = t_state (thr s1 t)"
    using switch_and_resume [OF sw] by blast
  have "live s' t" if "t \<in> set (thread_list s)" "t \<noteq> current_thread s" "live s t" for t
    using live_other [OF inv same that] s'(6) [of t] kinv_current(2) [OF s'(2)]
    by (cases "t = current_thread s'") (auto simp: live_def)
  then have "idle_ok s'" using sys idle same s'(3,4) by (auto simp: ksys_def idle_ok_def same_threads_def)
  moreover have "t_state (thr s' (current_thread s)) = THREAD_DEATH"
    using s'(5) s'(6) [of "current_thread s"] dead same
    by (cases "current_thread s = current_thread s'") (auto simp: same_threads_def)
  moreover have "kcall (thread_exit retcode mem) s = Some s'"
    using op s'(1) by (simp add: kcall_def set_frames_def)
  ultimately show ?thesis using s' same by (simp add: ksys_def same_threads_def)
qed

lemma dpc_step_ok:
  assumes sys: "ksys s" and nxt: "dpc_thread_next s = Some (d, s1)"
  shows "ksys (case d of Some x \<Rightarrow> if dpc_cb x = DPC_thread_cleanup then snd (thread_cleanup_dpc (dpc_arg x) s1) else s1
          | None \<Rightarrow> s1)"
proof -
  have inv: "kinv s" using sys by (simp add: ksys_def)
  note n = dpc_thread_next_ok [OF inv nxt]
  have f: "idle_thread s1 = idle_thread s" "thr s1 = thr s"
    using nxt by (auto simp: dpc_thread_next_def event_unsignal_def Let_def split: list.splits)
  have s1: "ksys s1" by (rule ksys_same [OF sys n(1)]) (use f n in simp_all)
  have "ksys (snd (thread_cleanup_dpc (dpc_arg x) s1))"
    if d: "d = Some x" "dpc_cb x = DPC_thread_cleanup" for x
  proof -
    note a = n(3) [OF d]
    have "kinv (snd (thread_cleanup_dpc (dpc_arg x) s1))"
      by (rule thread_cleanup_ok [OF n(1)]) (use a in auto)
    moreover have "idle_ok (snd (thread_cleanup_dpc (dpc_arg x) s1))"
    proof -
      obtain i where i: "idle_thread s1 = Some i" "i \<in> set (thread_list s1)" "live s1 i"
        using s1 by (auto simp: ksys_def idle_ok_def)
      then have "i \<noteq> dpc_arg x" using a by (auto simp: live_def)
      then show ?thesis using i by (simp add: idle_ok_def live_def thread_cleanup_dpc_def Let_def)
    qed
    ultimately show ?thesis by (simp add: ksys_def)
  qed
  then show ?thesis using s1 by (auto split: option.splits)
qed

lemma timer_set_ksys:
  assumes sys: "ksys s" and set: "timer_set (Tobject k) d p (CB_driver n) a s = Some s'" and p: "p \<le> 0x80000000"
  shows "ksys s'"
proof -
  have inv: "kinv s" using sys by (simp add: ksys_def)
  have sane: "timer_sane (Tobject k) ((tms s (Tobject k))\<lparr>tm_periodic_time := p, tm_callback := CB_driver n\<rparr>)"
    using p by (simp add: timer_sane_def)
  note si = timer_set_inv [OF kinv_current(6) [OF inv] set sane] and same = timer_set_Some [OF set]
  have other: "tms s' (Tstack t) = tms s (Tstack t)" for t
    using set by (auto simp: timer_set_def Let_def split: if_splits)
  have q: "set (timer_queue s') = insert (Tobject k) (set (timer_queue s))" by (simp add: si(2))
  have "kinv s'" by (rule kinv_timers [OF inv]) (use same si(1) q other in auto)
  then show ?thesis by (rule ksys_same [OF sys]) (simp_all add: same)
qed

lemma timer_cancel_ksys:
  assumes sys: "ksys s"
  shows "ksys (timer_cancel (Tobject k) s)"
proof -
  have inv: "kinv s" using sys by (simp add: ksys_def)
  note ti = timer_cancel_inv [OF kinv_current(6) [OF inv], of "Tobject k"]
  have other: "tms (timer_cancel (Tobject k) s) (Tstack t) = tms s (Tstack t)" for t
    by (simp add: timer_cancel_def Let_def)
  have "kinv (timer_cancel (Tobject k) s)"
    by (rule kinv_timers [OF inv]) (use ti other in \<open>auto dest: set_remove1_subset [THEN subsetD]\<close>)
  then show ?thesis by (rule ksys_same [OF sys]) simp_all
qed

lemma wait_queue_init_ksys:
  assumes sys: "ksys s" and empty: "wq_list (wqs s q) = []"
  shows "ksys (wait_queue_init q s)"
proof -
  have inv: "kinv s" using sys by (simp add: ksys_def)
  have "wq_count (wqs s q) = 0" using kinv_current(4) [OF inv] empty by (auto simp: kcore_def wq_ok_def)
  then have "kcore {} (wait_queue_init q s)"
    unfolding wait_queue_init_def by (subst kcore_upd_wq_same) (use kinv_current(4) [OF inv] empty in simp_all)
  then have "kinv (wait_queue_init q s)"
    using inv by (simp add: kinv_def ksound_def running_ok_def frames_ok_def tstack_ok_def tstack_at_def
        timer_inv_def dpc_ok_def wait_queue_init_def)
  then show ?thesis by (rule ksys_same [OF sys]) (simp_all add: wait_queue_init_def)
qed

lemma kstep_ksys:
  assumes "timer_driver driver" and "kstep driver s s'" and "ksys s"
  shows "ksys s'"
  using assms(2,3)
proof cases
  case (call a)
  then show ?thesis using api_call_ksys assms(3) by blast
next
  case (irq now)
  then show ?thesis
    using timer_driver.arm_irq_ok [OF assms(1), of s now] assms(3)
    by (auto simp: ksys_def idle_ok_def)
next
  case (create t priority name entry arg stack_size stackmem r)
  then show ?thesis using thread_create_ksys [OF assms(3)] by (metis snd_conv)
next
  case (exit mem retcode)
  then show ?thesis using thread_exit_call [OF assms(3) exit(1,2), of retcode] by auto
next
  case (dpc d s1)
  then show ?thesis using dpc_step_ok [OF assms(3)] by blast
next
  case (set_name name)
  have "kinv s'" unfolding set_name thread_set_name_def
    by (rule kinv_upd_cur) (use assms(3) kinv_priority in \<open>auto simp: ksys_def\<close>)
  then show ?thesis by (rule ksys_same [OF assms(3)]) (simp_all add: set_name thread_set_name_def)
next
  case (set_priority p)
  have "kinv s'" unfolding set_priority thread_set_priority_def Let_def
    by (rule kinv_upd_cur) (use assms(3) in \<open>auto simp: ksys_def\<close>)
  then show ?thesis
    by (rule ksys_same [OF assms(3)]) (simp_all add: set_priority thread_set_priority_def Let_def)
next
  case (oneshot k delay n arg)
  then show ?thesis
    using timer_set_ksys [OF assms(3), of k _ 0 n arg s'] by (simp add: timer_set_oneshot_def)
next
  case (periodic period k n arg)
  then show ?thesis
    using timer_set_ksys [OF assms(3), of k _ "if period = 0 then 1 else period" n arg s']
    by (simp add: timer_set_periodic_def Let_def split: if_splits)
next
  case (cancel k)
  then show ?thesis using timer_cancel_ksys [OF assms(3)] by simp
next
  case (mutex_init m)
  have "ksys (upd_mtx m (\<lambda>_. \<lparr>m_magic = MUTEX_MAGIC, m_count = 0, m_holder = None\<rparr>) s)"
    by (rule ksys_same [OF assms(3)]) (use assms(3) in \<open>simp_all add: ksys_def\<close>)
  then show ?thesis using wait_queue_init_ksys mutex_init by (simp add: mutex_init_def)
next
  case (event_init e initial flags)
  have "ksys (upd_evt e (\<lambda>_. \<lparr>e_magic = EVENT_MAGIC, e_signalled = initial, e_flags = flags\<rparr>) s)"
    by (rule ksys_same [OF assms(3)]) (use assms(3) in \<open>simp_all add: ksys_def\<close>)
  then show ?thesis using wait_queue_init_ksys event_init by (simp add: event_init_def)
qed (use assms(3) in \<open>auto simp: ksys_def idle_ok_def live_def\<close>)

subsection \<open>Boot establishes the invariant\<close>

text \<open>When the calling thread is ready and has the highest priority, the scheduler picks it again.\<close>

lemma resched_highest:
  assumes sw: "kswitch s" and ready: "t_state (cur s) = THREAD_READY" and top: "t_priority (cur s) = 31"
    and others: "\<And>t. t \<in> set (thread_list s) \<Longrightarrow> t \<noteq> current_thread s \<Longrightarrow> t_priority (thr s t) < 31"
  obtains p rest where "thread_resched s = Some (dequeue_next p (current_thread s) rest s)"
proof -
  have core: "kcore {} s" and mem: "current_thread s \<in> set (thread_list s)"
    using sw by (simp_all add: kswitch_def ksound_def)
  have nz: "run_queue_bitmap s \<noteq> 0" by (rule bitmap_nonzero [OF core mem ready])
  let ?p = "31 - clz32 (run_queue_bitmap s)"
  obtain new rest where n: "?p < 32" "run_queue s ?p = new # rest"
    and high: "\<And>j. ?p < j \<Longrightarrow> j < 32 \<Longrightarrow> run_queue s j = []"
    and new: "new \<in> set (thread_list s)" "t_priority (thr s new) = int ?p"
    using thread_resched_eq [OF core nz refl] by metis
  have "current_thread s \<in> ready_at {} s 31" using mem ready top by (simp add: ready_at_def)
  moreover have "set (run_queue s 31) = ready_at {} s 31" using core by (simp add: kcore_def rq_ok_def)
  ultimately have "run_queue s 31 \<noteq> []" by auto
  then have "?p = 31" using high [of 31] n(1) by (cases "?p < 31") auto
  then have "t_priority (thr s new) = 31" using new(2) by simp
  then have "new = current_thread s" using others [OF new(1)] by fastforce
  then show thesis using that thread_resched_unfold [OF nz refl n(2)] by simp
qed

lemma resume_highest:
  assumes inv: "kinv s" and t: "t \<in> set (thread_list s)" "t_state (thr s t) = THREAD_SUSPENDED"
    and top: "t_priority (cur s) = 31"
    and others: "\<And>u. u \<in> set (thread_list s) \<Longrightarrow> u \<noteq> current_thread s \<Longrightarrow> t_priority (thr s u) < 31"
    and op: "op s0 = thread_resume t s"
  obtains s' where "kcall op s0 = Some s'" and "kinv s'" and "current_thread s' = current_thread s"
    and "thread_list s' = thread_list s" and "idle_thread s' = idle_thread s"
    and "\<And>u. t_priority (thr s' u) = t_priority (thr s u)"
    and "timer_queue s' = timer_queue s" and "tms s' = tms s"
    and "critical_section_count s' = critical_section_count s"
    and "\<And>u. t_state (thr s' u) = (if u = t then THREAD_READY else t_state (thr s u))"
proof -
  let ?c = "current_thread s" and ?ks = "[F_thread_yield, F_thread_resume]"
  note c = kinv_current [OF inv]
  have pre: "resumable t s" and ne: "t \<noteq> ?c" using t c by (auto simp: resumable_def)
  obtain x where x: "thread_resume t s = Some x" and ok: "kop_ok (critical_section_count s) s x"
    using thread_resume_ok [OF inv pre] by blast
  obtain s1 z where s1: "insert_in_run_queue_head t (upd_thr t (\<lambda>x. x\<lparr>t_state := THREAD_READY\<rparr>)
      (enter_critical_section s)) = Some s1"
    and z: "insert_in_run_queue_tail ?c (upd_thr ?c (\<lambda>t. t\<lparr>t_state := THREAD_READY, remaining_quantum := 0\<rparr>)
      (enter_critical_section s1)) = Some z" and xz: "x = Switch ?ks z"
    using x t by (auto simp: thread_resume_def thread_yield_def kthen_def Let_def bind_eq_Some_conv
        insert_head_Some)
  note f = insert_head_Some [OF s1] insert_tail_Some [OF z]
  have zthr: "t_priority (thr z u) = t_priority (thr s u)"
    "t_state (thr z u) = (if u = t \<or> u = ?c then THREAD_READY else t_state (thr s u))" for u
    using f by simp_all
  have zsel: "current_thread z = ?c" "thread_list z = thread_list s" "idle_thread z = idle_thread s"
    "timer_queue z = timer_queue s" "tms z = tms s"
    "critical_section_count z = critical_section_count s + 2"
    using f by simp_all
  let ?z = "set_frames ?ks z"
  have sw: "kswitch ?z" using ok xz by simp
  obtain p rest where r: "thread_resched ?z = Some (dequeue_next p (current_thread ?z) rest ?z)"
    by (rule resched_highest [OF sw]) (use top others zthr zsel in simp_all)
  let ?d = "dequeue_next p (current_thread ?z) rest ?z"
  have "t_frames (cur ?d) = ?ks" by simp
  then obtain e where e: "resume_current ?d = Some (upd_thr (current_thread e) (\<lambda>t. t\<lparr>t_result := 0\<rparr>) e)"
    "e = exit_critical_section (exit_critical_section (set_frames [] ?d))"
    by (simp add: resume_current_def run_frame_def set_frames_def)
  let ?s' = "upd_thr (current_thread e) (\<lambda>t. t\<lparr>t_result := 0\<rparr>) e"
  have call: "kcall op s0 = Some ?s'"
    using op x xz r e(1) by (simp add: kcall_def set_frames_def)
  obtain s'' where "kcall op s0 = Some s''" "kinv s''"
    using kop_ok_call [of op s0 x] op x ok by metis
  then have "kinv ?s'" using call by simp
  moreover have "t_priority (thr ?s' u) = t_priority (thr s u)" for u
    using zthr by (simp add: e(2))
  moreover have "t_state (thr ?s' u) = (if u = t then THREAD_READY else t_state (thr s u))" for u
    using zthr zsel ne c(2) by (simp add: e(2))
  ultimately show thesis
    using call zsel by (intro that [of ?s']) (simp_all add: e(2))
qed

lemma boot_early:
  "kinv (thread_init_early b kernel_bss)"
  "thread_list (thread_init_early b kernel_bss) = [b]"
  "current_thread (thread_init_early b kernel_bss) = b"
  "t_priority (thr (thread_init_early b kernel_bss) b) = 31"
  "critical_section_count (thread_init_early b kernel_bss) = 1"
  "timer_queue (thread_init_early b kernel_bss) = []"
  "wqs (thread_init_early b kernel_bss) = wqs kernel_bss"
  by (auto simp: thread_init_early_def init_thread_struct_def kernel_bss_def Let_def kinv_def ksound_def
      running_ok_def kcore_def prio_ok_def rq_ok_def wq_ok_def ready_at_def waiting_on_def frames_ok_def
      timer_inv_def tstack_ok_def dpc_ok_def cleanups_def)

text \<open>A new thread, created and resumed by the thread of highest priority, which goes on running.\<close>

lemma spawn_ok:
  assumes inv: "kinv s" and t: "t \<notin> set (thread_list s)" and top: "t_priority (cur s) = 31"
    and p: "0 \<le> priority" "priority < 31"
    and others: "\<And>u. u \<in> set (thread_list s) \<Longrightarrow> u \<noteq> current_thread s \<Longrightarrow> t_priority (thr s u) < 31"
    and op: "op s0 = thread_resume t (snd (thread_create name entry arg priority stack_size (Some t) (Some m) s))"
  obtains s' where "kcall op s0 = Some s'" and "kinv s'" and "current_thread s' = current_thread s"
    and "thread_list s' = t # thread_list s" and "t_priority (cur s') = 31"
    and "\<And>u. u \<in> set (thread_list s') \<Longrightarrow> u \<noteq> current_thread s' \<Longrightarrow> t_priority (thr s' u) < 31"
    and "timer_queue s' = timer_queue s" and "critical_section_count s' = critical_section_count s"
    and "t_state (thr s' t) = THREAD_READY" and "t_priority (thr s' t) = priority"
    and "\<And>u. u \<noteq> t \<Longrightarrow> t_state (thr s' u) = t_state (thr s u) \<and> t_priority (thr s' u) = t_priority (thr s u)"
proof -
  let ?n = "snd (thread_create name entry arg priority stack_size (Some t) (Some m) s)"
  have n: "kinv ?n" using thread_create_ok [OF inv t] p by simp
  have ne: "t \<noteq> current_thread s" using t kinv_current(1) [OF inv] by auto
  have sel: "current_thread ?n = current_thread s" "thread_list ?n = t # thread_list s"
    "t_state (thr ?n t) = THREAD_SUSPENDED" "t_priority (thr ?n t) = priority"
    "timer_queue ?n = timer_queue s" "critical_section_count ?n = critical_section_count s"
    and oth: "\<And>u. u \<noteq> t \<Longrightarrow> thr ?n u = thr s u"
    by (simp_all add: thread_create_Some)
  have low: "t_priority (thr ?n u) < 31" if "u \<in> set (thread_list ?n)" "u \<noteq> current_thread ?n" for u
    using that others sel p oth by (cases "u = t") auto
  have top': "t_priority (cur ?n) = 31" using top ne oth sel by simp
  obtain s' where s': "kcall op s0 = Some s'" "kinv s'" "current_thread s' = current_thread ?n"
    "thread_list s' = thread_list ?n" "\<And>u. t_priority (thr s' u) = t_priority (thr ?n u)"
    "timer_queue s' = timer_queue ?n" "critical_section_count s' = critical_section_count ?n"
    "\<And>u. t_state (thr s' u) = (if u = t then THREAD_READY else t_state (thr ?n u))"
    by (rule resume_highest [OF n, of t op s0]) (use sel top' low op in simp_all)
  show thesis
    using s' sel low top' oth by (intro that [of s']) auto
qed

lemma dpc_init_eq:
  "dpc_init (Some t) (Some m) r s =
     thread_resume t (snd (thread_create ''dpc'' r 0 DPC_PRIORITY 0x2000 (Some t) (Some m) (event_init dpc_event False 0 s)))"
  by (simp add: dpc_init_def Let_def thread_create_Some)

lemma kinv_event_init:
  assumes inv: "kinv s" and q: "wq_list (wqs s (WQ_event e)) = []"
  shows "kinv (event_init e initial flags s)"
proof -
  let ?u = "upd_evt e (\<lambda>_. \<lparr>e_magic = EVENT_MAGIC, e_signalled = initial, e_flags = flags\<rparr>) s"
  have "wq_count (wqs s (WQ_event e)) = 0" using kinv_current(4) [OF inv] q by (auto simp: kcore_def wq_ok_def)
  then have "kcore {} (event_init e initial flags s)"
    unfolding event_init_def wait_queue_init_def
    by (subst kcore_upd_wq_same) (use kinv_current(4) [OF inv] q in simp_all)
  then show ?thesis
    using inv by (simp add: kinv_def ksound_def running_ok_def frames_ok_def tstack_ok_def tstack_at_def
        timer_inv_def dpc_ok_def event_init_def wait_queue_init_def)
qed

lemma kmain_boots:
  assumes new: "distinct [b, fst dpc, fst boot2]"
  shows "\<exists>s. kmain b dpc boot2 r1 r2 = Some s \<and> ksys s \<and> current_thread s = b \<and> idle_thread s = Some b \<and>
    thread_list s = [fst boot2, fst dpc, b] \<and> critical_section_count s = 0 \<and> ints_enabled s \<and>
    timer_queue s = [] \<and> t_priority (thr s b) = IDLE_PRIORITY \<and>
    t_state (thr s (fst dpc)) = THREAD_READY \<and> t_priority (thr s (fst dpc)) = DPC_PRIORITY"
proof -
  let ?s1 = "thread_init_early b kernel_bss"
  let ?e = "event_init dpc_event False 0 ?s1"
  have e: "kinv ?e"
    by (rule kinv_event_init) (simp_all add: boot_early, simp add: kernel_bss_def)
  have esel: "thread_list ?e = [b]" "current_thread ?e = b" "thr ?e = thr ?s1"
    "timer_queue ?e = []" "critical_section_count ?e = 1"
    by (simp_all add: event_init_def wait_queue_init_def boot_early)
  obtain s2 where s2: "kcall (dpc_init (Some (fst dpc)) (Some (snd dpc)) r1) ?s1 = Some s2" "kinv s2"
    "current_thread s2 = b" "thread_list s2 = [fst dpc, b]" "t_priority (cur s2) = 31"
    "\<And>u. u \<in> set (thread_list s2) \<Longrightarrow> u \<noteq> current_thread s2 \<Longrightarrow> t_priority (thr s2 u) < 31"
    "timer_queue s2 = []" "critical_section_count s2 = 1"
    "t_state (thr s2 (fst dpc)) = THREAD_READY" "t_priority (thr s2 (fst dpc)) = DPC_PRIORITY"
    by (rule spawn_ok [OF e, where t = "fst dpc" and m = "snd dpc" and entry = r1 and arg = 0 and
          priority = DPC_PRIORITY and stack_size = "0x2000" and name = "''dpc''" and
          op = "dpc_init (Some (fst dpc)) (Some (snd dpc)) r1" and ?s0.0 = ?s1])
      (use new in \<open>simp_all add: esel boot_early dpc_init_eq\<close>)
  have s3: "timer_init s2 = s2" using s2(7) by (simp add: timer_init_def)
  obtain s5 where s5: "kcall (thread_resume (fst boot2)) (snd (thread_create ''bootstrap2'' r2 0 DEFAULT_PRIORITY 0x2000
      (Some (fst boot2)) (Some (snd boot2)) s2)) = Some s5" "kinv s5"
    "current_thread s5 = current_thread s2" "thread_list s5 = fst boot2 # thread_list s2" "t_priority (cur s5) = 31"
    "timer_queue s5 = timer_queue s2" "critical_section_count s5 = critical_section_count s2"
    "\<And>u. u \<noteq> fst boot2 \<Longrightarrow> t_state (thr s5 u) = t_state (thr s2 u) \<and> t_priority (thr s5 u) = t_priority (thr s2 u)"
    by (rule spawn_ok [OF s2(2), where t = "fst boot2" and m = "snd boot2" and entry = r2 and arg = 0 and
          priority = DEFAULT_PRIORITY and stack_size = "0x2000" and name = "''bootstrap2''" and
          op = "thread_resume (fst boot2)" and
          ?s0.0 = "snd (thread_create ''bootstrap2'' r2 0 DEFAULT_PRIORITY 0x2000 (Some (fst boot2)) (Some (snd boot2)) s2)"])
      (use new s2 in simp_all)
  let ?s6 = "thread_become_idle (exit_critical_section s5)"
  have inv5: "kinv (exit_critical_section s5)" using s5(2) by simp
  have inv6: "kinv (thread_set_priority IDLE_PRIORITY (thread_set_name ''idle'' (exit_critical_section s5)))"
    unfolding thread_set_priority_def Let_def
    by (rule kinv_upd_cur, unfold thread_set_name_def, rule kinv_upd_cur [OF inv5])
      (use kinv_priority [OF s5(2)] in simp_all)
  have "kinv (s\<lparr>idle_thread := i\<rparr>) = kinv s" for s i
    by (simp add: kinv_def ksound_def running_ok_def frames_ok_def tstack_ok_def tstack_at_def timer_inv_def dpc_ok_def)
  then have k6: "kinv ?s6" using inv6 by (simp add: thread_become_idle_def Let_def)
  have sel6: "current_thread ?s6 = b" "idle_thread ?s6 = Some b" "thread_list ?s6 = [fst boot2, fst dpc, b]"
    "critical_section_count ?s6 = 0" "ints_enabled ?s6" "timer_queue ?s6 = []"
    "t_priority (thr ?s6 b) = IDLE_PRIORITY"
    "t_state (thr ?s6 (fst dpc)) = THREAD_READY" "t_priority (thr ?s6 (fst dpc)) = DPC_PRIORITY"
    using s5 s2 new by (simp_all add: thread_become_idle_def thread_set_priority_def thread_set_name_def Let_def
        exit_critical_section_def)
  have "ksys ?s6" using k6 sel6 kinv_live [OF k6] by (simp add: ksys_def idle_ok_def)
  moreover have "kmain b dpc boot2 r1 r2 = Some ?s6"
    using s2(1) s5(1) by (simp add: kmain_def Let_def s3 thread_create_Some)
  ultimately show ?thesis using sel6 by blast
qed

end
