(* ===== verification/LK_Example.thy ===== *)
theory LK_Example
  imports LK_System
begin

unbundle bit_operations_syntax

text \<open>
  A concrete kernel state that satisfies the invariant, and a concrete driver that satisfies the
  contract of timer callbacks: the inputs at which the witnesses of other theories apply theorems.
\<close>

text \<open>The keypad of the qsd8k board before its first scan, as the driver of the examples.\<close>

definition example_driver :: timer_driver_fun where
  "example_driver = keypad_driver halibut_keypad_info (\<lambda>_. 0) 1
     (\<lparr>current_output = 6, some_keys_pressed = 0, keys_pressed = [0]\<rparr>, keys_init)"

lemma example_driver: "timer_driver example_driver"
  unfolding example_driver_def by (rule halibut.timer_driver_axioms)

text \<open>
  A state of the kernel for the examples: thread 10 runs and holds mutex 3, thread 2 waits for that
  mutex, threads 5 and 6 wait for event 7, thread 4 has just been woken from a wait with a timeout
  and has not run yet, so the timer on its stack is still queued; thread 9 is the idle thread.
\<close>

definition example_thread :: "int \<Rightarrow> thread_state \<Rightarrow> wq_id option \<Rightarrow> kframe list \<Rightarrow> thread_t" where
  "example_thread p st q ks =
     \<lparr>t_magic = THREAD_MAGIC, t_priority = p, t_state = st, saved_critical_section_count = int (length ks),
      remaining_quantum = 5, blocking_wait_queue = q, wait_queue_block_ret = 0, t_stack = 0,
      t_stack_size = 0, t_entry = 0, t_arg = 0, t_retcode = 0, t_name = [], t_frames = ks, t_result = 0\<rparr>"

definition example_kernel :: kernel where
  "example_kernel = kernel_bss
     \<lparr>thr := (\<lambda>_. example_thread 0 THREAD_SUSPENDED None [])
        (10 := example_thread 16 THREAD_RUNNING None [],
         2 := example_thread 16 THREAD_BLOCKED (Some (WQ_mutex 3))
                [F_thread_block, F_wait_queue_block INFINITE_TIME, F_mutex_acquire 3],
         4 := example_thread 16 THREAD_READY None [F_thread_block, F_wait_queue_block 5, F_event_wait],
         5 := example_thread 16 THREAD_BLOCKED (Some (WQ_event 7))
                [F_thread_block, F_wait_queue_block INFINITE_TIME, F_event_wait],
         6 := example_thread 16 THREAD_BLOCKED (Some (WQ_event 7))
                [F_thread_block, F_wait_queue_block INFINITE_TIME, F_event_wait],
         9 := example_thread 0 THREAD_READY None [F_thread_preempt, F_arm_irq]),
      thread_list := [10, 2, 4, 5, 6, 9], current_thread := 10, idle_thread := Some 9,
      critical_section_count := 0, ints_enabled := True,
      run_queue := (\<lambda>_. [])(0 := [9], 16 := [4]), run_queue_bitmap := 65537,
      wqs := (\<lambda>_. \<lparr>wq_magic = WAIT_QUEUE_MAGIC, wq_list = [], wq_count = 0\<rparr>)
        (WQ_mutex 3 := \<lparr>wq_magic = WAIT_QUEUE_MAGIC, wq_list = [2], wq_count = 1\<rparr>,
         WQ_event 7 := \<lparr>wq_magic = WAIT_QUEUE_MAGIC, wq_list = [5, 6], wq_count = 2\<rparr>),
      tms := (tms kernel_bss)(Tstack 4 := \<lparr>tm_magic = TIMER_MAGIC, tm_linked = True,
        tm_scheduled_time = 100, tm_periodic_time = 0, tm_callback = CB_wait_queue_timeout_handler, tm_arg = 4\<rparr>),
      timer_queue := [Tstack 4],
      mtx := (mtx kernel_bss)(3 := \<lparr>m_magic = MUTEX_MAGIC, m_count = 2, m_holder = Some 10\<rparr>)\<rparr>"

lemma example_sel [simp]:
  "thread_list example_kernel = [10, 2, 4, 5, 6, 9]" "current_thread example_kernel = 10"
  "idle_thread example_kernel = Some 9" "critical_section_count example_kernel = 0"
  "timer_queue example_kernel = [Tstack 4]" "clock example_kernel = 0"
  "wq_list (wqs example_kernel (WQ_event 7)) = [5, 6]" "wq_list (wqs example_kernel (WQ_mutex 3)) = [2]"
  "m_holder (mtx example_kernel 3) = Some 10" "m_count (mtx example_kernel 3) = 2"
  "tm_callback (tms example_kernel (Tstack 4)) = CB_wait_queue_timeout_handler"
  "tm_scheduled_time (tms example_kernel (Tstack 4)) = 100" "dpc_list example_kernel = []"
  by (simp_all add: example_kernel_def kernel_bss_def)

lemma example_thr:
  "thr example_kernel 10 = example_thread 16 THREAD_RUNNING None []"
  "thr example_kernel 2 = example_thread 16 THREAD_BLOCKED (Some (WQ_mutex 3))
     [F_thread_block, F_wait_queue_block INFINITE_TIME, F_mutex_acquire 3]"
  "thr example_kernel 4 = example_thread 16 THREAD_READY None [F_thread_block, F_wait_queue_block 5, F_event_wait]"
  "thr example_kernel 5 = example_thread 16 THREAD_BLOCKED (Some (WQ_event 7))
     [F_thread_block, F_wait_queue_block INFINITE_TIME, F_event_wait]"
  "thr example_kernel 6 = example_thread 16 THREAD_BLOCKED (Some (WQ_event 7))
     [F_thread_block, F_wait_queue_block INFINITE_TIME, F_event_wait]"
  "thr example_kernel 9 = example_thread 0 THREAD_READY None [F_thread_preempt, F_arm_irq]"
  by (simp_all add: example_kernel_def)

lemma bit_example_bitmap: "bit (65537 :: u32) i \<longleftrightarrow> i = 0 \<or> i = 16"
proof (cases "i < 32")
  case True
  have "(65537 :: u32) = 1 OR push_bit 16 1" by simp
  then show ?thesis using True by (simp only: bit_set_one) (auto simp: bit_1_iff)
next
  case False
  then have "\<not> bit (65537 :: u32) i" using bit_imp_le_length [of "65537 :: u32" i] by auto
  then show ?thesis using False by auto
qed

lemma example_kinv: "kinv example_kernel"
proof -
  let ?k = example_kernel
  have state: "t_state (thr ?k 10) = THREAD_RUNNING" "t_state (thr ?k 2) = THREAD_BLOCKED"
    "t_state (thr ?k 4) = THREAD_READY" "t_state (thr ?k 5) = THREAD_BLOCKED" "t_state (thr ?k 6) = THREAD_BLOCKED"
    "t_state (thr ?k 9) = THREAD_READY"
    by (simp_all only: example_thr) (simp_all add: example_thread_def)
  have prio: "t_priority (thr ?k 10) = 16" "t_priority (thr ?k 2) = 16" "t_priority (thr ?k 4) = 16"
    "t_priority (thr ?k 5) = 16" "t_priority (thr ?k 6) = 16" "t_priority (thr ?k 9) = 0"
    by (simp_all only: example_thr) (simp_all add: example_thread_def)
  have wq: "blocking_wait_queue (thr ?k 2) = Some (WQ_mutex 3)" "blocking_wait_queue (thr ?k 5) = Some (WQ_event 7)"
    "blocking_wait_queue (thr ?k 6) = Some (WQ_event 7)"
    by (simp_all only: example_thr) (simp_all add: example_thread_def)
  have fr: "t_frames (thr ?k 10) = []" "F_thread_exit \<notin> set (t_frames (thr ?k 2))"
    "F_thread_exit \<notin> set (t_frames (thr ?k 4))" "F_thread_exit \<notin> set (t_frames (thr ?k 5))"
    "F_thread_exit \<notin> set (t_frames (thr ?k 6))" "F_thread_exit \<notin> set (t_frames (thr ?k 9))"
    "timed_wait (t_frames (thr ?k 4))"
    by (simp_all only: example_thr) (auto simp: example_thread_def timed_wait_def)
  have rq: "run_queue ?k = (\<lambda>_. [])(0 := [9], 16 := [4])" "run_queue_bitmap ?k = 65537"
    by (simp_all add: example_kernel_def)
  have wqs: "wqs ?k = (\<lambda>_. \<lparr>wq_magic = WAIT_QUEUE_MAGIC, wq_list = [], wq_count = 0\<rparr>)
        (WQ_mutex 3 := \<lparr>wq_magic = WAIT_QUEUE_MAGIC, wq_list = [2], wq_count = 1\<rparr>,
         WQ_event 7 := \<lparr>wq_magic = WAIT_QUEUE_MAGIC, wq_list = [5, 6], wq_count = 2\<rparr>)"
    by (simp add: example_kernel_def)
  have "rq_ok {} ?k"
    by (auto simp: rq_ok_def rq ready_at_def state prio bit_example_bitmap simp del: bit_numeral_word_iff)
  moreover have "wq_ok {} ?k"
    by (auto simp: wq_ok_def waiting_on_def wqs state wq split: if_splits)
  moreover have "timer_inv ?k"
    by (auto simp: timer_inv_def timer_sane_def) (auto simp: example_kernel_def kernel_bss_def split: if_splits)
  moreover have "tstack_ok ?k"
    by (auto simp: tstack_ok_def tstack_at_def fr) (simp add: example_kernel_def)
  moreover have "running_ok ?k" by (auto simp: running_ok_def state)
  ultimately show ?thesis
    by (simp add: kinv_def ksound_def kcore_def prio_ok_def frames_ok_def dpc_ok_def cleanups_def fr state prio)
qed

end
