(* ===== verification/LK_Sched_Props.thy ===== *)
theory LK_Sched_Props
  imports LK_Example
begin

unbundle bit_operations_syntax

text \<open>
  The properties of the kernel as a whole: the invariant and progress in every reachable state,
  the scheduling decision, the order in which waiting threads are woken, the timers, and the
  places where the code breaks its own rules.
\<close>

subsection \<open>Reachable states\<close>

definition kreach :: "timer_driver_fun \<Rightarrow> kernel \<Rightarrow> bool" where
  "kreach driver s \<longleftrightarrow> (\<exists>b dpc boot2 r1 r2 s0. distinct [b, fst dpc, fst boot2] \<and>
     kmain b dpc boot2 r1 r2 = Some s0 \<and> (kstep driver)\<^sup>*\<^sup>* s0 s)"

text \<open>The scan the source keeps, disabled, beside the bitmap lookup of \<open>thread_resched\<close>.\<close>

fun scan_run_queues :: "nat \<Rightarrow> kernel \<Rightarrow> (nat \<times> tid) option" where
  "scan_run_queues 0 s = None"
| "scan_run_queues (Suc i) s =
     (case run_queue s i of t # _ \<Rightarrow> Some (i, t) | [] \<Rightarrow> scan_run_queues i s)"

lemma kreach_ksys:
  assumes "timer_driver driver" and "kreach driver s"
  shows "ksys s"
proof -
  obtain b dpc boot2 r1 r2 s0 where b: "distinct [b, fst dpc, fst boot2]" "kmain b dpc boot2 r1 r2 = Some s0"
    and steps: "(kstep driver)\<^sup>*\<^sup>* s0 s"
    using assms(2) by (auto simp: kreach_def)
  have "ksys s0" using kmain_boots [OF b(1), of r1 r2] b(2) by auto
  with steps show ?thesis
    by (induction rule: rtranclp_induct) (auto intro: kstep_ksys [OF assms(1)])
qed

lemma kreach_step: "kreach driver s \<Longrightarrow> kstep driver s s' \<Longrightarrow> kreach driver s'"
  unfolding kreach_def by (meson rtranclp.rtrancl_into_rtrancl)

subsection \<open>The scheduling decision\<close>

lemma scan_None: "scan_run_queues n s = None \<longleftrightarrow> (\<forall>i < n. run_queue s i = [])"
  by (induction n) (auto split: list.splits simp: less_Suc_eq)

lemma scan_Some:
  "scan_run_queues n s = Some (p, t) \<longleftrightarrow> p < n \<and> (\<exists>rest. run_queue s p = t # rest) \<and>
     (\<forall>i. p < i \<longrightarrow> i < n \<longrightarrow> run_queue s i = [])"
proof (induction n)
  case (Suc n)
  show ?case
  proof (cases "run_queue s n")
    case Nil
    then show ?thesis using Suc by (auto simp: less_Suc_eq)
  next
    case (Cons u us)
    then show ?thesis by (auto simp: less_Suc_eq)
  qed
qed simp

text \<open>A switch goes to a ready thread of the highest priority.\<close>

lemma switch_highest:
  assumes sw: "kswitch s" and r: "thread_resched s = Some s'"
  shows "t_state (thr s (current_thread s')) = THREAD_READY" "current_thread s' \<in> set (thread_list s)"
    and "\<And>t. t \<in> set (thread_list s) \<Longrightarrow> t_state (thr s t) = THREAD_READY \<Longrightarrow>
      t_priority (thr s t) \<le> t_priority (thr s (current_thread s'))"
proof -
  have core: "kcore {} s" using sw by (simp add: kswitch_def ksound_def)
  have nz: "run_queue_bitmap s \<noteq> 0" using sw bitmap_nonzero [OF core] by (auto simp: kswitch_def)
  let ?p = "31 - clz32 (run_queue_bitmap s)"
  obtain new rest where n: "?p < 32" "run_queue s ?p = new # rest"
    and high: "\<And>j. ?p < j \<Longrightarrow> j < 32 \<Longrightarrow> run_queue s j = []"
    and new: "new \<in> set (thread_list s)" "t_state (thr s new) = THREAD_READY" "t_priority (thr s new) = int ?p"
    using thread_resched_eq [OF core nz refl] by metis
  have cur: "current_thread s' = new"
    using r thread_resched_unfold [OF nz refl n(2)] by (auto split: if_splits)
  show "t_state (thr s (current_thread s')) = THREAD_READY" "current_thread s' \<in> set (thread_list s)"
    using new cur by simp_all
  fix t assume t: "t \<in> set (thread_list s)" "t_state (thr s t) = THREAD_READY"
  have range: "0 \<le> t_priority (thr s t)" "t_priority (thr s t) < 32"
    using core t by (auto simp: kcore_def prio_ok_def)
  let ?q = "nat (t_priority (thr s t))"
  have q: "?q < 32" "t \<in> ready_at {} s ?q" using range t by (auto simp: ready_at_def)
  then have "t \<in> set (run_queue s ?q)" using core unfolding kcore_def rq_ok_def by blast
  then have "\<not> ?p < ?q" using high [of ?q] q(1) by auto
  then show "t_priority (thr s t) \<le> t_priority (thr s (current_thread s'))"
    using cur new(3) range by (simp add: not_less nat_le_iff)
qed

lemma unwind_current: "unwind ks r s = Some (r', s') \<Longrightarrow> current_thread s' = current_thread s"
  by (induction ks arbitrary: r s) (auto simp: bind_eq_Some_conv dest!: run_frame_sched)

text \<open>From the booted system, a timer interrupt takes the processor away from the idle thread.\<close>

lemma boot_then_irq:
  assumes drv: "timer_driver driver"
  shows "\<exists>s. kreach driver s \<and> idle_thread s \<noteq> Some (current_thread s)"
proof -
  obtain s0 where s0: "kmain 1 (2, 16) (3, 32) 4 5 = Some s0" "ksys s0" "current_thread s0 = 1"
    "idle_thread s0 = Some 1" "thread_list s0 = [3, 2, 1]" "ints_enabled s0" "timer_queue s0 = []"
    "t_priority (thr s0 1) = 0" "t_state (thr s0 2) = THREAD_READY" "t_priority (thr s0 2) = 30"
    using kmain_boots [of 1 "(2, 16)" "(3, 32)" 4 5] by auto
  have inv: "kinv s0" using s0(2) by (simp add: ksys_def)
  let ?s1 = "inc_critical_section (s0\<lparr>ints_enabled := False, clock := 10\<rparr>)"
  have inv1: "kinv ?s1" by (rule kinv_timers [OF inv])
      (use kinv_current(6) [OF inv] in \<open>simp_all add: inc_critical_section_def timer_inv_def\<close>)
  have tick: "timer_tick driver 10 ?s1 = Some (INT_RESCHEDULE, ?s1)"
    using s0 by (subst timer_tick_def, subst timer_loop.simps)
      (simp add: inc_critical_section_def thread_timer_tick_def)
  obtain x where x: "thread_preempt ?s1 = Some x" and ok: "kop_ok (critical_section_count ?s1) ?s1 x"
    using thread_preempt_ok [OF inv1] by blast
  obtain z where xz: "x = Switch [F_thread_preempt] z" and pz: "\<And>u. t_priority (thr z u) = t_priority (thr s0 u)"
    and sz: "t_state (thr z 2) = THREAD_READY"
    using x s0 by (auto simp: thread_preempt_def Let_def bind_eq_Some_conv inc_critical_section_def
        insert_head_Some insert_tail_Some split: if_splits)
  let ?ks = "[F_thread_preempt, F_arm_irq]"
  have op: "arm_irq driver 10 s0 = Some (Switch ?ks z)"
    using tick x xz by (simp add: arm_irq_def kthen_def)
  have ok': "kop_ok (critical_section_count ?s1 - exits F_arm_irq) ?s1 (Switch ?ks z)"
    using kthen_ok [OF ok, of F_arm_irq] xz by (simp add: kthen_def)
  then have sw: "kswitch (set_frames ?ks z)" and same: "same_threads ?s1 z" by simp_all
  obtain s' where s': "kcall (arm_irq driver 10) s0 = Some s'"
    using kop_ok_call [of "arm_irq driver 10" s0, OF op ok'] by blast
  then obtain r where r: "thread_resched (set_frames ?ks z) = Some r" and res: "resume_current r = Some s'"
    using op by (auto simp: kcall_def set_frames_def bind_eq_Some_conv)
  have "t_priority (thr (set_frames ?ks z) 2) \<le> t_priority (thr (set_frames ?ks z) (current_thread r))"
    by (rule switch_highest(3) [OF sw r]) (use same s0 sz in \<open>simp_all add: same_threads_def inc_critical_section_def\<close>)
  then have "current_thread r \<noteq> 1" using pz s0 by auto
  moreover have "current_thread s' = current_thread r"
    using res by (auto simp: resume_current_def bind_eq_Some_conv dest!: unwind_current)
  moreover have "idle_thread s' = Some 1"
    using timer_driver.arm_irq_ok [OF drv inv, of 10] s' s0(4) by auto
  moreover have "kreach driver s'"
  proof -
    have "kreach driver s0" unfolding kreach_def
      by (rule exI [of _ 1], rule exI [of _ "(2, 16)"], rule exI [of _ "(3, 32)"], rule exI [of _ 4],
          rule exI [of _ 5], rule exI [of _ s0]) (use s0(1) in simp)
    moreover have "kstep driver s0 s'" by (rule kstep.irq) (use s0 s' in simp_all)
    ultimately show ?thesis by (rule kreach_step)
  qed
  ultimately show ?thesis by auto
qed



text \<open>
  (C2) In every reachable state, a call made by a thread other than the idle thread, under its
  documented precondition, returns to some thread's code: no \<open>panic\<close>, no null thread scheduled. And
  the critical section depth of every thread is what it was, for the caller and for the thread
  that runs next.
\<close>

theorem reachable_call_returns:
  assumes "timer_driver driver" and "kreach driver s"
    and "idle_thread s \<noteq> Some (current_thread s)" and "api_pre a s"
  shows "\<exists>s'. kcall (api_op a) s = Some s' \<and> kreach driver s' \<and> (\<forall>t. user_cs s' t = user_cs s t)"
proof -
  obtain s' where s': "kcall (api_op a) s = Some s'" "\<forall>t. user_cs s' t = user_cs s t"
    using api_call_ok [OF kreach_ksys [OF assms(1,2)] assms(3,4)] by blast
  then show ?thesis
    using kreach_step [OF assms(2) kstep.call [OF assms(3,4) s'(1)]] by blast
qed

theorem reachable_call_returns_witness:
  "\<exists>s s'. kreach example_driver s \<and> kcall (api_op (A_thread_sleep 5)) s = Some s' \<and>
     (\<forall>t. user_cs s' t = user_cs s t)"
proof -
  obtain s where s: "kreach example_driver s" "idle_thread s \<noteq> Some (current_thread s)"
    using boot_then_irq [OF example_driver] by blast
  have "api_pre (A_thread_sleep 5) s" by simp
  then show ?thesis using reachable_call_returns [OF example_driver s] s(1) by blast
qed

text \<open>
  (C14) The bitmap lookup of \<open>thread_resched\<close> chooses the thread the disabled scan over all run
  queues would choose, the first of the highest priority, and removes it from that queue only; it
  fails only when no thread is ready.
\<close>

theorem resched_is_scan:
  assumes core: "kcore {} s" and mem: "current_thread s \<in> set (thread_list s)"
  shows "case scan_run_queues 32 s of
      None \<Rightarrow> thread_resched s = None
    | Some (p, new) \<Rightarrow> \<exists>s'. thread_resched s = Some s' \<and> current_thread s' = new \<and>
        run_queue s' = (run_queue s)(p := tl (run_queue s p)) \<and> kcore {} s'"
proof (cases "scan_run_queues 32 s")
  case None
  then have "\<forall>p < 32. \<not> bit (run_queue_bitmap s) p"
    using core by (simp add: scan_None kcore_def rq_ok_def)
  then have "run_queue_bitmap s = 0" using word32_nonzero_bit by blast
  then show ?thesis using None by (simp add: thread_resched_def)
next
  case (Some r)
  obtain p new where r: "r = (p, new)" by (cases r)
  obtain rest where p: "p < 32" "run_queue s p = new # rest" "\<And>i. p < i \<Longrightarrow> i < 32 \<Longrightarrow> run_queue s i = []"
    using Some r by (auto simp: scan_Some)
  have bitp: "bit (run_queue_bitmap s) p" using core p by (simp add: kcore_def rq_ok_def)
  then have nz: "run_queue_bitmap s \<noteq> 0" by auto
  note top = clz32_highest [OF nz]
  have "run_queue s (31 - clz32 (run_queue_bitmap s)) \<noteq> []"
    using core top by (auto simp: kcore_def rq_ok_def)
  then have eq: "31 - clz32 (run_queue_bitmap s) = p"
    using top(1) top(3) [of p] p bitp by (metis linorder_neqE_nat)
  note res = thread_resched_unfold [OF nz eq [symmetric] p(2)]
  have d: "kcore {} (dequeue_next p new rest s)" by (rule dequeue_next_core [OF core p(1,2)])
  then have "kcore {} (switch_to new (dequeue_next p new rest s))"
    by (simp add: switch_to_def Let_def kcore_upd_thr_same)
  then show ?thesis
    using Some r res d p(2) by (auto simp: switch_to_def Let_def)
qed

theorem resched_is_scan_witness:
  "\<exists>s. kcore {} s \<and> current_thread s \<in> set (thread_list s) \<and> scan_run_queues 32 s \<noteq> None \<and>
     thread_resched s \<noteq> None"
proof -
  obtain s0 where s0: "ksys s0" "current_thread s0 = 1" "thread_list s0 = [3, 2, 1]"
    "t_state (thr s0 2) = THREAD_READY" "t_priority (thr s0 2) = 30"
    using kmain_boots [of 1 "(2, 16)" "(3, 32)" 4 5] by auto
  have core: "kcore {} s0" using s0(1) by (simp add: ksys_def kinv_def ksound_def)
  have mem: "current_thread s0 \<in> set (thread_list s0)" by (simp add: s0)
  have "2 \<in> ready_at {} s0 30" using s0 by (simp add: ready_at_def)
  moreover have "set (run_queue s0 30) = ready_at {} s0 30" using core by (simp add: kcore_def rq_ok_def)
  ultimately have "run_queue s0 30 \<noteq> []" by auto
  then have some: "scan_run_queues 32 s0 \<noteq> None" by (auto simp: scan_None intro!: exI [of _ 30])
  then show ?thesis
    using resched_is_scan [OF core mem] core mem by (auto split: option.splits prod.splits)
qed



subsection \<open>Who is woken, and in which order\<close>

lemma wake_loop_queues:
  assumes "kmid s0 s" and "kcore {} s" and "wq_list (wqs s q) = ts" and "t_state (cur s) \<noteq> THREAD_BLOCKED"
    and "wake_loop q err ts s = Some s'"
  shows "(\<forall>p < 32. run_queue s' p = rev (filter (\<lambda>t. t_priority (thr s t) = int p) ts) @ run_queue s p) \<and>
    (\<forall>t \<in> set ts. t_state (thr s' t) = THREAD_READY \<and> wait_queue_block_ret (thr s' t) = err) \<and>
    (\<forall>t. t \<notin> set ts \<longrightarrow> thr s' t = thr s t) \<and> wq_list (wqs s' q) = []"
  using assms
proof (induction ts arbitrary: s)
  case (Cons u rest)
  let ?g = "\<lambda>w. w\<lparr>wq_list := rest, wq_count := wq_count w - 1\<rparr>"
  let ?s2 = "upd_thr u (make_ready err) (upd_wq q ?g s)"
  let ?p = "nat (t_priority (thr ?s2 u))"
  have w: "kcore {u} ?s2" "kmid s0 ?s2" "u \<in> set (thread_list s)" "u \<noteq> current_thread s"
    using unlink_waiter [OF Cons.prems(1,2), of u q ?g "make_ready err"] Cons.prems(3,4) by simp_all
  have "distinct (wq_list (wqs s q))" using Cons.prems(2) by (simp add: kcore_def wq_ok_def)
  then have dist: "u \<notin> set rest" using Cons.prems(3) by simp
  obtain s3 where s3: "insert_in_run_queue_head u ?s2 = Some s3" "kcore {} s3"
    and s3eq: "s3 = ?s2\<lparr>run_queue := (run_queue ?s2)(?p := u # run_queue ?s2 ?p),
             run_queue_bitmap := run_queue_bitmap ?s2 OR push_bit ?p 1\<rparr>"
    by (rule kcore_insert_head [of u "{}" ?s2]) (use w in simp_all)
  have mid3: "kmid s0 s3" using w(2) insert_head_Some(14) [OF s3(1), of s0] by simp
  have next3: "wq_list (wqs s3 q) = rest" "t_state (cur s3) \<noteq> THREAD_BLOCKED" "wake_loop q err rest s3 = Some s'"
    using Cons.prems(4,5) s3(1) w(4) by (simp_all add: s3eq Let_def)
  have IH: "(\<forall>p < 32. run_queue s' p = rev (filter (\<lambda>t. t_priority (thr s3 t) = int p) rest) @ run_queue s3 p) \<and>
    (\<forall>t \<in> set rest. t_state (thr s' t) = THREAD_READY \<and> wait_queue_block_ret (thr s' t) = err) \<and>
    (\<forall>t. t \<notin> set rest \<longrightarrow> thr s' t = thr s3 t) \<and> wq_list (wqs s' q) = []"
    by (rule Cons.IH [OF mid3 s3(2) next3])
  have prio: "t_priority (thr s3 t) = t_priority (thr s t)" for t by (simp add: s3eq)
  have range: "0 \<le> t_priority (thr s u)" using Cons.prems(2) w(3) by (auto simp: kcore_def prio_ok_def)
  have rq: "run_queue s3 p = (if t_priority (thr s u) = int p then u # run_queue s p else run_queue s p)" for p
    using range by (auto simp: s3eq)
  have "thr s' u = thr s3 u" using IH dist by simp
  then have "t_state (thr s' u) = THREAD_READY \<and> wait_queue_block_ret (thr s' u) = err" by (simp add: s3eq)
  moreover have "thr s' t = thr s t" if "t \<notin> set (u # rest)" for t
    using IH that by (simp add: s3eq)
  ultimately show ?case using IH by (simp add: prio rq)
qed simp

text \<open>
  (C24) \<open>wait_queue_wake_all\<close> without a reschedule returns the number of waiting threads and makes all of
  them ready with the given result. They go to the heads of their run queues one after the other,
  so those of one priority will run in the reverse of the order in which they came to wait, and
  before any thread that was ready already.
\<close>

theorem wake_all_order:
  assumes inv: "kinv s"
  shows "\<exists>s'. wait_queue_wake_all q False err s = Some (Ret (int (length (wq_list (wqs s q)))) s') \<and>
    wq_list (wqs s' q) = [] \<and>
    (\<forall>p < 32. run_queue s' p =
       rev (filter (\<lambda>t. t_priority (thr s t) = int p) (wq_list (wqs s q))) @ run_queue s p) \<and>
    (\<forall>t \<in> set (wq_list (wqs s q)). t_state (thr s' t) = THREAD_READY \<and> wait_queue_block_ret (thr s' t) = err) \<and>
    (\<forall>t. t \<notin> set (wq_list (wqs s q)) \<longrightarrow> thr s' t = thr s t)"
proof -
  note c = kinv_current [OF inv]
  obtain s' where s': "wake_loop q err (wq_list (wqs s q)) s = Some s'"
    using wake_loop_ok [OF kmid_refl [OF inv] c(4) refl] c(2) by force
  then have "wait_queue_wake_all q False err s = Some (Ret (int (length (wq_list (wqs s q)))) s')"
    by (simp add: wait_queue_wake_all_def Let_def)
  then show ?thesis
    using wake_loop_queues [OF kmid_refl [OF inv] c(4) refl _ s'] c(2) by auto
qed

theorem wake_all_order_witness:
  "\<exists>s'. wait_queue_wake_all (WQ_event 7) False 0 example_kernel = Some (Ret 2 s') \<and>
     run_queue s' 16 = [6, 5, 4]"
proof -
  have rq: "run_queue example_kernel 16 = [4]" by (simp add: example_kernel_def)
  have prio: "t_priority (thr example_kernel 5) = 16" "t_priority (thr example_kernel 6) = 16"
    by (simp_all only: example_thr) (simp_all add: example_thread_def)
  show ?thesis
    using wake_all_order [OF example_kinv, of "WQ_event 7" 0] by (auto simp: rq prio dest: spec [of _ 16])
qed

subsection \<open>Mutex hand-over\<close>

lemma resched_head:
  assumes sw: "kswitch s" and t: "t \<in> set (thread_list s)" "t_state (thr s t) = THREAD_READY"
    and head: "run_queue s (nat (t_priority (thr s t))) = t # rest"
    and top: "\<And>u. u \<in> set (thread_list s) \<Longrightarrow> t_state (thr s u) = THREAD_READY \<Longrightarrow>
      t_priority (thr s u) \<le> t_priority (thr s t)"
  shows "thread_resched s = Some (if t = current_thread s then dequeue_next (nat (t_priority (thr s t))) t rest s
     else switch_to t (dequeue_next (nat (t_priority (thr s t))) t rest s))"
proof -
  have core: "kcore {} s" using sw by (simp add: kswitch_def ksound_def)
  have nz: "run_queue_bitmap s \<noteq> 0" by (rule bitmap_nonzero [OF core t])
  let ?p = "31 - clz32 (run_queue_bitmap s)" and ?q = "nat (t_priority (thr s t))"
  obtain new more where n: "?p < 32" "run_queue s ?p = new # more"
    and high: "\<And>j. ?p < j \<Longrightarrow> j < 32 \<Longrightarrow> run_queue s j = []"
    and new: "new \<in> set (thread_list s)" "t_state (thr s new) = THREAD_READY" "t_priority (thr s new) = int ?p"
    using thread_resched_eq [OF core nz refl] by metis
  have range: "0 \<le> t_priority (thr s t)" "t_priority (thr s t) < 32"
    using core t by (auto simp: kcore_def prio_ok_def)
  have "?p \<le> ?q" using top [OF new(1,2)] new(3) by linarith
  moreover have "\<not> ?p < ?q" using high [of ?q] head range by (auto simp: nat_less_iff)
  ultimately have eq: "?q = ?p" by simp
  then show ?thesis
    using thread_resched_unfold [OF nz eq head] by simp
qed

lemma resume_acquire:
  assumes "t_frames (cur s) = [F_thread_block, F_wait_queue_block INFINITE_TIME, F_mutex_acquire m]"
    and "wait_queue_block_ret (cur s) = NO_ERROR"
  shows "resume_current s = Some (upd_thr (current_thread s) (\<lambda>x. x\<lparr>t_result := NO_ERROR\<rparr>)
    (exit_critical_section (upd_mtx m (\<lambda>x. x\<lparr>m_holder := Some (current_thread s)\<rparr>)
      (exit_critical_section (upd_thr (current_thread s) (\<lambda>x. x\<lparr>t_frames := []\<rparr>) s)))))"
  using assms by (simp add: resume_current_def run_frame_def Let_def)

text \<open>
  (C23) Releasing a mutex hands it over: the thread that has waited longest is made ready in front of
  the releasing thread; if no live thread has a higher priority it runs at once, and its
  \<open>mutex_acquire\<close> returns \<open>NO_ERROR\<close> with the thread as the holder. The count drops by one.
\<close>

theorem mutex_handover:
  assumes inv: "kinv s" and holder: "m_holder (mtx s m) = Some (current_thread s)"
    and count: "m_count (mtx s m) \<ge> 2" and q: "wq_list (wqs s (WQ_mutex m)) = t # rest"
    and fr: "t_frames (thr s t) = [F_thread_block, F_wait_queue_block INFINITE_TIME, F_mutex_acquire m]"
    and top: "\<forall>u \<in> set (thread_list s). live s u \<longrightarrow> t_priority (thr s u) \<le> t_priority (thr s t)"
  shows "\<exists>s'. kcall (mutex_release m) s = Some s' \<and> current_thread s' = t \<and>
    m_holder (mtx s' m) = Some t \<and> m_count (mtx s' m) = m_count (mtx s m) - 1 \<and>
    t_result (thr s' t) = NO_ERROR \<and> wq_list (wqs s' (WQ_mutex m)) = rest"
proof -
  let ?c = "current_thread s" and ?q = "WQ_mutex m"
  let ?s2 = "upd_mtx m (\<lambda>x. x\<lparr>m_holder := None, m_count := m_count x - 1\<rparr>) (enter_critical_section s)"
  let ?g = "\<lambda>w. w\<lparr>wq_list := rest, wq_count := wq_count w - 1\<rparr>"
  let ?s3 = "upd_thr t (make_ready NO_ERROR) (upd_wq ?q ?g ?s2)"
  let ?s4 = "upd_thr ?c (\<lambda>x. x\<lparr>t_state := THREAD_READY\<rparr>) ?s3"
  note c = kinv_current [OF inv]
  have inv2: "kinv ?s2" using inv by simp
  have t: "t \<in> set (thread_list s)" "t \<noteq> ?c"
    using unlink_waiter(3,4) [OF kmid_refl [OF inv2] kinv_current(4) [OF inv2], of t ?q ?g "make_ready NO_ERROR"] q c
    by simp_all
  obtain x where x: "wait_queue_wake_one ?q True NO_ERROR ?s2 = Some x"
    and ok: "kop_ok (critical_section_count ?s2) ?s2 x"
    using wait_queue_wake_one_ok [OF inv2] by blast
  obtain s5 z where s5: "insert_in_run_queue_head ?c ?s4 = Some s5" and z: "insert_in_run_queue_head t s5 = Some z"
    and xz: "x = Switch [F_wait_queue_wake_one] z"
    using x q by (auto simp: wait_queue_wake_one_def Let_def bind_eq_Some_conv)
  note f = insert_head_Some [OF s5] insert_head_Some [OF z]
  let ?ks = "[F_wait_queue_wake_one, F_mutex_release]"
  let ?z = "set_frames ?ks z"
  have zthr: "t_priority (thr z u) = t_priority (thr s u)"
    "t_state (thr z u) = (if u = t \<or> u = ?c then THREAD_READY else t_state (thr s u))" for u
    using f by simp_all
  have zt: "thr z t = make_ready NO_ERROR (thr s t)" using f t by simp
  have zsel: "current_thread z = ?c" "thread_list z = thread_list s" "mtx z = mtx ?s2" "wqs z = wqs ?s3"
    using f by simp_all
  obtain y where y: "kthen (Some x) F_mutex_release = Some y"
    and oky: "kop_ok (critical_section_count ?s2 - exits F_mutex_release) ?s2 y"
    using kthen_ok [OF ok, of F_mutex_release] by blast
  then have yz: "y = Switch ?ks z" and sw: "kswitch ?z" using xz by (auto simp: kthen_def)
  have op: "mutex_release m s = Some (Switch ?ks z)"
    using holder count x y yz by (simp add: mutex_release_def Let_def)
  let ?p = "nat (t_priority (thr s t))"
  have "run_queue z ?p = t # run_queue s5 ?p"
    using z f(1) by (auto simp: insert_in_run_queue_head_def Let_def zthr split: if_splits)
  then obtain more where head: "run_queue ?z (nat (t_priority (thr ?z t))) = t # more" using zthr by simp
  have "t_priority (thr ?z u) \<le> t_priority (thr ?z t)"
    if "u \<in> set (thread_list ?z)" "t_state (thr ?z u) = THREAD_READY" for u
    using that top zthr zsel kinv_live [OF inv] c(1) by (auto simp: live_def split: if_splits)
  then have r: "thread_resched ?z = Some (switch_to t (dequeue_next ?p t more ?z))" (is "_ = Some ?r")
    using resched_head [OF sw _ _ head] t zthr zsel by simp
  have rsel: "current_thread ?r = t" "mtx ?r = mtx z" "wqs ?r = wqs z" by simp_all
      (simp_all add: switch_to_def dequeue_next_def set_frames_def Let_def)
  have rfr: "t_frames (cur ?r) = [F_thread_block, F_wait_queue_block INFINITE_TIME, F_mutex_acquire m]"
    using zt t zsel fr by simp
  have rret: "wait_queue_block_ret (thr ?r t) = NO_ERROR"
    using zt t zsel by (simp add: switch_to_def dequeue_next_def set_frames_def Let_def)
  let ?done = "exit_critical_section (upd_thr t (\<lambda>x. x\<lparr>t_frames := []\<rparr>) ?r)"
  let ?s' = "exit_critical_section (upd_mtx m (\<lambda>x. x\<lparr>m_holder := Some t\<rparr>) ?done)"
  have "resume_current ?r = Some (upd_thr t (\<lambda>x. x\<lparr>t_result := NO_ERROR\<rparr>) ?s')"
    using resume_acquire [OF rfr] rret rsel(1) by simp
  then have "kcall (mutex_release m) s = Some (upd_thr t (\<lambda>x. x\<lparr>t_result := NO_ERROR\<rparr>) ?s')"
    using op r by (simp add: kcall_def set_frames_def)
  then show ?thesis using rsel zsel by simp
qed

theorem mutex_handover_witness:
  "\<exists>s'. kcall (mutex_release 3) example_kernel = Some s' \<and> current_thread s' = 2 \<and>
     m_holder (mtx s' 3) = Some 2 \<and> m_count (mtx s' 3) = 1"
proof -
  have fr: "t_frames (thr example_kernel 2) = [F_thread_block, F_wait_queue_block INFINITE_TIME, F_mutex_acquire 3]"
    by (simp only: example_thr) (simp add: example_thread_def)
  have top: "\<forall>u \<in> set (thread_list example_kernel). live example_kernel u \<longrightarrow>
      t_priority (thr example_kernel u) \<le> t_priority (thr example_kernel 2)"
    by (simp add: example_thr) (simp add: example_thread_def)
  have "\<exists>s'. kcall (mutex_release 3) example_kernel = Some s' \<and> current_thread s' = 2 \<and>
    m_holder (mtx s' 3) = Some 2 \<and> m_count (mtx s' 3) = m_count (mtx example_kernel 3) - 1 \<and>
    t_result (thr s' 2) = NO_ERROR \<and> wq_list (wqs s' (WQ_mutex 3)) = []"
    by (rule mutex_handover [OF example_kinv _ _ _ fr top]) simp_all
  then show ?thesis by auto
qed

subsection \<open>Events\<close>

text \<open>
  (C25) Signalling an event with \<open>EVENT_FLAG_AUTOUNSIGNAL\<close> releases one wait and no more. With no thread
  waiting the event stays signalled until the next \<open>event_wait\<close>, which returns at once and clears it.
  With threads waiting, the one that came first is made ready with \<open>NO_ERROR\<close>, the others go on
  waiting, and the event is not signalled.
\<close>

theorem auto_event_releases_one:
  assumes inv: "kinv s" and auto: "e_flags (evt s e) AND EVENT_FLAG_AUTOUNSIGNAL \<noteq> 0"
    and unsig: "\<not> e_signalled (evt s e)"
  shows "case wq_list (wqs s (WQ_event e)) of
      [] \<Rightarrow> \<exists>s1 s2. event_signal e False s = Some (Ret NO_ERROR s1) \<and> e_signalled (evt s1 e) \<and>
        event_wait_timeout e timeout s1 = Some (Ret NO_ERROR s2) \<and> \<not> e_signalled (evt s2 e) \<and>
        critical_section_count s2 = critical_section_count s
    | t # rest \<Rightarrow> \<exists>s1. event_signal e False s = Some (Ret NO_ERROR s1) \<and> \<not> e_signalled (evt s1 e) \<and>
        t_state (thr s1 t) = THREAD_READY \<and> wait_queue_block_ret (thr s1 t) = NO_ERROR \<and>
        wq_list (wqs s1 (WQ_event e)) = rest \<and> (\<forall>u. u \<noteq> t \<longrightarrow> thr s1 u = thr s u)"
proof (cases "wq_list (wqs s (WQ_event e))")
  case Nil
  then show ?thesis
    using auto unsig
    by (simp add: event_signal_def wait_queue_wake_one_def kthen_def run_frame_def event_wait_timeout_def Let_def)
next
  case (Cons t rest)
  let ?s = "enter_critical_section s"
  let ?g = "\<lambda>w. w\<lparr>wq_list := rest, wq_count := wq_count w - 1\<rparr>"
  let ?u = "upd_thr t (make_ready NO_ERROR) (upd_wq (WQ_event e) ?g ?s)"
  have inv': "kinv ?s" using inv by simp
  note c = kinv_current [OF inv']
  have w: "kcore {t} ?u" "t \<in> set (thread_list s)"
    using unlink_waiter [OF kmid_refl [OF inv'] c(4), of t "WQ_event e" ?g "make_ready NO_ERROR"] Cons c by simp_all
  obtain s' where s': "insert_in_run_queue_head t ?u = Some s'"
    by (rule kcore_insert_head [of t "{}" ?u]) (use w in simp_all)
  note f = insert_head_Some [OF s']
  show ?thesis
    using Cons auto unsig s' f
    by (simp add: event_signal_def wait_queue_wake_one_def kthen_def run_frame_def Let_def)
qed

theorem auto_event_releases_one_witness:
  "\<exists>s1. event_signal 7 False (upd_evt 7 (\<lambda>x. x\<lparr>e_flags := 1\<rparr>) example_kernel) = Some (Ret 0 s1) \<and>
     t_state (thr s1 5) = THREAD_READY \<and> wq_list (wqs s1 (WQ_event 7)) = [6]"
proof -
  let ?k = "upd_evt 7 (\<lambda>x. x\<lparr>e_flags := 1\<rparr>) example_kernel"
  have inv: "kinv ?k" using example_kinv by simp
  have e: "\<not> e_signalled (evt ?k 7)" "e_flags (evt ?k 7) AND EVENT_FLAG_AUTOUNSIGNAL \<noteq> 0"
    by (simp_all add: example_kernel_def kernel_bss_def)
  show ?thesis using auto_event_releases_one [OF inv e(2,1)] by auto
qed

subsection \<open>Timers\<close>

text \<open>
  (C26) Setting a timer keeps the queue in the order of expiry, behind timers with the same time, as
  long as all times lie in one window of half the clock's range; and in such a queue, when the
  first timer is not due, none is.
\<close>

theorem timer_set_sorted:
  assumes "timer_inv s" and "tq_sorted base s" and "since base (clock s + d) < half_range"
    and "timer_sane i ((tms s i)\<lparr>tm_periodic_time := p, tm_callback := cb\<rparr>)"
    and "timer_set i d p cb a s = Some s'" and "since base now < half_range"
  shows "tq_sorted base s' \<and> set (timer_queue s') = insert i (set (timer_queue s)) \<and>
    (TIME_LT now (tm_scheduled_time (tms s' (hd (timer_queue s')))) \<longrightarrow>
       (\<forall>j \<in> set (timer_queue s'). TIME_LT now (tm_scheduled_time (tms s' j))))"
proof -
  note t = timer_set_inv [OF assms(1,5,4)]
  let ?at = "\<lambda>j. tm_scheduled_time (tms s' j)"
  have same: "?at j = tm_scheduled_time (tms s j)" if "j \<in> set (timer_queue s)" for j
    using t(3) [of j] t(4) that by auto
  have win: "\<forall>j \<in> insert i (set (timer_queue s)). since base (?at j) < half_range"
    using assms(2,3) t(3) [of i] same by (auto simp: tq_sorted_def)
  have "map (\<lambda>j. since base (?at j)) (timer_queue s) =
      map (\<lambda>j. since base (tm_scheduled_time (tms s j))) (timer_queue s)"
    using same by simp
  then have "sorted (map (\<lambda>j. since base (?at j)) (timer_queue s))"
    using assms(2) by (simp only: tq_sorted_def)
  then have "sorted (map (\<lambda>j. since base (?at j)) (timer_queue s'))"
    unfolding t(2) by (rule sorted_insert_before_later [OF win])
  then have sorted: "tq_sorted base s'" using win by (simp add: tq_sorted_def t(2))
  moreover have q: "set (timer_queue s') = insert i (set (timer_queue s))" by (simp add: t(2))
  moreover have "\<forall>j \<in> set (timer_queue s'). TIME_LT now (?at j)"
    if "TIME_LT now (?at (hd (timer_queue s')))"
  proof -
    obtain k ks where k: "timer_queue s' = k # ks" using q by (cases "timer_queue s'") auto
    then show ?thesis using sorted_none_due [OF sorted assms(6) k] that by simp
  qed
  ultimately show ?thesis by blast
qed

theorem timer_set_sorted_witness:
  "\<exists>s'. timer_set (Tobject 1) 30 0 (CB_driver 1) 0 example_kernel = Some s' \<and>
     timer_queue s' = [Tobject 1, Tstack 4] \<and> tq_sorted 0 s'"
proof -
  have ti: "timer_inv example_kernel" using example_kinv by (simp add: kinv_def ksound_def)
  have "\<not> tm_linked (tms example_kernel (Tobject 1))" by (simp add: example_kernel_def kernel_bss_def)
  then obtain s' where s': "timer_set (Tobject 1) 30 0 (CB_driver 1) 0 example_kernel = Some s'"
    by (simp add: timer_set_def Let_def)
  have sorted: "tq_sorted 0 example_kernel" by (simp add: tq_sorted_def since_def)
  have sane: "timer_sane (Tobject 1) ((tms example_kernel (Tobject 1))\<lparr>tm_periodic_time := 0, tm_callback := CB_driver 1\<rparr>)"
    by (simp add: timer_sane_def)
  have "tq_sorted 0 s'"
    using timer_set_sorted [OF ti sorted _ sane s', of 0] by (simp add: since_def)
  moreover have "timer_queue s' = [Tobject 1, Tstack 4]"
    using timer_set_inv(2,3) [OF ti s' sane] by (simp add: TIME_GT_def)
  ultimately show ?thesis using s' by blast
qed

text \<open>
  (C33) Firing the timer on a thread's stack keeps the invariant, wakes a sleeping thread, and ends a
  wait that is still going on with \<open>ERR_TIMED_OUT\<close>. If the thread has been woken in the meantime and
  has not run yet, the handler leaves the critical section count one higher than it found it: the
  early return of \<open>thread_unblock_from_wait_queue\<close> does not leave the section it entered.
\<close>

theorem stack_timer_fires:
  assumes "timer_driver driver" and inv: "kinv s" and i: "Tstack t \<in> set (timer_queue s)"
  shows "\<exists>h s'. timer_fire driver now (Tstack t) s = Some (h, s') \<and> kinv s' \<and>
    Tstack t \<notin> set (timer_queue s') \<and>
    critical_section_count s' = critical_section_count s +
      (if tm_callback (tms s (Tstack t)) = CB_wait_queue_timeout_handler \<and>
          t_state (thr s t) \<noteq> THREAD_BLOCKED then 1 else 0)"
proof -
  obtain h s' where f: "timer_fire driver now (Tstack t) s = Some (h, s')" "fired now (Tstack t) s s'"
    and cs: "critical_section_count s' = critical_section_count s +
      (if tm_callback (tms s (Tstack t)) = CB_wait_queue_timeout_handler \<and>
          t_state (thr s t) \<noteq> THREAD_BLOCKED then 1 else 0)"
    using timer_driver.timer_fire_stack [OF assms] by blast
  have "Tstack t \<notin> set (timer_queue s')"
    by (rule timer_driver.timer_fire_stack_gone [OF assms f(1)])
  then show ?thesis using f cs by (auto simp: fired_def)
qed

theorem stack_timer_fires_witness:
  "\<exists>h s'. timer_fire example_driver 100 (Tstack 4) example_kernel = Some (h, s') \<and>
     critical_section_count s' = 1"
proof -
  have "t_state (thr example_kernel 4) \<noteq> THREAD_BLOCKED"
    by (simp only: example_thr) (simp add: example_thread_def)
  then show ?thesis
    using stack_timer_fires [OF example_driver example_kinv, of 4 100] by auto
qed

subsection \<open>Where the code breaks its own rules\<close>

text \<open>
  \<open>thread_resume\<close> tests only for ready and running threads: a blocked thread is put on a run queue
  while it is still on its wait queue, and the call reports success.
\<close>

lemma resume_blocked_corrupts:
  assumes inv: "kinv s" and t: "t \<in> set (thread_list s)" "t_state (thr s t) = THREAD_BLOCKED"
    and q: "blocking_wait_queue (thr s t) = Some q"
  shows "\<exists>z. thread_resume t s = Some (Switch [F_thread_yield, F_thread_resume] z) \<and>
    t_state (thr z t) = THREAD_READY \<and> t \<in> set (wq_list (wqs z q)) \<and> \<not> wq_ok {} z"
proof -
  note c = kinv_current [OF inv]
  have ne: "t \<noteq> current_thread s" using t c by auto
  have mem: "t \<in> set (wq_list (wqs s q))" using c(4) t q by (auto simp: kcore_def wq_ok_def waiting_on_def)
  have range: "0 \<le> t_priority (thr s u) \<and> t_priority (thr s u) < 32" if "u \<in> set (thread_list s)" for u
    using c(4) that by (auto simp: kcore_def prio_ok_def)
  let ?u = "upd_thr t (\<lambda>x. x\<lparr>t_state := THREAD_READY\<rparr>) (enter_critical_section s)"
  obtain s1 where s1: "insert_in_run_queue_head t ?u = Some s1"
    using range [OF t(1)] by (simp add: insert_in_run_queue_head_def Let_def)
  note f = insert_head_Some [OF s1]
  let ?v = "upd_thr (current_thread s1) (\<lambda>t. t\<lparr>t_state := THREAD_READY, remaining_quantum := 0\<rparr>) (enter_critical_section s1)"
  obtain z where z: "insert_in_run_queue_tail (current_thread s1) ?v = Some z"
    using range [OF c(1)] ne by (simp add: insert_in_run_queue_tail_def Let_def f)
  note g = insert_tail_Some [OF z]
  have zt: "t_state (thr z t) = THREAD_READY" "wqs z = wqs s" using f g ne by simp_all
  moreover have "\<not> wq_ok {} z"
    using mem zt by (auto simp: wq_ok_def waiting_on_def dest: spec [of _ q])
  ultimately show ?thesis
    using s1 z t mem by (simp add: thread_resume_def thread_yield_def kthen_def Let_def)
qed

text \<open>
  With \<open>reschedule\<close> set, \<open>thread_unblock_from_wait_queue\<close> calls \<open>thread_resched\<close> while its caller is marked
  running and is on no run queue: the caller is never scheduled again.
\<close>

lemma unblock_reschedule_loses_caller:
  assumes inv: "kinv s" and pre: "unblockable t s"
  shows "\<exists>z. thread_unblock_from_wait_queue t True err s = Some (Switch [F_thread_unblock] z) \<and>
    t_state (cur z) = THREAD_RUNNING \<and> (\<forall>p < 32. current_thread z \<notin> set (run_queue z p))"
proof -
  note c = kinv_current [OF inv]
  obtain s' where s': "thread_unblock_from_wait_queue t False err s = Some (Ret NO_ERROR s')"
    and ok: "kop_ok (critical_section_count s) s (Ret NO_ERROR s')"
    using thread_unblock_ok [OF inv pre] by blast
  obtain z where z: "thread_unblock_from_wait_queue t True err s = Some (Switch [F_thread_unblock] z)"
    and eq: "s' = exit_critical_section z"
    using s' by (auto simp: thread_unblock_from_wait_queue_def Let_def bind_eq_Some_conv
        split: if_splits option.splits)
  have inv': "kinv s'" using ok by simp
  have "current_thread s' \<notin> set (run_queue s' p)" if "p < 32" for p
    using kinv_current(2,4) [OF inv'] that by (auto simp: kcore_def rq_ok_def ready_at_def)
  then show ?thesis using z eq kinv_current(2) [OF inv'] by simp
qed

text \<open>
  A periodic timer whose period exceeds half the clock's range is due again as soon as it has
  fired: \<open>timer_tick\<close> never returns.
\<close>

definition stuck :: "u32 \<Rightarrow> nat \<Rightarrow> timer_id \<Rightarrow> kernel \<Rightarrow> bool" where
  "stuck now n i s \<longleftrightarrow> timer_queue s = [i] \<and> \<not> TIME_LT now (tm_scheduled_time (tms s i)) \<and>
     tm_callback (tms s i) = CB_driver n \<and> 0x80000000 < tm_periodic_time (tms s i)"

lemma not_TIME_LT_far:
  fixes x :: u32
  assumes "0x80000000 < x"
  shows "\<not> TIME_LT now (now + x)"
proof -
  have a: "0x80000000 < uint x" "uint x < 0x100000000"
    using assms uint_bounded [of x] by (simp_all add: word_less_def)
  have zero: "(0x100000000 :: u32) = 0" by code_simp
  have wrap: "0x100000000 - x = - x" unfolding zero by simp
  have "sint (- x) = signed_take_bit 31 (0x100000000 - uint x)"
    using sint_sbintrunc' [where ?'a = 32, of "0x100000000 - uint x"] by (simp add: wrap)
  also have "\<dots> = 0x100000000 - uint x"
    by (rule signed_take_bit_int_eq_self) (use a in simp_all)
  finally show ?thesis using a by (simp add: TIME_LT_def)
qed

lemma stuck_fire:
  assumes st: "stuck now n i s" and driver: "\<And>s a. driver n i now a s = Some (INT_NO_RESCHEDULE, s)"
  shows "\<exists>h s'. timer_fire driver now i s = Some (h, s') \<and> stuck now n i s'"
proof -
  have "0 < tm_periodic_time (tms s i)"
    using st unfolding stuck_def by (metis word_gt_0 word_zero_le le_less_trans)
  then show ?thesis
    using st driver not_TIME_LT_far [of "tm_periodic_time (tms s i)" now]
    by (simp add: stuck_def timer_fire_def timer_call_def Let_def)
qed

lemma timer_loop_diverges:
  assumes driver: "\<And>s a. driver n i now a s = Some (INT_NO_RESCHEDULE, s)"
    and "stuck now n i s"
  shows "timer_loop driver now ret s = None"
proof -
  have "d = driver \<longrightarrow> t = now \<longrightarrow> \<not> stuck now n i s" if "timer_loop d t ret s = Some y" for d t y ret s
  proof (rule timer_loop.raw_induct [OF _ that, where P = "\<lambda>d t r s y. d = driver \<longrightarrow> t = now \<longrightarrow> \<not> stuck now n i s"],
      intro impI notI)
    fix loop d t r s y
    assume IH: "\<And>d t r s y. loop d t r s = Some y \<Longrightarrow> d = driver \<longrightarrow> t = now \<longrightarrow> \<not> stuck now n i s"
      and body: "(case timer_queue s of [] \<Rightarrow> Some (r, s)
        | i # x \<Rightarrow> if TIME_LT t (tm_scheduled_time (tms s i)) then Some (r, s)
            else timer_fire d t i s \<bind> (\<lambda>(h, s'). loop d t (if h = INT_RESCHEDULE then INT_RESCHEDULE else r) s')) = Some y"
      and eq: "d = driver" "t = now" and st: "stuck now n i s"
    obtain h s' where "timer_fire driver now i s = Some (h, s')" "stuck now n i s'"
      using stuck_fire [OF st, of driver] driver by blast
    then show False using IH [of driver now _ s' y] body eq st by (auto simp: stuck_def)
  qed
  then show ?thesis using assms(2) by (cases "timer_loop driver now ret s") auto
qed

end
