(* ===== verification/LK_Cbuf.thy ===== *)
theory LK_Cbuf
  imports LK_Example
begin

unbundle bit_operations_syntax

text \<open>
  The circular buffer (\<^verbatim>\<open>lib/cbuf/cbuf.c\<close>, with the power-of-two helpers of \<^verbatim>\<open>include/pow2.h\<close>).
  The buffer is compared with a bounded first-in first-out queue: reads always agree with it, writes
  agree except in two situations that the code mishandles and that are stated exactly. Reading and
  writing wait for and signal a kernel event, so both are kernel operations as well.
\<close>

subsection \<open>Powers of two (include/pow2.h)\<close>

definition ispow2 :: "u32 \<Rightarrow> bool" where
  "ispow2 val \<longleftrightarrow> (val - 1) AND val = 0"

text \<open>\<open>__builtin_ctz\<close>; the builtin is undefined at 0, where this gives 32.\<close>

fun ctz_from :: "nat \<Rightarrow> u32 \<Rightarrow> nat" where
  "ctz_from 0 w = 32"
| "ctz_from (Suc n) w = (if bit w (31 - n) then 31 - n else ctz_from n w)"

definition log2_uint :: "u32 \<Rightarrow> u32" where
  "log2_uint val = (if \<not> ispow2 val then 0 else of_nat (ctz_from 32 val))"

definition valpow2 :: "u32 \<Rightarrow> u32" where
  "valpow2 valp2 = push_bit (unat valp2) 1"

definition modpow2 :: "u32 \<Rightarrow> u32 \<Rightarrow> u32" where
  "modpow2 val modp2 = val AND (push_bit (unat modp2) 1 - 1)"

subsection \<open>The buffer (lib/cbuf/cbuf.c)\<close>

record cbuf_t =
  cb_head :: u32
  cb_tail :: u32
  cb_len_pow2 :: u32
  cb_buf :: "u8 list"
  cb_event :: nat

definition INC_POINTER :: "cbuf_t \<Rightarrow> u32 \<Rightarrow> nat \<Rightarrow> u32" where
  "INC_POINTER c ptr inc = modpow2 (ptr + of_nat inc) (cb_len_pow2 c)"

text \<open>\<open>mem\<close> is what \<open>malloc(len)\<close> returned.\<close>

definition cbuf_initialize :: "u32 \<Rightarrow> u8 list \<Rightarrow> nat \<Rightarrow> kernel \<Rightarrow> cbuf_t \<times> kernel" where
  "cbuf_initialize len mem e s =
     (\<lparr>cb_head = 0, cb_tail = 0, cb_len_pow2 = log2_uint len, cb_buf = mem, cb_event = e\<rparr>,
      event_init e False 0 s)"

definition cbuf_space_avail :: "cbuf_t \<Rightarrow> u32" where
  "cbuf_space_avail c = cb_head c + valpow2 (cb_len_pow2 c) - cb_tail c - 1"

definition cbuf_write_len :: "cbuf_t \<Rightarrow> nat \<Rightarrow> nat" where
  "cbuf_write_len c left =
     (if cb_tail c \<le> cb_head c then min (unat (valpow2 (cb_len_pow2 c) - cb_head c)) left
      else min (unat (cb_tail c - cb_head c - 1)) left)"

text \<open>
  The loop of \<open>cbuf_write\<close>: \<open>buf\<close> is what is left to write, the result is the number of bytes written.
  A copy outside of the buffer is \<open>None\<close>.
\<close>

function cbuf_write_loop :: "u8 list \<Rightarrow> cbuf_t \<Rightarrow> (nat \<times> cbuf_t) option" where
  "cbuf_write_loop buf c =
     (if buf \<noteq> [] \<and> 0 < cbuf_space_avail c
      then let write_len = cbuf_write_len c (length buf) in
           if write_len = 0 then Some (0, c)
           else do {
             b \<leftarrow> memcpy_into (unat (cb_head c)) (take write_len buf) (cb_buf c);
             (pos, c') \<leftarrow> cbuf_write_loop (drop write_len buf)
                           (c\<lparr>cb_buf := b, cb_head := INC_POINTER c (cb_head c) write_len\<rparr>);
             Some (write_len + pos, c') }
      else Some (0, c))"
  by pat_completeness auto
termination by (relation "measure (\<lambda>(buf, _). length buf)") auto

declare cbuf_write_loop.simps [simp del]

definition cbuf_write :: "u8 list \<Rightarrow> bool \<Rightarrow> cbuf_t \<Rightarrow> kernel \<Rightarrow> (nat \<times> cbuf_t \<times> kout) option" where
  "cbuf_write buf canreschedule c s =
     (let s1 = enter_critical_section s in do {
        (pos, c') \<leftarrow> cbuf_write_loop buf c;
        x \<leftarrow> kthen (if cb_head c' \<noteq> cb_tail c' then event_signal (cb_event c') canreschedule s1
                    else Some (Ret 0 s1)) (F_cbuf_write (int pos));
        Some (pos, c', x) })"

text \<open>
  The loop of \<open>cbuf_read\<close>. \<open>None\<close> stands for a copy from outside of the buffer and for a turn that makes
  no progress, after which the loop would never end.
\<close>

function cbuf_read_loop :: "nat \<Rightarrow> cbuf_t \<Rightarrow> (u8 list \<times> cbuf_t) option" where
  "cbuf_read_loop left c =
     (if 0 < left \<and> cb_tail c \<noteq> cb_head c
      then let read_len = (if cb_tail c < cb_head c then min (unat (cb_head c - cb_tail c)) left
                           else min (unat (valpow2 (cb_len_pow2 c) - cb_tail c)) left) in
           if read_len = 0 \<or> length (cb_buf c) < unat (cb_tail c) + read_len then None
           else do {
             (bytes, c') \<leftarrow> cbuf_read_loop (left - read_len)
                             (c\<lparr>cb_tail := INC_POINTER c (cb_tail c) read_len\<rparr>);
             Some (slice (unat (cb_tail c)) read_len (cb_buf c) @ bytes, c') }
      else Some ([], c))"
  by pat_completeness auto
termination by (relation "measure fst") auto

declare cbuf_read_loop.simps [simp del]

text \<open>
  \<open>cbuf_read\<close> up to and including its wait is a kernel operation; what follows runs when the wait has
  returned to the thread.
\<close>

definition cbuf_read_wait :: "bool \<Rightarrow> cbuf_t \<Rightarrow> kop" where
  "cbuf_read_wait block c s =
     (let s1 = enter_critical_section s in
      if block then event_wait (cb_event c) s1 else Some (Ret 0 s1))"

definition cbuf_read_take :: "nat \<Rightarrow> cbuf_t \<Rightarrow> kernel \<Rightarrow> (u8 list \<times> cbuf_t \<times> kernel) option" where
  "cbuf_read_take buflen c s =
     (if cb_tail c \<noteq> cb_head c
      then do {
        (bytes, c') \<leftarrow> cbuf_read_loop buflen c;
        x \<leftarrow> (if cb_tail c' = cb_head c' then event_unsignal (cb_event c') s else Some (Ret 0 s));
        Some (bytes, c', exit_critical_section (kout_state x)) }
      else Some ([], c, exit_critical_section s))"

subsection \<open>The bounded queue\<close>

text \<open>What the buffer holds, oldest byte first.\<close>

abbreviation cb_size :: "cbuf_t \<Rightarrow> nat" where "cb_size c \<equiv> 2 ^ unat (cb_len_pow2 c)"

definition contents :: "cbuf_t \<Rightarrow> u8 list" where
  "contents c =
     (let h = unat (cb_head c); t = unat (cb_tail c) in
      if t \<le> h then slice t (h - t) (cb_buf c) else drop t (cb_buf c) @ take h (cb_buf c))"

definition cbuf_ok :: "cbuf_t \<Rightarrow> bool" where
  "cbuf_ok c \<longleftrightarrow> unat (cb_len_pow2 c) < 32 \<and> length (cb_buf c) = cb_size c \<and>
     unat (cb_head c) < cb_size c \<and> unat (cb_tail c) < cb_size c"

text \<open>
  When \<open>cbuf_write\<close> writes \<open>n\<close> bytes as a bounded queue would. It does not in two situations: the write
  reaches the end of the buffer while the tail is at 0, or it meets the head at 0 with the tail at
  the last byte, where \<open>cbuf_space_avail\<close> is 0 for a buffer that is all but empty.
\<close>

definition write_fits :: "cbuf_t \<Rightarrow> nat \<Rightarrow> bool" where
  "write_fits c n \<longleftrightarrow>
     (let h = unat (cb_head c); t = unat (cb_tail c); size = cb_size c in
      (t = 0 \<longrightarrow> h + n < size) \<and>
      (0 < n \<and> t = size - 1 \<and> 2 < size \<longrightarrow> h \<noteq> 0 \<and> (h = t \<longrightarrow> n \<le> 1)))"

subsection \<open>Word arithmetic of the buffer\<close>

lemma unat_valpow2: "unat n < 32 \<Longrightarrow> unat (valpow2 n) = 2 ^ unat n"
  by (simp add: valpow2_def push_bit_eq_mult unat_2p_u32)

lemma unat_modpow2: "unat n < 32 \<Longrightarrow> unat (modpow2 v n) = unat v mod 2 ^ unat n"
  by (simp add: modpow2_def push_bit_eq_mult flip: mask_eq_exp_minus_1 take_bit_eq_mask)
    (simp add: take_bit_eq_mod unat_mod_distrib unat_2p_u32)

lemma size_le: "cbuf_ok c \<Longrightarrow> cb_size c \<le> 2 ^ 31"
  unfolding cbuf_ok_def by (rule power_increasing) simp_all

lemma unat_INC:
  assumes "cbuf_ok c" and "unat p < cb_size c" and "k \<le> cb_size c"
  shows "unat (INC_POINTER c p k) = (unat p + k) mod cb_size c"
proof -
  have "unat p + k < 2 ^ 32" using assms size_le [OF assms(1)] by simp
  then have "unat (p + of_nat k) = unat p + k" by (rule unat_add_of_nat_u32)
  then show ?thesis using assms by (simp add: INC_POINTER_def unat_modpow2 cbuf_ok_def)
qed

lemma space_avail_0:
  assumes "cbuf_ok c"
  shows "cbuf_space_avail c = 0 \<longleftrightarrow> unat (cb_head c) + cb_size c = unat (cb_tail c) + 1"
proof -
  let ?h = "unat (cb_head c)" and ?t = "unat (cb_tail c)" and ?n = "cb_size c"
  have le: "?t + 1 \<le> ?h + ?n" "?h + ?n < 2 ^ 32" using assms size_le [OF assms] by (auto simp: cbuf_ok_def)
  have v: "valpow2 (cb_len_pow2 c) = of_nat ?n" by (simp add: valpow2_def push_bit_eq_mult)
  have "cbuf_space_avail c = of_nat (?h + ?n - (?t + 1))"
    using le by (simp add: cbuf_space_avail_def v of_nat_diff)
  then have "unat (cbuf_space_avail c) = ?h + ?n - (?t + 1)"
    using le unat_of_nat_u32 [of "?h + ?n - (?t + 1)"] by simp
  then show ?thesis using le by (metis diff_is_0_eq le_antisym order_refl unat_eq_zero)
qed

lemma unat_tail_gap:
  assumes "cb_head c < cb_tail c"
  shows "unat (cb_tail c - cb_head c - 1) = unat (cb_tail c) - unat (cb_head c) - 1"
proof -
  have d: "unat (cb_tail c - cb_head c) = unat (cb_tail c) - unat (cb_head c)"
    using assms by (simp add: unat_sub less_imp_le)
  then have "1 \<le> cb_tail c - cb_head c" using assms by (simp add: word_le_nat_alt word_less_nat_alt)
  then show ?thesis using d by (simp add: unat_sub)
qed

lemma unat_to_end:
  assumes "cbuf_ok c" and "unat p < cb_size c"
  shows "unat (valpow2 (cb_len_pow2 c) - p) = cb_size c - unat p"
proof -
  have "unat (valpow2 (cb_len_pow2 c)) = cb_size c" using assms by (simp add: cbuf_ok_def unat_valpow2)
  moreover from this have "p \<le> valpow2 (cb_len_pow2 c)" using assms by (simp add: word_le_nat_alt)
  ultimately show ?thesis by (simp add: unat_sub)
qed

lemma length_contents:
  assumes "cbuf_ok c"
  shows "length (contents c) =
    (if unat (cb_tail c) \<le> unat (cb_head c) then unat (cb_head c) - unat (cb_tail c)
     else cb_size c + unat (cb_head c) - unat (cb_tail c))"
  using assms by (auto simp: contents_def cbuf_ok_def Let_def)

lemma contents_Nil: "cbuf_ok c \<Longrightarrow> contents c = [] \<longleftrightarrow> cb_head c = cb_tail c"
  using length_contents [of c] by (auto simp: cbuf_ok_def word_unat_eq_iff split: if_splits)

subsection \<open>Reading\<close>

lemma contents_read:
  assumes ok: "cbuf_ok c" and k: "unat (cb_tail c) + k \<le> cb_size c" "0 < k"
    and le: "unat (cb_tail c) < unat (cb_head c) \<Longrightarrow> unat (cb_tail c) + k \<le> unat (cb_head c)"
    and ne: "cb_tail c \<noteq> cb_head c"
  defines "c' \<equiv> c\<lparr>cb_tail := INC_POINTER c (cb_tail c) k\<rparr>"
  shows "cbuf_ok c'" and "contents c = slice (unat (cb_tail c)) k (cb_buf c) @ contents c'"
proof -
  let ?h = "unat (cb_head c)" and ?t = "unat (cb_tail c)" and ?s = "cb_size c"
  have len: "length (cb_buf c) = ?s" "?h < ?s" "?t < ?s" using ok by (auto simp: cbuf_ok_def)
  have t': "unat (cb_tail c') = (?t + k) mod ?s" using unat_INC [OF ok len(3), of k] k by (simp add: c'_def)
  show "cbuf_ok c'" using ok t' by (simp add: cbuf_ok_def c'_def)
  have d: "drop ?t (cb_buf c) = slice ?t k (cb_buf c) @ drop (?t + k) (cb_buf c)"
    by (metis slice_def append_take_drop_id drop_drop add.commute)
  consider "?t < ?h" | "?h < ?t" "?t + k < ?s" | "?h < ?t" "?t + k = ?s"
    using ne k by (fastforce simp: word_unat_eq_iff)
  then show "contents c = slice ?t k (cb_buf c) @ contents c'"
  proof cases
    case 1
    with le len have "unat (cb_tail c') = ?t + k" "?t + k \<le> ?h" using t' by simp_all
    then show ?thesis using 1 slice_append [of ?t k "cb_buf c" "?h - (?t + k)"]
      by (simp add: contents_def Let_def c'_def)
  next
    case 2
    then have "unat (cb_tail c') = ?t + k" using t' by simp
    then show ?thesis using 2 d by (simp add: contents_def Let_def c'_def)
  next
    case 3
    then have "unat (cb_tail c') = 0" using t' by simp
    then show ?thesis using 3 d len by (simp add: contents_def Let_def c'_def slice_def)
  qed
qed

lemma read_loop_ok:
  assumes "cbuf_ok c"
  shows "\<exists>c'. cbuf_read_loop n c = Some (take n (contents c), c') \<and> cbuf_ok c' \<and>
    contents c' = drop n (contents c) \<and> cb_head c' = cb_head c \<and> cb_event c' = cb_event c \<and> cb_len_pow2 c' = cb_len_pow2 c"
  using assms
proof (induction n c rule: cbuf_read_loop.induct)
  case (1 n c)
  let ?h = "unat (cb_head c)" and ?t = "unat (cb_tail c)" and ?s = "cb_size c"
  let ?k = "if cb_tail c < cb_head c then min (unat (cb_head c - cb_tail c)) n
    else min (unat (valpow2 (cb_len_pow2 c) - cb_tail c)) n"
  let ?c = "c\<lparr>cb_tail := INC_POINTER c (cb_tail c) ?k\<rparr>"
  have ok: "length (cb_buf c) = ?s" "?h < ?s" "?t < ?s" using "1.prems" by (auto simp: cbuf_ok_def)
  show ?case
  proof (cases "0 < n \<and> cb_tail c \<noteq> cb_head c")
    case False
    then show ?thesis using "1.prems" contents_Nil [OF "1.prems"] by (subst cbuf_read_loop.simps) auto
  next
    case True
    then have ne: "?t \<noteq> ?h" by (simp add: word_unat_eq_iff)
    have k: "?k = (if ?t < ?h then min (?h - ?t) n else min (?s - ?t) n)"
      using unat_to_end [OF "1.prems" ok(3)] by (simp add: word_less_nat_alt unat_sub word_le_nat_alt less_imp_le)
    have pos: "0 < ?k" "?t + ?k \<le> ?s" unfolding k using True ne ok by auto
    have "?t + ?k \<le> ?h" if "?t < ?h" unfolding k using that by simp
    then have step: "cbuf_ok ?c" "contents c = slice ?t ?k (cb_buf c) @ contents ?c"
      using contents_read [OF "1.prems" pos(2,1)] True by blast+
    obtain c' where c': "cbuf_read_loop (n - ?k) ?c = Some (take (n - ?k) (contents ?c), c')" "cbuf_ok c'"
      "contents c' = drop (n - ?k) (contents ?c)" "cb_head c' = cb_head c" "cb_event c' = cb_event c" "cb_len_pow2 c' = cb_len_pow2 c"
      using "1.IH" [OF True refl _ step(1)] pos ok by auto
    have len: "length (slice ?t ?k (cb_buf c)) = ?k" using pos ok by simp
    have "cbuf_read_loop n c = Some (slice ?t ?k (cb_buf c) @ take (n - ?k) (contents ?c), c')"
      using True pos ok c'(1) by (subst cbuf_read_loop.simps) (simp add: Let_def)
    then show ?thesis using c' len pos unfolding step(2) by simp
  qed
qed

subsection \<open>Writing\<close>

lemma write_len_eq:
  assumes "cbuf_ok c"
  shows "cbuf_write_len c n =
    (if unat (cb_tail c) \<le> unat (cb_head c) then min (cb_size c - unat (cb_head c)) n
     else min (unat (cb_tail c) - unat (cb_head c) - 1) n)"
  using unat_to_end [OF assms, of "cb_head c"] unat_tail_gap [of c] assms
  by (auto simp: cbuf_write_len_def cbuf_ok_def word_le_nat_alt word_less_nat_alt)

lemma write_step:
  assumes ok: "cbuf_ok c" and d: "unat (cb_head c) + length d \<le> cb_size c"
  defines "c' \<equiv> c\<lparr>cb_buf := blit (unat (cb_head c)) d (cb_buf c),
                 cb_head := INC_POINTER c (cb_head c) (length d)\<rparr>"
  shows "cbuf_ok c'"
    and "unat (cb_head c') = (unat (cb_head c) + length d) mod cb_size c"
    and "(if unat (cb_tail c) \<le> unat (cb_head c) then unat (cb_tail c) \<noteq> 0 \<or> unat (cb_head c) + length d < cb_size c
          else unat (cb_head c) + length d < unat (cb_tail c)) \<Longrightarrow> contents c' = contents c @ d"
proof -
  let ?h = "unat (cb_head c)" and ?t = "unat (cb_tail c)" and ?s = "cb_size c"
  have len: "length (cb_buf c) = ?s" "?h < ?s" "?t < ?s" using ok by (auto simp: cbuf_ok_def)
  show h': "unat (cb_head c') = (?h + length d) mod ?s"
    using unat_INC [OF ok len(2), of "length d"] d by (simp add: c'_def)
  show "cbuf_ok c'" using ok d len h' by (simp add: cbuf_ok_def c'_def)
  assume room: "if ?t \<le> ?h then ?t \<noteq> 0 \<or> ?h + length d < ?s else ?h + length d < ?t"
  consider (in_line) "?t \<le> ?h" "?h + length d < ?s" | (wraps) "?t \<le> ?h" "?h + length d = ?s" "?t \<noteq> 0"
    | (behind) "?h + length d < ?t" "?h < ?t" using room d by (cases "?h + length d < ?s") (auto split: if_splits)
  then show "contents c' = contents c @ d"
  proof cases
    case in_line
    then have "unat (cb_head c') = ?h + length d" using h' by simp
    then show ?thesis using in_line len by (simp add: contents_def Let_def c'_def slice_def blit_def take_drop)
  next
    case wraps
    then have "unat (cb_head c') = 0" using h' by simp
    then show ?thesis using wraps len by (simp add: contents_def Let_def c'_def slice_def blit_def take_drop)
  next
    case behind
    then have "unat (cb_head c') = ?h + length d" using h' len by simp
    then show ?thesis using behind len by (simp add: contents_def Let_def c'_def blit_def)
  qed
qed

text \<open>Whatever is written, no byte outside of the buffer is, and the loop ends.\<close>

lemma write_loop_safe:
  assumes "cbuf_ok c"
  shows "\<exists>pos c'. cbuf_write_loop buf c = Some (pos, c') \<and> pos \<le> length buf \<and> cbuf_ok c' \<and>
    cb_tail c' = cb_tail c \<and> cb_event c' = cb_event c \<and> cb_len_pow2 c' = cb_len_pow2 c"
  using assms
proof (induction buf c rule: cbuf_write_loop.induct)
  case (1 buf c)
  let ?k = "cbuf_write_len c (length buf)" and ?h = "unat (cb_head c)"
  show ?case
  proof (cases "buf \<noteq> [] \<and> 0 < cbuf_space_avail c \<and> ?k \<noteq> 0")
    case False
    then show ?thesis using "1.prems" by (subst cbuf_write_loop.simps) (auto simp: Let_def)
  next
    case True
    have len: "length (cb_buf c) = cb_size c" "?h < cb_size c" "unat (cb_tail c) < cb_size c" using "1.prems" by (auto simp: cbuf_ok_def)
    have k: "?h + ?k \<le> cb_size c" "?k \<le> length buf"
      unfolding write_len_eq [OF "1.prems"] using len by auto
    let ?c = "c\<lparr>cb_buf := blit ?h (take ?k buf) (cb_buf c), cb_head := INC_POINTER c (cb_head c) ?k\<rparr>"
    have "length (take ?k buf) = ?k" using k by simp
    then have ok: "cbuf_ok ?c" using write_step(1) [OF "1.prems", of "take ?k buf"] k by metis
    have m: "memcpy_into ?h (take ?k buf) (cb_buf c) = Some (blit ?h (take ?k buf) (cb_buf c))"
      using k len by simp
    obtain pos c' where "cbuf_write_loop (drop ?k buf) ?c = Some (pos, c')" "pos \<le> length (drop ?k buf)"
      "cbuf_ok c'" "cb_tail c' = cb_tail c" "cb_event c' = cb_event c" "cb_len_pow2 c' = cb_len_pow2 c"
      using "1.IH" [OF _ refl _ m ok] True by auto
    then show ?thesis using True m k by (subst cbuf_write_loop.simps) (auto simp: Let_def)
  qed
qed

text \<open>Where \<open>write_fits\<close> holds, the buffer takes as many bytes as a queue of \<open>size - 1\<close> bytes would.\<close>

lemma write_loop_queue:
  assumes "cbuf_ok c" and "write_fits c (length buf)"
  defines "free \<equiv> cb_size c - 1 - length (contents c)"
  shows "\<exists>c'. cbuf_write_loop buf c = Some (min (length buf) free, c') \<and>
    contents c' = contents c @ take free buf"
  using assms(1,2) unfolding assms(3)
proof (induction buf c rule: cbuf_write_loop.induct)
  case (1 buf c)
  let ?k = "cbuf_write_len c (length buf)" and ?h = "unat (cb_head c)" and ?t = "unat (cb_tail c)"
  have len: "length (cb_buf c) = cb_size c" "?h < cb_size c" "?t < cb_size c" using "1.prems" by (auto simp: cbuf_ok_def)
  note k = write_len_eq [OF "1.prems"(1), of "length buf"] and lc = length_contents [OF "1.prems"(1)]
  show ?case
  proof (cases "buf \<noteq> [] \<and> 0 < cbuf_space_avail c \<and> ?k \<noteq> 0")
    case False
    have "buf = [] \<or> length (contents c) = cb_size c - 1"
    proof (cases "buf = []")
      case ne: False
      show ?thesis
      proof (cases "cbuf_space_avail c = 0")
        case True
        then have "?h + cb_size c = ?t + 1" using space_avail_0 [OF "1.prems"(1)] by simp
        then show ?thesis using "1.prems"(2) ne len lc by (auto simp: write_fits_def Let_def)
      next
        case False
        then have "?k = 0" using \<open>\<not> (buf \<noteq> [] \<and> 0 < cbuf_space_avail c \<and> ?k \<noteq> 0)\<close> ne by (simp add: word_gt_0)
        then show ?thesis using ne len lc unfolding k by (auto simp: min_def split: if_splits)
      qed
    qed simp
    then show ?thesis using False by (subst cbuf_write_loop.simps) (auto simp: Let_def)
  next
    case True
    have b: "?h + ?k \<le> cb_size c" "?k \<le> length buf" unfolding k using len by auto
    let ?d = "take ?k buf"
    let ?c = "c\<lparr>cb_buf := blit ?h ?d (cb_buf c), cb_head := INC_POINTER c (cb_head c) ?k\<rparr>"
    have ld: "length ?d = ?k" using b by simp
    note st = write_step [OF "1.prems"(1), of ?d, unfolded ld, OF b(1)]
    have room: "if ?t \<le> ?h then ?t \<noteq> 0 \<or> ?h + ?k < cb_size c else ?h + ?k < ?t"
      using "1.prems"(2) True b unfolding write_fits_def Let_def k by auto
    have c1: "contents ?c = contents c @ ?d" using st(3) room by simp
    have free: "?k \<le> cb_size c - 1 - length (contents c)"
      using room len lc b by (auto split: if_splits)
    have "length buf - ?k = 0 \<or> ?h + ?k = cb_size c \<or> ?h + ?k = ?t - 1"
      unfolding k using len by auto
    then have fits: "write_fits ?c (length (drop ?k buf))"
      using "1.prems"(2) True room b len st(2) unfolding write_fits_def Let_def
      by (auto split: if_splits)
    have m: "memcpy_into ?h ?d (cb_buf c) = Some (blit ?h ?d (cb_buf c))" using b len by simp
    let ?f = "cb_size c - 1 - length (contents c)"
    have f': "cb_size ?c - 1 - length (contents ?c) = ?f - ?k" unfolding c1 using ld by simp
    obtain c' where c': "cbuf_write_loop (drop ?k buf) ?c = Some (min (length buf - ?k) (?f - ?k), c')"
      "contents c' = contents ?c @ take (?f - ?k) (drop ?k buf)"
      using "1.IH" [OF _ refl _ m st(1) fits] True unfolding f' length_drop by blast
    have "?k + min (length buf - ?k) (?f - ?k) = min (length buf) ?f" using free b by linarith
    then have "cbuf_write_loop buf c = Some (min (length buf) ?f, c')"
      using True m c'(1) by (subst cbuf_write_loop.simps) (simp add: Let_def del: diff_diff_left)
    moreover have "take ?f buf = ?d @ take (?f - ?k) (drop ?k buf)"
      using free by (metis le_add_diff_inverse take_add)
    ultimately show ?thesis using c'(2) c1 by simp
  qed
qed

subsection \<open>A first-in first-out queue of bytes\<close>

text \<open>
  The interface a user of the buffer relies on: \<open>put\<close> appends what there is room for, \<open>get\<close> takes from
  the front. \<open>fits\<close> is the condition under which the implementation keeps the law for \<open>put\<close>.
\<close>

locale byte_fifo =
  fixes inv :: "'c \<Rightarrow> bool" and items :: "'c \<Rightarrow> 'a list" and capacity :: "'c \<Rightarrow> nat"
    and fits :: "'c \<Rightarrow> nat \<Rightarrow> bool"
    and put :: "'a list \<Rightarrow> 'c \<Rightarrow> (nat \<times> 'c) option" and get :: "nat \<Rightarrow> 'c \<Rightarrow> ('a list \<times> 'c) option"
  assumes put: "inv c \<Longrightarrow> fits c (length d) \<Longrightarrow>
      \<exists>c'. put d c = Some (min (length d) (capacity c - length (items c)), c') \<and> inv c' \<and>
        capacity c' = capacity c \<and> items c' = items c @ take (capacity c - length (items c)) d"
    and get: "inv c \<Longrightarrow> \<exists>c'. get n c = Some (take n (items c), c') \<and> inv c' \<and>
        capacity c' = capacity c \<and> items c' = drop n (items c)"
begin

lemma put_get:
  assumes "inv c" and "fits c (length d)" and "length (items c) + length d \<le> capacity c"
  shows "\<exists>c1 c2. put d c = Some (length d, c1) \<and>
    get (length (items c) + length d) c1 = Some (items c @ d, c2) \<and> inv c2 \<and> items c2 = []"
proof -
  obtain c1 where c1: "put d c = Some (length d, c1)" "inv c1" "items c1 = items c @ d"
    using put [OF assms(1,2)] assms(3) by auto
  then show ?thesis using get [OF c1(2), of "length (items c) + length d"] by auto
qed

lemma get_get:
  assumes "inv c"
  shows "\<exists>c1 c2 c3. get m c = Some (take m (items c), c1) \<and> get n c1 = Some (take n (drop m (items c)), c2) \<and>
    get (m + n) c = Some (take m (items c) @ take n (drop m (items c)), c3) \<and> items c2 = items c3"
proof -
  obtain c1 where c1: "get m c = Some (take m (items c), c1)" "inv c1" "items c1 = drop m (items c)"
    using get [OF assms] by blast
  obtain c2 where "get n c1 = Some (take n (items c1), c2)" "items c2 = drop n (items c1)"
    using get [OF c1(2)] by blast
  moreover obtain c3 where "get (m + n) c = Some (take (m + n) (items c), c3)" "items c3 = drop (m + n) (items c)"
    using get [OF assms] by blast
  ultimately show ?thesis using c1 by (simp add: take_add add.commute)
qed

end

interpretation cbuf: byte_fifo cbuf_ok contents "\<lambda>c. cb_size c - 1" write_fits cbuf_write_loop cbuf_read_loop
proof unfold_locales
  fix c and d :: "u8 list"
  assume c: "cbuf_ok c" "write_fits c (length d)"
  then show "\<exists>c'. cbuf_write_loop d c = Some (min (length d) (cb_size c - 1 - length (contents c)), c') \<and>
    cbuf_ok c' \<and> cb_size c' - 1 = cb_size c - 1 \<and>
    contents c' = contents c @ take (cb_size c - 1 - length (contents c)) d"
    using write_loop_queue [OF c] write_loop_safe [OF c(1), of d] by auto
next
  fix c n assume "cbuf_ok c"
  then show "\<exists>c'. cbuf_read_loop n c = Some (take n (contents c), c') \<and> cbuf_ok c' \<and>
    cb_size c' - 1 = cb_size c - 1 \<and> contents c' = drop n (contents c)"
    using read_loop_ok [of c n] by auto
qed

subsection \<open>The operations in the kernel\<close>

lemma cbuf_write_kernel:
  assumes inv: "kinv s" and ok: "cbuf_ok c" and loop: "cbuf_write_loop d c = Some (pos, c')"
  shows "\<exists>x. cbuf_write d canreschedule c s = Some (pos, c', x) \<and> kop_ok (critical_section_count s) s x"
proof -
  let ?s = "enter_critical_section s"
  have inv': "kinv ?s" using inv by simp
  let ?out = "if cb_head c' \<noteq> cb_tail c' then event_signal (cb_event c') canreschedule ?s else Some (Ret 0 ?s)"
  have "\<exists>x. ?out = Some x \<and> kop_ok (critical_section_count ?s) ?s x"
    using event_signal_ok [OF inv'] inv by auto
  then have "\<exists>y. kthen ?out (F_cbuf_write (int pos)) = Some y \<and> kop_ok (critical_section_count s) s y"
    by (rule kthen_op) (simp_all add: exits_def)
  then show ?thesis using loop by (auto simp: cbuf_write_def Let_def)
qed

lemma cbuf_take_kernel:
  assumes inv: "kinv s" and loop: "cbuf_read_loop n c = Some (bytes, c')" and ne: "cb_tail c \<noteq> cb_head c"
  shows "\<exists>s'. cbuf_read_take n c s = Some (bytes, c', s') \<and> kinv s' \<and>
    critical_section_count s' = critical_section_count s - 1 \<and>
    (contents c' = [] \<longrightarrow> cbuf_ok c' \<longrightarrow> \<not> e_signalled (evt s' (cb_event c')))"
  using assms contents_Nil [of c']
  by (auto simp: cbuf_read_take_def event_unsignal_def Let_def)

text \<open>A buffer whose size is a power of two starts out empty and well formed.\<close>

lemma ctz_from_2p: "n < 32 \<Longrightarrow> 32 - k \<le> n \<Longrightarrow> k \<le> 32 \<Longrightarrow> ctz_from k (2 ^ n) = n"
proof (induction k)
  case (Suc k)
  have "bit (2 ^ n :: u32) (31 - k) \<longleftrightarrow> 31 - k = n" using Suc.prems by (auto simp: bit_exp_iff)
  then show ?case using Suc by auto
qed simp

lemma log2_2p: "n < 32 \<Longrightarrow> unat (log2_uint (2 ^ n)) = n"
proof -
  assume n: "n < 32"
  have "(mask n AND 2 ^ n :: u32) = 0"
    by (rule bit_word_eqI) (auto simp: bit_and_iff bit_mask_iff bit_exp_iff)
  then have "ispow2 (2 ^ n)" by (simp add: ispow2_def mask_eq_exp_minus_1)
  then show ?thesis using n by (simp add: log2_uint_def ctz_from_2p unat_of_nat_u32)
qed

lemma cbuf_initialize_ok:
  assumes "n < 32" and "length mem = 2 ^ n"
  shows "cbuf_ok (fst (cbuf_initialize (2 ^ n) mem e s)) \<and> contents (fst (cbuf_initialize (2 ^ n) mem e s)) = []"
  using assms by (simp add: cbuf_initialize_def cbuf_ok_def contents_def log2_2p)


definition example_cbuf :: "u32 \<Rightarrow> u32 \<Rightarrow> cbuf_t" where
  "example_cbuf h t = \<lparr>cb_head = h, cb_tail = t, cb_len_pow2 = 3, cb_buf = [0, 1, 2, 3, 4, 5, 6, 7], cb_event = 7\<rparr>"


text \<open>
  (C38) When the tail is at 0 and a write reaches the end of the buffer, the head wraps onto the tail:
  the buffer then looks empty, and all it held as well as the bytes written so far are lost,
  although the call reports that everything was written.
\<close>

theorem cbuf_write_overruns:
  assumes ok: "cbuf_ok c" and tail: "cb_tail c = 0" and len: "cb_size c \<le> unat (cb_head c) + length d" "length d < cb_size c"
  shows "\<exists>c'. cbuf_write_loop d c = Some (length d, c') \<and>
    contents c' = drop (cb_size c - unat (cb_head c)) d"
proof -
  let ?h = "unat (cb_head c)" and ?k = "cb_size c - unat (cb_head c)"
  let ?c = "c\<lparr>cb_buf := blit ?h (take ?k d) (cb_buf c), cb_head := INC_POINTER c (cb_head c) ?k\<rparr>"
  have b: "length (cb_buf c) = cb_size c" "?h < cb_size c" using ok by (auto simp: cbuf_ok_def)
  have ld: "length (take ?k d) = ?k" "?k \<noteq> 0" "d \<noteq> []" using len b by auto
  have st: "cbuf_ok ?c" "unat (cb_head ?c) = 0" using write_step(1,2) [OF ok, of "take ?k d"] ld b by simp_all
  have h': "cb_head ?c = cb_tail ?c" using st(2) tail by (simp add: unat_eq_zero)
  have e: "contents ?c = []" using contents_Nil [OF st(1)] h' by simp
  have fits: "write_fits ?c (length (drop ?k d))"
    using st(2) tail len b by (simp add: write_fits_def Let_def)
  have "length (drop ?k d) \<le> cb_size ?c - 1 - length (contents ?c)" using e len by simp
  then obtain c' where c': "cbuf_write_loop (drop ?k d) ?c = Some (length (drop ?k d), c')" "contents c' = drop ?k d"
    using cbuf.put [OF st(1) fits] e by auto
  have "0 < cbuf_space_avail c" using space_avail_0 [OF ok] tail ld b len by (simp add: word_gt_0)
  moreover have "cbuf_write_len c (length d) = ?k" using write_len_eq [OF ok] tail len by simp
  ultimately show ?thesis
    using c' ld b len by (subst cbuf_write_loop.simps) (simp add: Let_def)
qed

theorem cbuf_write_overruns_witness:
  "\<exists>c'. cbuf_write_loop [9] (example_cbuf 7 0) = Some (1, c') \<and> contents c' = []"
proof -
  have "cbuf_ok (example_cbuf 7 0)" by (simp add: example_cbuf_def cbuf_ok_def)
  then show ?thesis using cbuf_write_overruns [of "example_cbuf 7 0" "[9]"] by (simp add: example_cbuf_def)
qed

end
