(* ===== verification/LK_List.thy ===== *)
theory LK_List
  imports LK_Prelude
begin

text \<open>
  The intrusive doubly linked lists of \<^verbatim>\<open>include/list.h\<close>, with their nodes in memory. The other
  theories model such a list as a HOL list of the structures it links; here the pointer code is
  shown to implement those lists. \<open>lists h l xs\<close> says that the list head at address \<open>l\<close> links the
  nodes \<open>xs\<close>. Every operation is described by its effect on that list, and leaves every list that
  shares no node with it alone.
\<close>

subsection \<open>The operations (include/list.h)\<close>

record list_mem =
  lprev :: "nat \<Rightarrow> nat"
  lnext :: "nat \<Rightarrow> nat"

definition set_prev :: "nat \<Rightarrow> nat \<Rightarrow> list_mem \<Rightarrow> list_mem" where
  "set_prev a v h = h\<lparr>lprev := (lprev h)(a := v)\<rparr>"

definition set_next :: "nat \<Rightarrow> nat \<Rightarrow> list_mem \<Rightarrow> list_mem" where
  "set_next a v h = h\<lparr>lnext := (lnext h)(a := v)\<rparr>"

definition list_initialize :: "nat \<Rightarrow> list_mem \<Rightarrow> list_mem" where
  "list_initialize l h = set_prev l l (set_next l l h)"

definition list_clear_node :: "nat \<Rightarrow> list_mem \<Rightarrow> list_mem" where
  "list_clear_node item h = set_prev item 0 (set_next item 0 h)"

definition list_in_list :: "nat \<Rightarrow> list_mem \<Rightarrow> bool" where
  "list_in_list item h = (if lprev h item = 0 \<and> lnext h item = 0 then False else True)"

definition list_add_head :: "nat \<Rightarrow> nat \<Rightarrow> list_mem \<Rightarrow> list_mem" where
  "list_add_head l item h =
     (let h1 = set_next item (lnext h l) h;
          h2 = set_prev item l h1;
          h3 = set_prev (lnext h2 l) item h2
      in set_next l item h3)"

definition list_add_tail :: "nat \<Rightarrow> nat \<Rightarrow> list_mem \<Rightarrow> list_mem" where
  "list_add_tail l item h =
     (let h1 = set_prev item (lprev h l) h;
          h2 = set_next item l h1;
          h3 = set_next (lprev h2 l) item h2
      in set_prev l item h3)"

definition list_delete :: "nat \<Rightarrow> list_mem \<Rightarrow> list_mem" where
  "list_delete item h =
     (let h1 = set_prev (lnext h item) (lprev h item) h;
          h2 = set_next (lprev h1 item) (lnext h1 item) h1
      in set_prev item 0 (set_next item 0 h2))"

definition list_remove_head :: "nat \<Rightarrow> list_mem \<Rightarrow> nat \<times> list_mem" where
  "list_remove_head l h =
     (if lnext h l \<noteq> l then let item = lnext h l in (item, list_delete item h) else (0, h))"

definition list_remove_tail :: "nat \<Rightarrow> list_mem \<Rightarrow> nat \<times> list_mem" where
  "list_remove_tail l h =
     (if lprev h l \<noteq> l then let item = lprev h l in (item, list_delete item h) else (0, h))"

definition list_peek_head :: "nat \<Rightarrow> list_mem \<Rightarrow> nat" where
  "list_peek_head l h = (if lnext h l \<noteq> l then lnext h l else 0)"

definition list_peek_tail :: "nat \<Rightarrow> list_mem \<Rightarrow> nat" where
  "list_peek_tail l h = (if lprev h l \<noteq> l then lprev h l else 0)"

definition list_prev :: "nat \<Rightarrow> nat \<Rightarrow> list_mem \<Rightarrow> nat" where
  "list_prev l item h = (if lprev h item \<noteq> l then lprev h item else 0)"

definition list_prev_wrap :: "nat \<Rightarrow> nat \<Rightarrow> list_mem \<Rightarrow> nat" where
  "list_prev_wrap l item h =
     (if lprev h item \<noteq> l then lprev h item
      else if lprev h (lprev h item) \<noteq> l then lprev h (lprev h item) else 0)"

definition list_next :: "nat \<Rightarrow> nat \<Rightarrow> list_mem \<Rightarrow> nat" where
  "list_next l item h = (if lnext h item \<noteq> l then lnext h item else 0)"

definition list_next_wrap :: "nat \<Rightarrow> nat \<Rightarrow> list_mem \<Rightarrow> nat" where
  "list_next_wrap l item h =
     (if lnext h item \<noteq> l then lnext h item
      else if lnext h (lnext h item) \<noteq> l then lnext h (lnext h item) else 0)"

definition list_is_empty :: "nat \<Rightarrow> list_mem \<Rightarrow> bool" where
  "list_is_empty l h = (if lnext h l = l then True else False)"

text \<open>
  \<open>list_for_every(list, node)\<close>: the nodes the loop visits, in order. In a memory where the links never
  come back to the head the loop does not end.
\<close>

partial_function (option) visit_from :: "list_mem \<Rightarrow> nat \<Rightarrow> nat \<Rightarrow> nat list option" where
  "visit_from h l node =
     (if node = l then Some [] else do { ns \<leftarrow> visit_from h l (lnext h node); Some (node # ns) })"

definition list_for_every :: "nat \<Rightarrow> list_mem \<Rightarrow> nat list option" where
  "list_for_every l h = visit_from h l (lnext h l)"

declare visit_from.simps [code]

subsection \<open>The list in memory\<close>

fun chain :: "list_mem \<Rightarrow> nat \<Rightarrow> nat list \<Rightarrow> nat \<Rightarrow> bool" where
  "chain h a [] b \<longleftrightarrow> lnext h a = b \<and> lprev h b = a"
| "chain h a (x # xs) b \<longleftrightarrow> lnext h a = x \<and> lprev h x = a \<and> chain h x xs b"

definition lists :: "list_mem \<Rightarrow> nat \<Rightarrow> nat list \<Rightarrow> bool" where
  "lists h l xs \<longleftrightarrow> distinct (l # xs) \<and> 0 \<notin> set (l # xs) \<and> chain h l xs l"

lemma mem_sel [simp]:
  "lnext (set_next a v h) = (lnext h)(a := v)" "lprev (set_next a v h) = lprev h"
  "lprev (set_prev a v h) = (lprev h)(a := v)" "lnext (set_prev a v h) = lnext h"
  by (simp_all add: set_next_def set_prev_def)

lemma chain_append: "chain h a (xs @ y # ys) b \<longleftrightarrow> chain h a xs y \<and> chain h y ys b"
  by (induction xs arbitrary: a) auto

lemma chain_same:
  assumes "\<And>n. n \<in> set (a # xs) \<Longrightarrow> lnext h' n = lnext h n"
    and "\<And>n. n \<in> set (xs @ [b]) \<Longrightarrow> lprev h' n = lprev h n"
  shows "chain h' a xs b = chain h a xs b"
  using assms by (induction xs arbitrary: a) auto

lemma chain_last: "chain h a xs b \<Longrightarrow> lprev h b = last (a # xs)"
  by (induction xs arbitrary: a) auto

lemma chain_first: "chain h a xs b \<Longrightarrow> lnext h a = hd (xs @ [b])"
  by (cases xs) auto

text \<open>Putting a node between two neighbours, and taking it out.\<close>

definition link_between :: "nat \<Rightarrow> nat \<Rightarrow> nat \<Rightarrow> list_mem \<Rightarrow> list_mem" where
  "link_between a x b h =
     h\<lparr>lnext := (lnext h)(a := x, x := b), lprev := (lprev h)(b := x, x := a)\<rparr>"

lemma chain_link:
  assumes c: "chain h a (xs @ ys) b" and d: "distinct (xs @ ys)" "a \<notin> set (xs @ ys)" "b \<notin> set (xs @ ys)"
    and x: "x \<notin> set (xs @ ys)" "x \<noteq> a" "x \<noteq> b"
  shows "chain (link_between (last (a # xs)) x (hd (ys @ [b])) h) a (xs @ x # ys) b"
proof -
  let ?h = "link_between (last (a # xs)) x (hd (ys @ [b])) h"
  have left: "chain ?h a xs x"
  proof (cases xs rule: rev_cases)
    case (snoc zs z)
    then have "chain h a zs z" using c by (simp add: chain_append)
    moreover have "chain ?h a zs z = chain h a zs z"
      by (rule chain_same; use d x snoc in \<open>cases ys; auto simp: link_between_def\<close>)
    ultimately show ?thesis using snoc x d by (simp add: chain_append) (auto simp: link_between_def)
  qed (use x in \<open>auto simp: link_between_def\<close>)
  have right: "chain ?h x ys b"
  proof (cases ys)
    case (Cons y zs)
    then have "chain h y zs b" using c by (simp add: chain_append)
    moreover have "chain ?h y zs b = chain h y zs b"
      by (rule chain_same; use d x Cons in \<open>cases xs rule: rev_cases; auto simp: link_between_def\<close>)
    ultimately show ?thesis using Cons x d by (auto simp: link_between_def)
  qed (use x in \<open>auto simp: link_between_def\<close>)
  show ?thesis using left right by (simp add: chain_append)
qed

definition unlink_from :: "nat \<Rightarrow> nat \<Rightarrow> nat \<Rightarrow> list_mem \<Rightarrow> list_mem" where
  "unlink_from a x b h =
     h\<lparr>lnext := (lnext h)(a := b, x := 0), lprev := (lprev h)(b := a, x := 0)\<rparr>"

lemma chain_unlink:
  assumes c: "chain h a (xs @ x # ys) b" and d: "distinct (xs @ x # ys)" "a \<notin> set (xs @ x # ys)" "b \<notin> set (xs @ x # ys)"
  shows "chain (unlink_from (last (a # xs)) x (hd (ys @ [b])) h) a (xs @ ys) b"
proof -
  let ?p = "last (a # xs)" and ?n = "hd (ys @ [b])"
  let ?h = "unlink_from ?p x ?n h"
  have join: "lnext ?h ?p = ?n" "lprev ?h ?n = ?p"
    using d by (cases xs rule: rev_cases; cases ys; auto simp: unlink_from_def)+
  have left: "chain ?h a zs z" if xs: "xs = zs @ [z]" for zs z
  proof -
    have "chain ?h a zs z = chain h a zs z"
      by (rule chain_same; use d xs in \<open>cases ys; auto simp: unlink_from_def\<close>)
    then show ?thesis using c xs by (simp add: chain_append)
  qed
  have right: "chain ?h y zs b" if ys: "ys = y # zs" for y zs
  proof -
    have "chain ?h y zs b = chain h y zs b"
      by (rule chain_same; use d ys in \<open>cases xs rule: rev_cases; auto simp: unlink_from_def\<close>)
    then show ?thesis using c ys by (simp add: chain_append)
  qed
  show ?thesis
    using left right join by (cases xs rule: rev_cases; cases ys) (auto simp: chain_append)
qed

lemma lists_append:
  "lists h l (xs @ x # ys) \<Longrightarrow> lprev h x = last (l # xs) \<and> lnext h x = hd (ys @ [l])"
  using chain_last [of h l xs x] chain_first [of h x ys l] by (simp add: lists_def chain_append)

lemma lists_ends: "lists h l xs \<Longrightarrow> lnext h l = hd (xs @ [l]) \<and> lprev h l = last (l # xs)"
  using chain_last [of h l xs l] chain_first [of h l xs l] by (simp add: lists_def)

lemma last_in: "last (l # xs) \<in> set (l # xs)" and hd_in: "hd (xs @ [l]) \<in> set (l # xs)"
  using last_in_set [of "l # xs"] by (simp, cases xs) auto

lemma end_neq: "l \<notin> set xs \<Longrightarrow> xs \<noteq> [] \<Longrightarrow> last xs \<noteq> l \<and> hd xs \<noteq> l"
  by (metis last_in_set hd_in_set)

subsection \<open>What each operation does to the list\<close>

lemma list_initialize_lists: "l \<noteq> 0 \<Longrightarrow> lists (list_initialize l h) l []"
  by (simp add: lists_def list_initialize_def)

lemma list_add_head_link:
  assumes "lists h l xs" and "x \<notin> set (l # xs)"
  shows "list_add_head l x h = link_between l x (hd (xs @ [l])) h"
proof -
  have "hd (xs @ [l]) \<noteq> x" using assms(2) hd_in [of xs l] by metis
  then show ?thesis
    using assms lists_ends [OF assms(1)]
    by (simp add: list_add_head_def link_between_def set_next_def set_prev_def Let_def fun_upd_twist)
qed

lemma list_add_tail_link:
  assumes "lists h l xs" and "x \<notin> set (l # xs)"
  shows "list_add_tail l x h = link_between (last (l # xs)) x l h"
proof -
  have "last (l # xs) \<noteq> x" using assms(2) last_in [of l xs] by metis
  then show ?thesis
    using assms lists_ends [OF assms(1)]
    by (simp add: list_add_tail_def link_between_def set_next_def set_prev_def Let_def fun_upd_twist)
qed

lemma list_add_before_link:
  assumes "lists h l (xs @ y # ys)" and "x \<notin> set (l # xs @ y # ys)"
  shows "list_add_tail y x h = link_between (last (l # xs)) x y h"
proof -
  have "last (l # xs) \<noteq> x" using assms(2) last_in [of l xs] by auto
  then show ?thesis
    using assms lists_append [OF assms(1)]
    by (simp add: list_add_tail_def link_between_def set_next_def set_prev_def Let_def fun_upd_twist)
qed

lemma list_delete_unlink:
  assumes "lists h l (xs @ x # ys)"
  shows "list_delete x h = unlink_from (last (l # xs)) x (hd (ys @ [l])) h"
proof -
  have "last (l # xs) \<noteq> x" "hd (ys @ [l]) \<noteq> x"
    using assms last_in [of l xs] hd_in [of ys l] by (auto simp: lists_def)
  then show ?thesis
    using lists_append [OF assms]
    by (simp add: list_delete_def unlink_from_def set_next_def set_prev_def Let_def fun_upd_twist)
qed

text \<open>An operation on some nodes leaves the lists of other nodes alone.\<close>

lemma lists_frame:
  assumes "lists h l xs" and "\<And>n. n \<in> set (l # xs) \<Longrightarrow> lnext h' n = lnext h n \<and> lprev h' n = lprev h n"
  shows "lists h' l xs"
proof -
  have "chain h' l xs l = chain h l xs l" by (rule chain_same) (use assms(2) in auto)
  then show ?thesis using assms(1) by (simp add: lists_def)
qed

lemma link_between_lists:
  assumes "lists h l (xs @ ys)" and "x \<notin> set (l # xs @ ys)" and "x \<noteq> 0"
  shows "lists (link_between (last (l # xs)) x (hd (ys @ [l])) h) l (xs @ x # ys)"
proof -
  have "chain (link_between (last (l # xs)) x (hd (ys @ [l])) h) l (xs @ x # ys) l"
    by (rule chain_link) (use assms in \<open>auto simp: lists_def\<close>)
  then show ?thesis using assms by (auto simp: lists_def)
qed

lemma link_between_frame:
  assumes "lists h l' zs" and "set (l' # zs) \<inter> set (l # xs @ ys) = {}" and "x \<notin> set (l' # zs)"
  shows "lists (link_between (last (l # xs)) x (hd (ys @ [l])) h) l' zs"
proof (rule lists_frame [OF assms(1)])
  fix n assume "n \<in> set (l' # zs)"
  then have "n \<noteq> last (l # xs)" "n \<noteq> x" "n \<noteq> hd (ys @ [l])"
    using assms(2,3) last_in [of l xs] hd_in [of ys l] by auto
  then show "lnext (link_between (last (l # xs)) x (hd (ys @ [l])) h) n = lnext h n \<and>
    lprev (link_between (last (l # xs)) x (hd (ys @ [l])) h) n = lprev h n"
    by (simp add: link_between_def)
qed

lemma unlink_from_frame:
  assumes "lists h l' zs" and "set (l' # zs) \<inter> set (l # xs @ x # ys) = {}"
  shows "lists (unlink_from (last (l # xs)) x (hd (ys @ [l])) h) l' zs"
proof (rule lists_frame [OF assms(1)])
  fix n assume "n \<in> set (l' # zs)"
  then have "n \<noteq> last (l # xs)" "n \<noteq> x" "n \<noteq> hd (ys @ [l])"
    using assms(2) last_in [of l xs] hd_in [of ys l] by auto
  then show "lnext (unlink_from (last (l # xs)) x (hd (ys @ [l])) h) n = lnext h n \<and>
    lprev (unlink_from (last (l # xs)) x (hd (ys @ [l])) h) n = lprev h n"
    by (simp add: unlink_from_def)
qed

lemma list_add_head_lists: "lists h l xs \<Longrightarrow> x \<notin> set (l # xs) \<Longrightarrow> x \<noteq> 0 \<Longrightarrow> lists (list_add_head l x h) l (x # xs)"
  using link_between_lists [of h l "[]" xs x] by (simp add: list_add_head_link)

lemma list_add_tail_lists: "lists h l xs \<Longrightarrow> x \<notin> set (l # xs) \<Longrightarrow> x \<noteq> 0 \<Longrightarrow> lists (list_add_tail l x h) l (xs @ [x])"
  using link_between_lists [of h l xs "[]" x] by (simp add: list_add_tail_link)

text \<open>\<open>list_add_before\<close> is \<open>list_add_tail\<close> on the entry.\<close>

lemma list_add_before_lists:
  "lists h l (xs @ y # ys) \<Longrightarrow> x \<notin> set (l # xs @ y # ys) \<Longrightarrow> x \<noteq> 0 \<Longrightarrow>
    lists (list_add_tail y x h) l (xs @ x # y # ys)"
  using link_between_lists [of h l xs "y # ys" x] by (simp add: list_add_before_link)

lemma list_delete_lists:
  assumes "lists h l (xs @ x # ys)"
  shows "lists (list_delete x h) l (xs @ ys)" and "\<not> list_in_list x (list_delete x h)"
proof -
  have "chain (unlink_from (last (l # xs)) x (hd (ys @ [l])) h) l (xs @ ys) l"
    by (rule chain_unlink) (use assms in \<open>auto simp: lists_def\<close>)
  then show "lists (list_delete x h) l (xs @ ys)"
    unfolding list_delete_unlink [OF assms] using assms by (auto simp: lists_def)
  show "\<not> list_in_list x (list_delete x h)"
    unfolding list_delete_unlink [OF assms] by (simp add: list_in_list_def unlink_from_def)
qed

lemma list_in_list_lists: "lists h l xs \<Longrightarrow> x \<in> set (l # xs) \<Longrightarrow> list_in_list x h"
proof -
  assume l: "lists h l xs" and x: "x \<in> set (l # xs)"
  have "lnext h x \<noteq> 0"
  proof (cases "x = l")
    case True
    then show ?thesis using l lists_ends [OF l] hd_in [of xs l] by (metis lists_def)
  next
    case False
    then obtain ys zs where "xs = ys @ x # zs" using x by (auto simp: in_set_conv_decomp)
    then show ?thesis using l lists_append [of h l ys x zs] hd_in [of zs l] by (auto simp: lists_def)
  qed
  then show ?thesis by (simp add: list_in_list_def)
qed

lemma list_remove_head_lists:
  "lists h l xs \<Longrightarrow> list_remove_head l h = (case xs of [] \<Rightarrow> (0, h) | x # _ \<Rightarrow> (x, list_delete x h))"
  using lists_ends [of h l xs] by (auto simp: list_remove_head_def lists_def split: list.split)

lemma list_remove_tail_lists:
  "lists h l xs \<Longrightarrow> list_remove_tail l h = (if xs = [] then (0, h) else (last xs, list_delete (last xs) h))"
  using lists_ends [of h l xs] end_neq [of l xs] by (simp add: list_remove_tail_def lists_def Let_def)

lemma list_peek_lists:
  assumes "lists h l xs"
  shows "list_peek_head l h = (if xs = [] then 0 else hd xs)"
    and "list_peek_tail l h = (if xs = [] then 0 else last xs)"
    and "list_is_empty l h \<longleftrightarrow> xs = []"
  using lists_ends [OF assms] assms end_neq [of l xs]
  by (cases "xs = []"; simp add: list_peek_head_def list_peek_tail_def list_is_empty_def lists_def)+

text \<open>The neighbours of a node; the wrapping variants skip the head of the list.\<close>

lemma list_neighbours:
  assumes "lists h l (xs @ x # ys)"
  shows "list_prev l x h = (if xs = [] then 0 else last xs)"
    and "list_next l x h = (if ys = [] then 0 else hd ys)"
    and "list_prev_wrap l x h = last (x # ys @ xs)"
    and "list_next_wrap l x h = hd (ys @ xs @ [x])"
proof -
  note n = lists_append [OF assms] and e = lists_ends [OF assms]
  have d: "l \<notin> set xs" "l \<notin> set ys" "l \<noteq> x" using assms by (auto simp: lists_def)
  show "list_prev l x h = (if xs = [] then 0 else last xs)"
    using n d end_neq [of l xs] by (simp add: list_prev_def)
  show "list_next l x h = (if ys = [] then 0 else hd ys)"
    using n d end_neq [of l ys] by (simp add: list_next_def)
  show "list_prev_wrap l x h = last (x # ys @ xs)"
    using n e d end_neq [of l xs] end_neq [of l ys] by (cases "xs = []"; cases "ys = []") (simp_all add: list_prev_wrap_def)
  show "list_next_wrap l x h = hd (ys @ xs @ [x])"
    using n e d end_neq [of l xs] end_neq [of l ys] by (cases "xs = []"; cases "ys = []") (simp_all add: list_next_wrap_def)
qed

lemma visit_chain: "chain h a xs l \<Longrightarrow> l \<notin> set xs \<Longrightarrow> visit_from h l (lnext h a) = Some xs"
proof (induction xs arbitrary: a)
  case Nil
  then show ?case by (simp add: visit_from.simps)
next
  case (Cons x xs)
  then show ?case by (subst visit_from.simps) simp
qed

subsection \<open>Lists that share a memory\<close>

text \<open>
  The interface the kernel uses: several lists in one memory, each node on at most one of them.
  Each operation changes its own list and keeps the others.
\<close>

locale node_lists =
  fixes rep :: "'m \<Rightarrow> 'n \<Rightarrow> 'n list \<Rightarrow> bool" and null :: 'n
    and add_head :: "'n \<Rightarrow> 'n \<Rightarrow> 'm \<Rightarrow> 'm" and add_tail :: "'n \<Rightarrow> 'n \<Rightarrow> 'm \<Rightarrow> 'm"
    and delete :: "'n \<Rightarrow> 'm \<Rightarrow> 'm" and remove_head :: "'n \<Rightarrow> 'm \<Rightarrow> 'n \<times> 'm"
  assumes add_head: "rep h l xs \<Longrightarrow> x \<notin> set (l # xs) \<Longrightarrow> x \<noteq> null \<Longrightarrow> rep (add_head l x h) l (x # xs)"
    and add_tail: "rep h l xs \<Longrightarrow> x \<notin> set (l # xs) \<Longrightarrow> x \<noteq> null \<Longrightarrow> rep (add_tail l x h) l (xs @ [x])"
    and delete: "rep h l (xs @ x # ys) \<Longrightarrow> rep (delete x h) l (xs @ ys)"
    and remove_head: "rep h l (x # xs) \<Longrightarrow> remove_head l h = (x, delete x h)"
    and remove_head_empty: "rep h l [] \<Longrightarrow> remove_head l h = (null, h)"
    and nodes: "rep h l xs \<Longrightarrow> distinct (l # xs) \<and> null \<notin> set (l # xs)"
    and add_head_other: "rep h l xs \<Longrightarrow> rep h l' ys \<Longrightarrow> set (l # xs) \<inter> set (l' # ys) = {} \<Longrightarrow>
      x \<notin> set (l # xs) \<Longrightarrow> x \<notin> set (l' # ys) \<Longrightarrow> rep (add_head l x h) l' ys"
    and add_tail_other: "rep h l xs \<Longrightarrow> rep h l' ys \<Longrightarrow> set (l # xs) \<inter> set (l' # ys) = {} \<Longrightarrow>
      x \<notin> set (l # xs) \<Longrightarrow> x \<notin> set (l' # ys) \<Longrightarrow> rep (add_tail l x h) l' ys"
    and delete_other: "rep h l (xs @ x # zs) \<Longrightarrow> rep h l' ys \<Longrightarrow> set (l # xs @ x # zs) \<inter> set (l' # ys) = {} \<Longrightarrow>
      rep (delete x h) l' ys"
begin

text \<open>The first node of one list moves to the head of another: what waking a thread does.\<close>

lemma move_head:
  assumes l: "rep h l (x # xs)" and l': "rep h l' ys" and dis: "set (l # x # xs) \<inter> set (l' # ys) = {}"
  shows "\<exists>h1. remove_head l h = (x, h1) \<and> rep (add_head l' x h1) l xs \<and> rep (add_head l' x h1) l' (x # ys)"
proof -
  let ?h = "delete x h"
  have x: "x \<noteq> null" "x \<notin> set (l # xs)" using nodes [OF l] by auto
  have a: "rep ?h l xs" using delete [of h l "[]" x xs] l by simp
  have b: "rep ?h l' ys" using delete_other [of h l "[]" x xs l' ys] l l' dis by simp
  have x': "x \<notin> set (l' # ys)" using dis by auto
  have "rep (add_head l' x ?h) l' (x # ys)" by (rule add_head [OF b x' x(1)])
  moreover have "rep (add_head l' x ?h) l xs"
    by (rule add_head_other [OF b a _ x']) (use dis x in auto)
  ultimately show ?thesis using remove_head [OF l] by blast
qed

text \<open>Nodes added at the tail come off the head in the same order.\<close>

fun drain :: "nat \<Rightarrow> 'n \<Rightarrow> 'm \<Rightarrow> 'n list \<times> 'm" where
  "drain 0 l h = ([], h)"
| "drain (Suc n) l h = (let (x, h1) = remove_head l h; (xs, h2) = drain n l h1 in (x # xs, h2))"

lemma drain_all: "rep h l xs \<Longrightarrow> fst (drain (length xs) l h) = xs \<and> rep (snd (drain (length xs) l h)) l []"
proof (induction xs arbitrary: h)
  case (Cons x xs)
  have "rep (delete x h) l xs" using delete [of h l "[]" x xs] Cons.prems by simp
  from Cons.IH [OF this] show ?case using remove_head [OF Cons.prems] by (auto split: prod.split)
qed simp

lemma add_all:
  assumes "rep h l xs" and "distinct (l # xs @ ys)" and "null \<notin> set ys"
  shows "rep (fold (add_tail l) ys h) l (xs @ ys)"
  using assms
proof (induction ys arbitrary: h xs)
  case (Cons y ys)
  have "rep (add_tail l y h) l (xs @ [y])" by (rule add_tail) (use Cons.prems in auto)
  from Cons.IH [OF this] show ?case using Cons.prems by simp
qed simp

end

interpretation nodes: node_lists lists 0 list_add_head list_add_tail list_delete list_remove_head
proof unfold_locales
  show "list_remove_head l h = (x, list_delete x h)" if "lists h l (x # xs)" for h l x xs
    using list_remove_head_lists [OF that] by simp
  show "list_remove_head l h = (0, h)" if "lists h l []" for h l
    using list_remove_head_lists [OF that] by simp
  show "distinct (l # xs) \<and> 0 \<notin> set (l # xs)" if "lists h l xs" for h l xs
    using that by (simp add: lists_def)
  show "lists (list_add_head l x h) l' ys" if "lists h l xs" "lists h l' ys" "set (l # xs) \<inter> set (l' # ys) = {}"
    "x \<notin> set (l # xs)" "x \<notin> set (l' # ys)" for h l l' x xs ys
    using link_between_frame [OF that(2), of l "[]" xs x] that
    by (simp add: list_add_head_link Int_commute)
  show "lists (list_add_tail l x h) l' ys" if "lists h l xs" "lists h l' ys" "set (l # xs) \<inter> set (l' # ys) = {}"
    "x \<notin> set (l # xs)" "x \<notin> set (l' # ys)" for h l l' x xs ys
    using link_between_frame [OF that(2), of l xs "[]" x] that
    by (simp add: list_add_tail_link Int_commute)
  show "lists (list_delete x h) l' ys" if "lists h l (xs @ x # zs)" "lists h l' ys"
    "set (l # xs @ x # zs) \<inter> set (l' # ys) = {}" for h l xs x zs l' ys
    using unlink_from_frame [OF that(2), of l xs x zs] that
    by (simp add: list_delete_unlink Int_commute)
qed (simp_all add: list_add_head_lists list_add_tail_lists list_delete_lists)

subsection \<open>Properties\<close>

definition example_mem :: list_mem where
  "example_mem = list_add_tail 20 5 (list_add_tail 10 3 (list_add_tail 10 2
     (list_initialize 30 (list_initialize 20 (list_initialize 10 \<lparr>lprev = (\<lambda>_. 0), lnext = (\<lambda>_. 0)\<rparr>)))))"

lemma example_mem_lists: "lists example_mem 10 [2, 3]" "lists example_mem 20 [5]" "lists example_mem 30 []"
  by (simp_all add: example_mem_def lists_def list_add_tail_def list_initialize_def Let_def)

text \<open>
  (C30) Taking the first node off one list and putting it at the head of another, as the kernel does when
  it wakes a thread, is what these pointer operations do to two lists that live in one memory: the
  first loses the node, the second gains it, and every third list is untouched.
\<close>

theorem list_move_head:
  assumes "lists h l (x # xs)" and "lists h l' ys" and "set (l # x # xs) \<inter> set (l' # ys) = {}"
    and "lists h k zs" and "set (k # zs) \<inter> (set (l # x # xs) \<union> set (l' # ys)) = {}"
  shows "\<exists>h1. list_remove_head l h = (x, h1) \<and> lists (list_add_head l' x h1) l xs \<and>
    lists (list_add_head l' x h1) l' (x # ys) \<and> lists (list_add_head l' x h1) k zs"
proof -
  have k: "lists (list_delete x h) k zs"
    using nodes.delete_other [of h l "[]" x xs k zs] assms by auto
  have l': "lists (list_delete x h) l' ys"
    using nodes.delete_other [of h l "[]" x xs l' ys] assms by auto
  have "lists (list_add_head l' x (list_delete x h)) k zs"
    by (rule nodes.add_head_other [OF l' k]) (use assms in auto)
  then show ?thesis
    using nodes.move_head [OF assms(1-3)] nodes.remove_head [OF assms(1)] by auto
qed

theorem list_move_head_witness:
  "\<exists>h1. list_remove_head 10 example_mem = (2, h1) \<and> lists (list_add_head 20 2 h1) 10 [3] \<and>
    lists (list_add_head 20 2 h1) 20 [2, 5] \<and> lists (list_add_head 20 2 h1) 30 []"
  using list_move_head [OF example_mem_lists(1,2) _ example_mem_lists(3)] by simp

text \<open>
  The loop of \<open>list_for_every\<close> over a list ends after visiting each of its nodes once, in order.
\<close>

theorem list_for_every_visits:
  assumes "lists h l xs"
  shows "list_for_every l h = Some xs"
  using assms visit_chain [of h l xs l] by (simp add: lists_def list_for_every_def)

theorem list_for_every_visits_witness: "list_for_every 10 example_mem = Some [2, 3]"
  by (rule list_for_every_visits [OF example_mem_lists(1)])

end
