(* ===== verification/LK_Heap.thy ===== *)
theory LK_Heap
  imports LK_Prelude
begin

unbundle bit_operations_syntax

text \<open>
  The allocator (\<^verbatim>\<open>lib/heap/heap.c\<close>) and the C library functions on top of it
  (\<^verbatim>\<open>lib/libc/malloc.c\<close>), for the build with \<^verbatim>\<open>DEBUG_HEAP\<close> off. The free list is a HOL list of chunks
  (theory \<open>LK_List\<close> justifies it), addresses are natural numbers, and the sizes a caller passes are
  32-bit words, because their arithmetic wraps. The header in front of every allocation is kept in
  a map from the pointer handed out; to free a pointer that has no header is undefined (\<open>None\<close>).

  The invariant says that free and allocated chunks tile the heap and that the free list is sorted
  and coalesced. Allocation returns memory of the requested size and alignment that overlaps no
  other allocation; freeing it gives the free list back as it was.
\<close>

subsection \<open>Structures and operations (lib/heap/heap.c)\<close>

definition ROUNDUP :: "u32 \<Rightarrow> u32 \<Rightarrow> u32" where
  "ROUNDUP a b = (a + (b - 1)) AND NOT (b - 1)"

abbreviation (input) HEAP_MAGIC :: u32 where "HEAP_MAGIC \<equiv> 0x48454150"

text \<open>\<open>sizeof(struct free_heap_chunk)\<close> and \<open>sizeof(struct alloc_struct_begin)\<close>\<close>

abbreviation (input) sizeof_free_heap_chunk :: nat where "sizeof_free_heap_chunk \<equiv> 12"
abbreviation (input) sizeof_alloc_struct_begin :: nat where "sizeof_alloc_struct_begin \<equiv> 12"

record free_heap_chunk =
  ch_addr :: nat
  ch_len :: nat

record alloc_struct_begin =
  as_magic :: u32
  as_ptr :: nat
  as_size :: nat

record heap_t =
  h_base :: nat
  h_len :: nat
  h_list_addr :: nat  \<comment> \<open>the address of \<open>theheap.free_list\<close>\<close>
  free_list :: "free_heap_chunk list"
  as_at :: "nat \<Rightarrow> alloc_struct_begin option"

definition heap_create_free_chunk :: "nat \<Rightarrow> nat \<Rightarrow> free_heap_chunk" where
  "heap_create_free_chunk ptr len = \<lparr>ch_addr = ptr, ch_len = len\<rparr>"

text \<open>
  After a walk off the end of the list, \<open>next_chunk\<close> is not null but the head of the list seen as a
  chunk. Merging with it would unlink the head: that is \<open>None\<close>. The result is the chunk the new one
  became part of, and the new list.
\<close>

definition heap_insert_free_chunk ::
  "nat \<Rightarrow> free_heap_chunk \<Rightarrow> free_heap_chunk list \<Rightarrow> (free_heap_chunk \<times> free_heap_chunk list) option" where
  "heap_insert_free_chunk list_addr chunk fl =
     (let before = takeWhile (\<lambda>next_chunk. \<not> ch_addr chunk < ch_addr next_chunk) fl;
          after = dropWhile (\<lambda>next_chunk. \<not> ch_addr chunk < ch_addr next_chunk) fl;
          (before1, chunk1) =
            (if before \<noteq> [] \<and> ch_addr (last before) + ch_len (last before) = ch_addr chunk
             then (butlast before, (last before)\<lparr>ch_len := ch_len (last before) + ch_len chunk\<rparr>)
             else (before, chunk))
      in case after of
           [] \<Rightarrow> if ch_addr chunk1 + ch_len chunk1 = list_addr then None
                 else Some (chunk1, before1 @ [chunk1])
         | next_chunk # rest \<Rightarrow>
             if ch_addr chunk1 + ch_len chunk1 = ch_addr next_chunk
             then let chunk2 = chunk1\<lparr>ch_len := ch_len chunk1 + ch_len next_chunk\<rparr>
                  in Some (chunk2, before1 @ chunk2 # rest)
             else Some (chunk1, before1 @ chunk1 # after))"

text \<open>The size and the alignment \<open>heap_alloc\<close> looks for.\<close>

definition alloc_request :: "u32 \<Rightarrow> u32 \<Rightarrow> u32 \<times> u32" where
  "alloc_request sz alignment =
     (let size1 = sz + 12;
          size2 = (if size1 < 12 then 12 else size1);
          size3 = ROUNDUP size2 4
      in if alignment > 0
         then let alignment1 = (if alignment < 16 then 16 else alignment)
              in (size3 + alignment1, alignment1)
         else (size3, alignment))"

text \<open>The first chunk that is big enough, with what is before and after it.\<close>

fun first_fit :: "nat \<Rightarrow> free_heap_chunk list \<Rightarrow>
  (free_heap_chunk list \<times> free_heap_chunk \<times> free_heap_chunk list) option" where
  "first_fit sz [] = None"
| "first_fit sz (chunk # fl) =
     (if ch_len chunk \<ge> sz then Some ([], chunk, fl)
      else map_option (\<lambda>(before, c, after). (chunk # before, c, after)) (first_fit sz fl))"

definition heap_alloc :: "u32 \<Rightarrow> u32 \<Rightarrow> heap_t \<Rightarrow> nat \<times> heap_t" where
  "heap_alloc size0 alignment0 h =
     (if alignment0 AND (alignment0 - 1) \<noteq> 0 then (0, h)
      else let (sz', alignment) = alloc_request size0 alignment0; sz = unat sz' in
        case first_fit sz (free_list h) of
          None \<Rightarrow> (0, h)
        | Some (before, chunk, after) \<Rightarrow>
            let (newchunk, chunk_len) =
                  (if ch_len chunk > sz + sizeof_free_heap_chunk
                   then ([heap_create_free_chunk (ch_addr chunk + sz) (ch_len chunk - sz)],
                         ch_len chunk - (ch_len chunk - sz))
                   else ([], ch_len chunk));
                ptr0 = ch_addr chunk + sizeof_alloc_struct_begin;
                ptr = (if alignment > 0 then unat (ROUNDUP (of_nat ptr0) alignment) else ptr0)
            in (ptr, h\<lparr>free_list := before @ newchunk @ after,
                       as_at := (as_at h)(ptr \<mapsto> \<lparr>as_magic = HEAP_MAGIC, as_ptr = ch_addr chunk,
                                                  as_size = chunk_len\<rparr>)\<rparr>))"

definition heap_free :: "nat \<Rightarrow> heap_t \<Rightarrow> heap_t option" where
  "heap_free ptr h =
     (if ptr = 0 then Some h
      else do {
        as \<leftarrow> as_at h ptr;
        (chunk, fl) \<leftarrow> heap_insert_free_chunk (h_list_addr h) (heap_create_free_chunk (as_ptr as) (as_size as))
                        (free_list h);
        Some (h\<lparr>free_list := fl, as_at := (as_at h)(ptr := None)\<rparr>) })"

text \<open>
  \<open>heap_realloc\<close> returns the new pointer and, when it copied, the destination, source and length of
  the \<open>memcpy\<close>.
\<close>

definition heap_realloc :: "nat \<Rightarrow> u32 \<Rightarrow> heap_t \<Rightarrow> (nat \<times> (nat \<times> nat \<times> nat) option \<times> heap_t) option" where
  "heap_realloc ptr sz h =
     (if sz \<noteq> 0
      then let (tmp_ptr, h1) = heap_alloc sz 0 h in
           if ptr \<noteq> 0 \<and> tmp_ptr \<noteq> 0
           then do {
             as \<leftarrow> as_at h1 ptr;
             let min_size = (if unat sz < as_size as then unat sz else as_size as);
             h2 \<leftarrow> heap_free ptr h1;
             Some (tmp_ptr, Some (tmp_ptr, ptr, min_size), h2) }
           else Some (tmp_ptr, None, h1)
      else do {
        h1 \<leftarrow> (if ptr \<noteq> 0 then heap_free ptr h else Some h);
        Some (0, None, h1) })"

definition heap_init :: "nat \<Rightarrow> nat \<Rightarrow> nat \<Rightarrow> heap_t option" where
  "heap_init heap_start heap_len list_addr = do {
     (chunk, fl) \<leftarrow> heap_insert_free_chunk list_addr (heap_create_free_chunk heap_start heap_len) [];
     Some \<lparr>h_base = heap_start, h_len = heap_len, h_list_addr = list_addr, free_list = fl,
           as_at = (\<lambda>_. None)\<rparr> }"

subsection \<open>The C library (lib/libc/malloc.c)\<close>

definition malloc :: "u32 \<Rightarrow> heap_t \<Rightarrow> nat \<times> heap_t" where
  "malloc sz = heap_alloc sz 0"

definition memalign :: "u32 \<Rightarrow> u32 \<Rightarrow> heap_t \<Rightarrow> nat \<times> heap_t" where
  "memalign boundary sz = heap_alloc sz boundary"

text \<open>\<open>calloc\<close> also returns the address and length of the bytes it sets to 0.\<close>

definition calloc :: "u32 \<Rightarrow> u32 \<Rightarrow> heap_t \<Rightarrow> nat \<times> (nat \<times> nat) option \<times> heap_t" where
  "calloc count sz h =
     (let realsize = count * sz; (ptr, h') = heap_alloc realsize 0 h
      in if ptr = 0 then (0, None, h') else (ptr, Some (ptr, unat realsize), h'))"

definition free :: "nat \<Rightarrow> heap_t \<Rightarrow> heap_t option" where
  "free ptr = heap_free ptr"

definition realloc :: "nat \<Rightarrow> u32 \<Rightarrow> heap_t \<Rightarrow> (nat \<times> (nat \<times> nat \<times> nat) option \<times> heap_t) option" where
  "realloc ptr sz = heap_realloc ptr sz"

subsection \<open>The invariant\<close>

definition gap :: "free_heap_chunk \<Rightarrow> free_heap_chunk \<Rightarrow> bool" where
  "gap a b \<longleftrightarrow> ch_addr a + ch_len a < ch_addr b"

definition span :: "free_heap_chunk \<Rightarrow> nat set" where
  "span c = {ch_addr c ..< ch_addr c + ch_len c}"

definition as_span :: "alloc_struct_begin \<Rightarrow> nat set" where
  "as_span a = {as_ptr a ..< as_ptr a + as_size a}"

definition chunk_ok :: "nat \<Rightarrow> nat \<Rightarrow> bool" where
  "chunk_ok addr len \<longleftrightarrow> 4 dvd addr \<and> 4 dvd len \<and> 12 \<le> len"

definition as_ok :: "nat \<Rightarrow> alloc_struct_begin \<Rightarrow> bool" where
  "as_ok ptr a \<longleftrightarrow> chunk_ok (as_ptr a) (as_size a) \<and> as_ptr a + 12 \<le> ptr \<and> ptr \<le> as_ptr a + as_size a"

text \<open>
  The free list is sorted with gaps, so it is coalesced; chunks do not overlap; and each byte of the
  heap belongs to a chunk.
\<close>

definition heap_ok :: "heap_t \<Rightarrow> bool" where
  "heap_ok h \<longleftrightarrow> h_list_addr h < h_base h \<and> 16 \<le> h_base h \<and> h_base h + h_len h < 2 ^ 32 \<and>
     sorted_wrt gap (free_list h) \<and> (\<forall>c \<in> set (free_list h). chunk_ok (ch_addr c) (ch_len c)) \<and>
     (\<forall>p a. as_at h p = Some a \<longrightarrow> as_ok p a) \<and>
     (\<forall>p a q b. as_at h p = Some a \<longrightarrow> as_at h q = Some b \<longrightarrow> p \<noteq> q \<longrightarrow> as_span a \<inter> as_span b = {}) \<and>
     (\<forall>p a. as_at h p = Some a \<longrightarrow> (\<forall>c \<in> set (free_list h). as_span a \<inter> span c = {})) \<and>
     (\<Union>c \<in> set (free_list h). span c) \<union> (\<Union>a \<in> ran (as_at h). as_span a) = {h_base h ..< h_base h + h_len h}"

text \<open>A request whose size computation does not wrap.\<close>

definition request_ok :: "u32 \<Rightarrow> u32 \<Rightarrow> bool" where
  "request_ok sz alignment \<longleftrightarrow>
     alignment AND (alignment - 1) = 0 \<and> unat sz + 16 + max 16 (unat alignment) < 2 ^ 32"

subsection \<open>Inserting into the free list\<close>

lemma span_disjoint:
  "ch_addr a \<le> ch_addr b \<Longrightarrow> 0 < ch_len b \<Longrightarrow> span a \<inter> span b = {} \<Longrightarrow> ch_addr a + ch_len a \<le> ch_addr b"
  unfolding span_def disjoint_iff by (drule spec [of _ "ch_addr b"]) simp

text \<open>Where the walk stops: the chunks below the new one, and those above.\<close>

lemma insert_position:
  assumes sorted: "sorted_wrt gap fl" and pos: "\<And>c. c \<in> set fl \<Longrightarrow> 0 < ch_len c" "0 < ch_len x"
    and dis: "\<And>c. c \<in> set fl \<Longrightarrow> span x \<inter> span c = {}"
  shows "b \<in> set (takeWhile (\<lambda>n. \<not> ch_addr x < ch_addr n) fl) \<Longrightarrow> ch_addr b + ch_len b \<le> ch_addr x"
    and "a \<in> set (dropWhile (\<lambda>n. \<not> ch_addr x < ch_addr n) fl) \<Longrightarrow> ch_addr x + ch_len x \<le> ch_addr a"
proof -
  let ?P = "\<lambda>n. \<not> ch_addr x < ch_addr n"
  assume b: "b \<in> set (takeWhile ?P fl)"
  then have "b \<in> set fl" "ch_addr b \<le> ch_addr x" by (auto dest: set_takeWhileD)
  then show "ch_addr b + ch_len b \<le> ch_addr x" using span_disjoint [of b x] pos dis by blast
next
  let ?P = "\<lambda>n. \<not> ch_addr x < ch_addr n"
  assume a: "a \<in> set (dropWhile ?P fl)"
  then obtain n rest where n: "dropWhile ?P fl = n # rest" by (cases "dropWhile ?P fl") auto
  have "sorted_wrt gap (n # rest)" using sorted by (metis n sorted_wrt_append takeWhile_dropWhile_id)
  then have "ch_addr n \<le> ch_addr a" using a n by (auto simp: gap_def dest: bspec)
  moreover have "ch_addr x < ch_addr n" using hd_dropWhile [of ?P fl] n by simp
  moreover have "a \<in> set fl" using a by (metis UnCI set_append takeWhile_dropWhile_id)
  ultimately show "ch_addr x + ch_len x \<le> ch_addr a" using span_disjoint [of x a] pos dis by auto
qed

text \<open>
  The insertion keeps the list sorted and coalesced and adds exactly the bytes of the chunk. \<open>Q\<close> is a
  property of addresses and lengths that merging keeps.
\<close>

lemma heap_insert_ok:
  assumes sorted: "sorted_wrt gap fl"
    and Q: "\<And>c. c \<in> set fl \<Longrightarrow> chunk_ok (ch_addr c) (ch_len c)" "chunk_ok (ch_addr x) (ch_len x)"
    and dis: "\<And>c. c \<in> set fl \<Longrightarrow> span x \<inter> span c = {}"
    and list: "list_addr < ch_addr x" "\<And>c. c \<in> set fl \<Longrightarrow> list_addr < ch_addr c"
  shows "\<exists>c fl'. heap_insert_free_chunk list_addr x fl = Some (c, fl') \<and> sorted_wrt gap fl' \<and> c \<in> set fl' \<and>
    span x \<subseteq> span c \<and> (\<forall>c \<in> set fl'. chunk_ok (ch_addr c) (ch_len c)) \<and>
    (\<Union>c \<in> set fl'. span c) = (\<Union>c \<in> set fl. span c) \<union> span x"
proof -
  have pos: "0 < ch_len c" if "chunk_ok (ch_addr c) (ch_len c)" for c using that by (auto simp: chunk_ok_def)
  define before after where ba: "before = takeWhile (\<lambda>n. \<not> ch_addr x < ch_addr n) fl"
    "after = dropWhile (\<lambda>n. \<not> ch_addr x < ch_addr n) fl"
  have fl: "fl = before @ after" by (simp add: ba)
  have b: "ch_addr b + ch_len b \<le> ch_addr x" if "b \<in> set before" for b
    using insert_position(1) [OF sorted pos [OF Q(1)] pos [OF Q(2)] dis] that by (simp add: ba)
  have a: "ch_addr x + ch_len x \<le> ch_addr a" if "a \<in> set after" for a
    using insert_position(2) [OF sorted pos [OF Q(1)] pos [OF Q(2)] dis] that by (simp add: ba)
  let ?m = "before \<noteq> [] \<and> ch_addr (last before) + ch_len (last before) = ch_addr x"
  define before1 chunk1 where c1: "before1 = (if ?m then butlast before else before)"
    "chunk1 = (if ?m then (last before)\<lparr>ch_len := ch_len (last before) + ch_len x\<rparr> else x)"
  have sb: "sorted_wrt gap before" "sorted_wrt gap after" using sorted fl by (simp_all add: sorted_wrt_append)
  have one: "sorted_wrt gap before1" "\<And>b. b \<in> set before1 \<Longrightarrow> gap b chunk1" "chunk_ok (ch_addr chunk1) (ch_len chunk1)"
    "ch_addr chunk1 + ch_len chunk1 = ch_addr x + ch_len x" "list_addr < ch_addr chunk1"
    "(\<Union>c \<in> set before1. span c) \<union> span chunk1 = (\<Union>c \<in> set before. span c) \<union> span x" "span x \<subseteq> span chunk1"
    "\<And>b. b \<in> set before1 \<Longrightarrow> chunk_ok (ch_addr b) (ch_len b)"
  proof -
    have "sorted_wrt gap before1 \<and> (\<forall>b \<in> set before1. gap b chunk1) \<and> chunk_ok (ch_addr chunk1) (ch_len chunk1) \<and>
      ch_addr chunk1 + ch_len chunk1 = ch_addr x + ch_len x \<and> list_addr < ch_addr chunk1 \<and>
      (\<Union>c \<in> set before1. span c) \<union> span chunk1 = (\<Union>c \<in> set before. span c) \<union> span x \<and> span x \<subseteq> span chunk1 \<and>
      (\<forall>b \<in> set before1. chunk_ok (ch_addr b) (ch_len b))"
    proof (cases before rule: rev_cases)
      case Nil
      then show ?thesis using list Q by (simp add: c1)
    next
      case (snoc bs l)
      have g: "sorted_wrt gap bs" "\<forall>b \<in> set bs. gap b l" using sb snoc by (simp_all add: sorted_wrt_append)
      have ok: "chunk_ok (ch_addr l) (ch_len l)" "\<forall>b \<in> set bs. chunk_ok (ch_addr b) (ch_len b)" "list_addr < ch_addr l"
        using Q list fl snoc by simp_all
      have le: "ch_addr l + ch_len l \<le> ch_addr x" "\<forall>b \<in> set bs. ch_addr b + ch_len b < ch_addr l"
        using b [of l] snoc g by (simp_all add: gap_def)
      show ?thesis
      proof (cases "ch_addr l + ch_len l = ch_addr x")
        case True
        then have "before1 = bs" "chunk1 = l\<lparr>ch_len := ch_len l + ch_len x\<rparr>" using snoc by (simp_all add: c1)
        moreover have "span (l\<lparr>ch_len := ch_len l + ch_len x\<rparr>) = span l \<union> span x"
          using True by (auto simp: span_def)
        ultimately show ?thesis
          using True g ok Q(2) snoc by (auto simp: gap_def chunk_ok_def)
      next
        case False
        then have "before1 = before" "chunk1 = x" using snoc by (simp_all add: c1)
        then show ?thesis using False le g ok list Q sb snoc by (auto simp: gap_def)
      qed
    qed
    then show "sorted_wrt gap before1" "\<And>b. b \<in> set before1 \<Longrightarrow> gap b chunk1" "chunk_ok (ch_addr chunk1) (ch_len chunk1)"
      "ch_addr chunk1 + ch_len chunk1 = ch_addr x + ch_len x" "list_addr < ch_addr chunk1"
      "(\<Union>c \<in> set before1. span c) \<union> span chunk1 = (\<Union>c \<in> set before. span c) \<union> span x" "span x \<subseteq> span chunk1"
      "\<And>b. b \<in> set before1 \<Longrightarrow> chunk_ok (ch_addr b) (ch_len b)" by blast+
  qed
  have ins: "heap_insert_free_chunk list_addr x fl = (case after of
      [] \<Rightarrow> if ch_addr chunk1 + ch_len chunk1 = list_addr then None else Some (chunk1, before1 @ [chunk1])
    | n # rest \<Rightarrow> if ch_addr chunk1 + ch_len chunk1 = ch_addr n
        then let chunk2 = chunk1\<lparr>ch_len := ch_len chunk1 + ch_len n\<rparr> in Some (chunk2, before1 @ chunk2 # rest)
        else Some (chunk1, before1 @ chunk1 # after))"
    unfolding heap_insert_free_chunk_def ba [symmetric] Let_def c1 by (simp split: prod.splits)
  show ?thesis
  proof (cases after)
    case Nil
    then show ?thesis using ins one fl by (auto simp: sorted_wrt_append)
  next
    case (Cons n rest)
    have n: "ch_addr chunk1 + ch_len chunk1 \<le> ch_addr n" "\<forall>r \<in> set rest. gap n r" "chunk_ok (ch_addr n) (ch_len n)"
      "\<forall>r \<in> set rest. chunk_ok (ch_addr r) (ch_len r)" "sorted_wrt gap rest"
      using a [of n] Cons one(4) sb fl Q by simp_all
    have far: "gap b r" if "b \<in> set before1" "r \<in> set rest" for b r
      using one(2) [OF that(1)] n(1,2) that(2) by (force simp: gap_def)
    have spans: "(\<Union>c \<in> set fl. span c) \<union> span x = (\<Union>c \<in> set before1. span c) \<union> span chunk1 \<union> span n \<union> (\<Union>c \<in> set rest. span c)"
      using one(6) fl Cons by auto
    show ?thesis
    proof (cases "ch_addr chunk1 + ch_len chunk1 = ch_addr n")
      case True
      let ?c = "chunk1\<lparr>ch_len := ch_len chunk1 + ch_len n\<rparr>"
      have sc: "span ?c = span chunk1 \<union> span n" using True by (auto simp: span_def)
      have "sorted_wrt gap (before1 @ ?c # rest)"
        using one(1,2) n far True by (auto simp: sorted_wrt_append gap_def)
      moreover have "chunk_ok (ch_addr ?c) (ch_len ?c)" using one(3) n(3) by (simp add: chunk_ok_def)
      moreover have "(\<Union>c \<in> set (before1 @ ?c # rest). span c) = (\<Union>c \<in> set fl. span c) \<union> span x"
        unfolding spans by (simp add: sc Un_ac)
      moreover have "heap_insert_free_chunk list_addr x fl = Some (?c, before1 @ ?c # rest)"
        using ins Cons True by (simp add: Let_def)
      ultimately show ?thesis using one(7,8) n(4) sc by auto
    next
      case False
      have "sorted_wrt gap (before1 @ chunk1 # n # rest)"
        using one(1,2) n False by (force simp: sorted_wrt_append gap_def)
      moreover have "(\<Union>c \<in> set (before1 @ chunk1 # n # rest). span c) = (\<Union>c \<in> set fl. span c) \<union> span x"
        unfolding spans by (simp add: Un_ac)
      moreover have "heap_insert_free_chunk list_addr x fl = Some (chunk1, before1 @ chunk1 # n # rest)"
        using ins Cons False by simp
      ultimately show ?thesis using one(3,7,8) n(3,4) by auto
    qed
  qed
qed

subsection \<open>Word arithmetic of requests\<close>

lemma pow2_word:
  fixes w :: u32
  assumes "w AND (w - 1) = 0" and "w \<noteq> 0"
  shows "\<exists>n < 32. w = 2 ^ n"
proof -
  have one: "1 \<le> unat w" using assms(2) by (metis unat_eq_zero not_less_eq_eq One_nat_def le0 le_antisym)
  obtain n where n: "2 ^ n \<le> unat w" "unat w < 2 ^ (n + 1)" using ex_power_ivl1 [of 2 "unat w"] one by auto
  have lt: "n < 32"
  proof (rule ccontr)
    assume "\<not> n < 32"
    then have "(2::nat) ^ 32 \<le> 2 ^ n" by (intro power_increasing) auto
    from le_trans [OF this n(1)] show False using unat_lt_u32 [of w] by (simp del: unat_lt_u32)
  qed
  have top: "bit v n" if "2 ^ n \<le> unat v" "unat v < 2 ^ (n + 1)" for v :: u32
  proof -
    have "unat v div 2 ^ n = 1" using that by (simp add: div_nat_eqI)
    then have "odd (unat v div 2 ^ n)" by simp
    then have "bit (unat v) n" by (simp add: bit_iff_odd)
    then show ?thesis by (simp add: bit_unsigned_iff)
  qed
  have "unat w = 2 ^ n"
  proof (rule ccontr)
    assume "unat w \<noteq> 2 ^ n"
    moreover have "unat (w - 1) = unat w - 1" using one by (simp add: unat_sub word_le_nat_alt)
    ultimately have "bit (w - 1) n" "bit w n" using n by (auto intro!: top)
    then show False using assms(1) by (metis bit_and_iff bit_0_eq bot_apply bot_bool_def)
  qed
  then have "w = 2 ^ n" using lt by (simp add: word_unat_eq_iff unat_2p_u32)
  then show ?thesis using lt by blast
qed

lemma unat_ROUNDUP:
  assumes n: "n < 32" and no_wrap: "unat a + 2 ^ n \<le> 2 ^ 32"
  shows "2 ^ n dvd unat (ROUNDUP a (2 ^ n))" and "unat a \<le> unat (ROUNDUP a (2 ^ n))"
    and "unat (ROUNDUP a (2 ^ n)) < unat a + 2 ^ n"
proof -
  let ?m = "(2::nat) ^ n"
  have one: "unat (2 ^ n - 1 :: u32) = ?m - 1"
    by (subst unat_sub) (simp_all add: unat_2p_u32 n word_le_nat_alt)
  have "0 < ?m" by simp
  then have "unat a + unat (2 ^ n - 1 :: u32) < 2 ^ 32" using no_wrap one by linarith
  then have sum: "unat (a + (2 ^ n - 1)) = unat a + (?m - 1)" by (subst unat_add_u32) (simp_all add: one)
  have eq: "unat (ROUNDUP a (2 ^ n)) = unat a + (?m - 1) - (unat a + (?m - 1)) mod ?m"
    unfolding ROUNDUP_def using unat_and_not_mask [OF n, of "a + (2 ^ n - 1)"] sum by (simp add: mask_eq_exp_minus_1)
  then show "?m dvd unat (ROUNDUP a (2 ^ n))" by (simp add: minus_mod_eq_mult_div)
  have "(unat a + (?m - 1)) mod ?m < ?m" by simp
  then show "unat a \<le> unat (ROUNDUP a (2 ^ n))" "unat (ROUNDUP a (2 ^ n)) < unat a + ?m"
    using eq \<open>0 < ?m\<close> by linarith+
qed

text \<open>What \<open>heap_alloc\<close> looks for when the size computation does not wrap.\<close>

lemma alloc_request_ok:
  assumes "request_ok sz alignment" and r: "alloc_request sz alignment = (sz', al)"
  shows "unat sz + 12 + unat al \<le> unat sz'" and "4 dvd unat sz'" and "12 \<le> unat sz'"
    and "unat alignment dvd unat al \<or> alignment = 0" and "al = 0 \<longleftrightarrow> alignment = 0"
    and "al \<noteq> 0 \<Longrightarrow> \<exists>n < 32. 4 \<le> n \<and> al = 2 ^ n"
proof -
  have nw: "unat sz + 16 + max 16 (unat alignment) < 2 ^ 32" and pw: "alignment AND (alignment - 1) = 0"
    using assms(1) by (simp_all add: request_ok_def)
  have s1: "unat (sz + 12) = unat sz + 12" by (subst unat_add_u32) (use nw in auto)
  then have ge: "\<not> sz + 12 < 12" by (simp add: word_less_nat_alt)
  have four: "(4 :: u32) = 2 ^ 2" by simp
  have "unat (sz + 12) + 2 ^ 2 \<le> 2 ^ 32" using s1 nw by simp
  note R = unat_ROUNDUP [of 2 "sz + 12", OF _ this, folded four, simplified]
  have r3: "4 dvd unat (ROUNDUP (sz + 12) 4)" "unat sz + 12 \<le> unat (ROUNDUP (sz + 12) 4)"
    "unat (ROUNDUP (sz + 12) 4) < unat sz + 16" using R s1 by auto
  have "unat sz + 12 + unat al \<le> unat sz' \<and> 4 dvd unat sz' \<and> 12 \<le> unat sz' \<and>
    (unat alignment dvd unat al \<or> alignment = 0) \<and> (al = 0 \<longleftrightarrow> alignment = 0) \<and>
    (al \<noteq> 0 \<longrightarrow> (\<exists>n < 32. 4 \<le> n \<and> al = 2 ^ n))"
  proof (cases "alignment = 0")
    case True
    then show ?thesis using r r3 ge by (simp add: alloc_request_def Let_def)
  next
    case False
    obtain n where n: "n < 32" "alignment = 2 ^ n" using pow2_word [OF pw False] by blast
    let ?n = "max 4 n"
    have un: "unat alignment = 2 ^ n" using n unat_2p_u32 by simp
    have pow: "(2::nat) ^ 4 \<le> 2 ^ n \<longleftrightarrow> 4 \<le> n" by (rule power_increasing_iff) simp
    have "alignment < 16 \<longleftrightarrow> \<not> (2::nat) ^ 4 \<le> 2 ^ n" using un by (simp add: word_less_nat_alt not_le)
    then have "alignment < 16 \<longleftrightarrow> n < 4" unfolding pow by (simp add: not_le)
    then have "(if alignment < 16 then 16 else alignment) = 2 ^ ?n" using n by (cases "n < 4") (simp_all add: max_def)
    then have al: "al = 2 ^ ?n" "sz' = ROUNDUP (sz + 12) 4 + al"
      using r ge False by (auto simp: alloc_request_def Let_def word_gt_0)
    then have ua: "unat al = 2 ^ ?n" using n unat_2p_u32 [of ?n] by simp
    have "(2::nat) ^ 4 \<le> 2 ^ ?n" by (rule power_increasing) auto
    then have 16: "16 \<le> unat al" using ua by simp
    have "unat al = max 16 (unat alignment)"
      unfolding ua un using pow by (simp add: max_def)
    then have "unat sz' = unat (ROUNDUP (sz + 12) 4) + unat al"
      unfolding al(2) by (subst unat_add_u32) (use r3 nw in auto)
    moreover have "4 dvd unat al" using le_imp_power_dvd [of 2 ?n "2::nat"] unfolding ua by simp
    moreover have "unat alignment dvd unat al" unfolding ua un by (rule le_imp_power_dvd) simp
    moreover have "\<exists>m < 32. 4 \<le> m \<and> al = 2 ^ m" using al(1) n by (intro exI [of _ ?n]) simp
    moreover have "al \<noteq> 0" using 16 by auto
    ultimately show ?thesis using r3 16 False by auto
  qed
  then show "unat sz + 12 + unat al \<le> unat sz'" and "4 dvd unat sz'" and "12 \<le> unat sz'"
    and "unat alignment dvd unat al \<or> alignment = 0" and "al = 0 \<longleftrightarrow> alignment = 0"
    and "al \<noteq> 0 \<Longrightarrow> \<exists>n < 32. 4 \<le> n \<and> al = 2 ^ n" by blast+
qed

subsection \<open>Allocating\<close>

lemma first_fit_Some:
  "first_fit n fl = Some (before, c, after) \<Longrightarrow> fl = before @ c # after \<and> n \<le> ch_len c"
  by (induction fl arbitrary: before) (auto split: if_splits)

lemma first_fit_None: "first_fit n fl = None \<longleftrightarrow> (\<forall>c \<in> set fl. ch_len c < n)"
  by (induction fl) auto

lemma heap_okD:
  assumes "heap_ok h" and "as_at h p = Some a"
  shows "as_ok p a" and "as_at h q = Some b \<Longrightarrow> p \<noteq> q \<Longrightarrow> as_span a \<inter> as_span b = {}"
    and "c \<in> set (free_list h) \<Longrightarrow> as_span a \<inter> span c = {}"
  using assms(1)[unfolded heap_ok_def, THEN conjunct2, THEN conjunct2, THEN conjunct2, THEN conjunct2, THEN conjunct2]
    assms(2) by simp_all

lemma heap_ok_as_range:
  assumes "heap_ok h" and "as_at h p = Some a"
  shows "as_span a \<subseteq> {h_base h ..< h_base h + h_len h}"
proof -
  have tile: "(\<Union>c \<in> set (free_list h). span c) \<union> (\<Union>b \<in> ran (as_at h). as_span b) = {h_base h ..< h_base h + h_len h}"
    using assms(1) by (simp add: heap_ok_def)
  have "as_span a \<subseteq> (\<Union>b \<in> ran (as_at h). as_span b)" using assms(2) by (auto simp: ran_def)
  then show ?thesis unfolding tile [symmetric] by (rule le_supI2)
qed

lemma heap_ok_free_range:
  assumes "heap_ok h" and "c \<in> set (free_list h)"
  shows "h_base h \<le> ch_addr c" and "ch_addr c + ch_len c \<le> h_base h + h_len h" and "chunk_ok (ch_addr c) (ch_len c)"
proof -
  show ok: "chunk_ok (ch_addr c) (ch_len c)" using assms by (simp add: heap_ok_def)
  have sub: "span c \<subseteq> {h_base h ..< h_base h + h_len h}" using assms by (auto simp: heap_ok_def)
  have "ch_addr c \<in> span c" "ch_addr c + ch_len c - 1 \<in> span c" using ok by (auto simp: span_def chunk_ok_def)
  then have "h_base h \<le> ch_addr c" "ch_addr c + ch_len c - 1 < h_base h + h_len h" using sub by fastforce+
  then show "h_base h \<le> ch_addr c" "ch_addr c + ch_len c \<le> h_base h + h_len h" using ok by (auto simp: chunk_ok_def)
qed

text \<open>Part or all of a free chunk becomes an allocation.\<close>

lemma take_chunk:
  assumes inv: "heap_ok h" and fl: "free_list h = before @ c # after"
    and a: "as_ptr a = ch_addr c" "as_ok ptr a"
    and rest: "rest = [] \<and> as_size a = ch_len c \<or>
      rest = [heap_create_free_chunk (ch_addr c + as_size a) (ch_len c - as_size a)] \<and>
        as_size a + 12 < ch_len c"
  defines "h' \<equiv> h\<lparr>free_list := before @ rest @ after, as_at := (as_at h)(ptr \<mapsto> a)\<rparr>"
  shows "heap_ok h'" and "as_at h ptr = None"
proof -
  have ok: "chunk_ok (ch_addr c) (ch_len c)" "chunk_ok (as_ptr a) (as_size a)"
    using heap_ok_free_range(3) [OF inv, of c] fl a(2) by (simp_all add: as_ok_def)
  have spans: "as_span a \<union> (\<Union>r \<in> set rest. span r) = span c"
    using rest a(1) by (auto simp: span_def as_span_def heap_create_free_chunk_def)
  have disr: "as_span a \<inter> span r = {}" if "r \<in> set rest" for r
    using rest a(1) that by (auto simp: span_def as_span_def heap_create_free_chunk_def)
  have live: "as_span b \<inter> span c = {}" "as_ok p b" if "as_at h p = Some b" for p b
    using heap_okD(1,3) [OF inv that] fl by simp_all
  show none: "as_at h ptr = None"
  proof (rule ccontr)
    assume "as_at h ptr \<noteq> None"
    then obtain b where b: "as_at h ptr = Some b" by blast
    note bl = live [OF b]
    have "as_ptr b \<in> as_span b" "ch_addr c \<in> span c" using bl(2) ok by (auto simp: as_ok_def chunk_ok_def span_def as_span_def)
    then have "as_ptr b + as_size b \<le> ch_addr c \<or> ch_addr c + ch_len c \<le> as_ptr b"
      using bl(1) by (auto simp: span_def as_span_def disjoint_iff)
    moreover have "as_size a \<le> ch_len c" using rest by auto
    ultimately show False using bl(2) a by (auto simp: as_ok_def)
  qed
  have sorted: "sorted_wrt gap (before @ c # after)" using inv fl by (simp add: heap_ok_def)
  have sorted': "sorted_wrt gap (before @ rest @ after)"
    using sorted rest by (auto simp: sorted_wrt_append gap_def heap_create_free_chunk_def)
  have rok: "chunk_ok (ch_addr r) (ch_len r)" if "r \<in> set rest" for r
    using that rest ok a(1) by (auto simp: chunk_ok_def heap_create_free_chunk_def)
  have fdis: "as_span a \<inter> span f = {}" if "f \<in> set before \<union> set after" for f
  proof -
    have "gap f c \<or> gap c f" using sorted that by (auto simp: sorted_wrt_append)
    then have "span c \<inter> span f = {}" by (auto simp: gap_def span_def)
    then show ?thesis using spans by blast
  qed
  have L: "p = ptr \<and> x = a \<or> p \<noteq> ptr \<and> as_at h p = Some x" if "as_at h' p = Some x" for p x
    using that by (auto simp: h'_def split: if_splits)
  have cover: "(\<Union>f \<in> set (free_list h'). span f) \<union> (\<Union>b \<in> ran (as_at h'). as_span b) =
    (\<Union>f \<in> set (free_list h). span f) \<union> (\<Union>b \<in> ran (as_at h). as_span b)"
  proof -
    have "ran (as_at h') = insert a (ran (as_at h))" using none by (simp add: h'_def)
    then show ?thesis unfolding fl using spans by (auto simp: h'_def)
  qed
  have adis: "as_span b \<inter> as_span d = {}" if "as_at h' p = Some b" "as_at h' q = Some d" "p \<noteq> q" for p q b d
  proof -
    have "as_span a \<inter> as_span e = {}" if "as_at h r = Some e" for r e using live(1) [OF that] spans by blast
    moreover have "as_span b \<inter> as_span d = {}" if "as_at h p = Some b" "as_at h q = Some d"
      by (rule heap_okD(2) [OF inv that \<open>p \<noteq> q\<close>])
    ultimately show ?thesis using L [OF that(1)] L [OF that(2)] that(3) by blast
  qed
  have fadis: "as_span b \<inter> span f = {}" if "as_at h' p = Some b" "f \<in> set (free_list h')" for p b f
  proof (cases "p = ptr")
    case True
    then show ?thesis using that disr fdis by (auto simp: h'_def)
  next
    case False
    then have b: "as_at h p = Some b" using L [OF that(1)] by blast
    note heap_okD(3) [OF inv b]
    then show ?thesis using that(2) live(1) [OF b] spans by (auto simp: h'_def fl)
  qed
  show "heap_ok h'"
    unfolding heap_ok_def cover
  proof (intro conjI allI ballI impI)
    show "chunk_ok (ch_addr f) (ch_len f)" if "f \<in> set (free_list h')" for f
      using that rok heap_ok_free_range(3) [OF inv] by (auto simp: h'_def fl)
    show "as_ok p b" if "as_at h' p = Some b" for p b using L [OF that] live(2) a(2) by blast
  qed (use inv sorted' adis fadis in \<open>simp_all add: heap_ok_def h'_def\<close>)
qed

lemma heap_alloc_None:
  assumes "request_ok sz alignment" and "alloc_request sz alignment = (sz', al)"
    and "\<forall>c \<in> set (free_list h). ch_len c < unat sz'"
  shows "heap_alloc sz alignment h = (0, h)"
  using assms first_fit_None [of "unat sz'" "free_list h"]
  by (simp add: heap_alloc_def request_ok_def Let_def)

lemma heap_alloc_Some:
  assumes inv: "heap_ok h" and req: "request_ok sz alignment" and r: "alloc_request sz alignment = (sz', al)"
    and ff: "first_fit (unat sz') (free_list h) = Some (before, c, after)"
  obtains ptr a rest where
    "heap_alloc sz alignment h = (ptr, h\<lparr>free_list := before @ rest @ after, as_at := (as_at h)(ptr \<mapsto> a)\<rparr>)"
    and "free_list h = before @ c # after" and "as_ptr a = ch_addr c" and "as_ok ptr a"
    and "rest = [] \<and> as_size a = ch_len c \<or>
      rest = [heap_create_free_chunk (ch_addr c + as_size a) (ch_len c - as_size a)] \<and> as_size a + 12 < ch_len c"
    and "ptr + unat sz \<le> as_ptr a + as_size a" and "0 < ptr" and "4 dvd ptr"
    and "alignment \<noteq> 0 \<longrightarrow> unat alignment dvd ptr"
proof -
  note R = alloc_request_ok [OF req r] and F = first_fit_Some [OF ff]
  have fl: "free_list h = before @ c # after" and big: "unat sz' \<le> ch_len c" using F by simp_all
  note C = heap_ok_free_range [OF inv, of c, unfolded fl, simplified]
  let ?p0 = "ch_addr c + 12"
  have hb: "ch_addr c + ch_len c < 2 ^ 32" using C(2) inv by (simp add: heap_ok_def)
  let ?len = "if ch_len c > unat sz' + 12 then unat sz' else ch_len c"
  let ?ptr = "if al > 0 then unat (ROUNDUP (of_nat ?p0) al) else ?p0"
  have ptr: "?p0 \<le> ?ptr \<and> ?ptr + unat sz \<le> ch_addr c + unat sz' \<and> 4 dvd ?ptr \<and> (alignment \<noteq> 0 \<longrightarrow> unat alignment dvd ?ptr)"
  proof (cases "al = 0")
    case True
    then show ?thesis using R C(3) by (simp add: chunk_ok_def)
  next
    case False
    then obtain n where n: "n < 32" "al = 2 ^ n" "4 \<le> n" using R(6) by blast
    then have un: "unat al = 2 ^ n" by (simp add: unat_2p_u32)
    have u0: "unat (of_nat ?p0 :: u32) = ?p0" by (rule unat_of_nat_u32) (use hb R(1) big in simp)
    have "unat (of_nat ?p0 :: u32) + 2 ^ n \<le> 2 ^ 32" unfolding u0 using hb R(1) big un by simp
    note U = unat_ROUNDUP [OF n(1) this]
    have "(2::nat) ^ 2 dvd 2 ^ n"
      using n(3) by (intro le_imp_power_dvd) simp
    then have "4 dvd unat (ROUNDUP (of_nat ?p0) al)" using U(1) n(2) by (auto intro: dvd_trans)
    moreover have "unat alignment dvd unat (ROUNDUP (of_nat ?p0) al)" if "alignment \<noteq> 0"
      using R(4) that U(1) un n(2) by (auto intro: dvd_trans)
    moreover have "?p0 \<le> unat (ROUNDUP (of_nat ?p0) al)" "unat (ROUNDUP (of_nat ?p0) al) < ?p0 + unat al"
      using U(2,3) unfolding u0 n(2) [symmetric] un by simp_all
    ultimately show ?thesis using False R(1) by (simp add: word_gt_0)
  qed
  let ?a = "\<lparr>as_magic = HEAP_MAGIC, as_ptr = ch_addr c, as_size = ?len\<rparr>"
  let ?rest = "if ch_len c > unat sz' + 12 then [heap_create_free_chunk (ch_addr c + unat sz') (ch_len c - unat sz')] else []"
  show thesis
  proof (rule that [of ?ptr ?a ?rest])
    show "heap_alloc sz alignment h = (?ptr, h\<lparr>free_list := before @ ?rest @ after, as_at := (as_at h)(?ptr \<mapsto> ?a)\<rparr>)"
      using req r ff big by (simp add: heap_alloc_def request_ok_def Let_def)
    show "as_ok ?ptr ?a" using ptr C(3) R(2,3) big by (simp add: as_ok_def chunk_ok_def)
  qed (use fl ptr C(3) big in auto)
qed

subsection \<open>Freeing\<close>

lemma heap_free_ok:
  assumes inv: "heap_ok h" and a: "as_at h ptr = Some a"
  shows "\<exists>h'. heap_free ptr h = Some h' \<and> heap_ok h' \<and> as_at h' = (as_at h)(ptr := None) \<and>
    h_base h' = h_base h \<and> h_len h' = h_len h"
proof -
  let ?x = "heap_create_free_chunk (as_ptr a) (as_size a)"
  have ok: "as_ok ptr a" by (rule heap_okD(1) [OF inv a])
  have sx: "span ?x = as_span a" by (simp add: span_def as_span_def heap_create_free_chunk_def)
  have tile: "(\<Union>c \<in> set (free_list h). span c) \<union> (\<Union>b \<in> ran (as_at h). as_span b) = {h_base h ..< h_base h + h_len h}"
    and base: "h_list_addr h < h_base h" using inv by (simp_all add: heap_ok_def)
  have "as_span a \<subseteq> {h_base h ..< h_base h + h_len h}" by (rule heap_ok_as_range [OF inv a])
  moreover have "as_ptr a \<in> as_span a" using ok by (auto simp: as_ok_def chunk_ok_def as_span_def)
  ultimately have "h_base h \<le> as_ptr a" by auto
  then have la: "h_list_addr h < ch_addr ?x" using base by (simp add: heap_create_free_chunk_def)
  have lb: "h_list_addr h < ch_addr c" if "c \<in> set (free_list h)" for c
    using heap_ok_free_range(1) [OF inv that] base by simp
  have cx: "chunk_ok (ch_addr ?x) (ch_len ?x)" using ok by (simp add: as_ok_def heap_create_free_chunk_def)
  have dx: "span ?x \<inter> span c = {}" if "c \<in> set (free_list h)" for c
    using heap_okD(3) [OF inv a that] by (simp add: sx)
  have "sorted_wrt gap (free_list h)" using inv by (simp add: heap_ok_def)
  from heap_insert_ok [OF this heap_ok_free_range(3) [OF inv] cx dx la lb]
  obtain c fl where ins: "heap_insert_free_chunk (h_list_addr h) ?x (free_list h) = Some (c, fl)"
    and srt: "sorted_wrt gap fl" and cok: "\<forall>c \<in> set fl. chunk_ok (ch_addr c) (ch_len c)"
    and un: "(\<Union>c \<in> set fl. span c) = (\<Union>c \<in> set (free_list h). span c) \<union> as_span a"
    unfolding sx by blast
  let ?h = "h\<lparr>free_list := fl, as_at := (as_at h)(ptr := None)\<rparr>"
  have old: "as_at h p = Some b \<and> p \<noteq> ptr" if "as_at ?h p = Some b" for p b
    using that by (auto split: if_splits)
  have "(\<Union>b \<in> ran (as_at h). as_span b) = (\<Union>b \<in> ran (as_at ?h). as_span b) \<union> as_span a"
  proof -
    have "ran (as_at h) = insert a (ran (as_at ?h))"
      using a ran_map_upd [of "(as_at h)(ptr := None)" ptr a] by (simp add: fun_upd_idem)
    then show ?thesis by auto
  qed
  then have cover: "(\<Union>c \<in> set (free_list ?h). span c) \<union> (\<Union>b \<in> ran (as_at ?h). as_span b) = {h_base h ..< h_base h + h_len h}"
    using tile un by (simp add: Un_ac)
  have fdis: "as_span b \<inter> span c = {}" if "as_at ?h p = Some b" "c \<in> set fl" for p b c
  proof -
    have "as_span b \<inter> span d = {}" if "d \<in> set (free_list h)" for d
      using heap_okD(3) [OF inv] old [OF \<open>as_at ?h p = Some b\<close>] that by blast
    moreover have "as_span b \<inter> as_span a = {}" using heap_okD(2) [OF inv _ a] old [OF that(1)] by blast
    moreover have "span c \<subseteq> (\<Union>c \<in> set (free_list h). span c) \<union> as_span a" using that(2) un by auto
    ultimately show ?thesis by blast
  qed
  have "heap_ok ?h"
    unfolding heap_ok_def cover
  proof (intro conjI allI ballI impI)
    show "as_ok p b" if "as_at ?h p = Some b" for p b using heap_okD(1) [OF inv] old [OF that] by blast
    show "as_span b \<inter> as_span d = {}" if "as_at ?h p = Some b" "as_at ?h q = Some d" "p \<noteq> q" for p q b d
      using heap_okD(2) [OF inv] old [OF that(1)] old [OF that(2)] that(3) by blast
    show "as_span b \<inter> span c = {}" if "as_at ?h p = Some b" "c \<in> set (free_list ?h)" for p b c
      using fdis [OF that(1)] that(2) by simp
  qed (use inv srt cok in \<open>simp_all add: heap_ok_def\<close>)
  moreover have "ptr \<noteq> 0" using ok by (auto simp: as_ok_def)
  ultimately show ?thesis using ins a by (simp add: heap_free_def)
qed

text \<open>Giving back what was just taken restores the list.\<close>

lemma insert_back:
  assumes fl: "sorted_wrt gap (before @ c # after)" and ok: "\<forall>d \<in> set (before @ c # after). chunk_ok (ch_addr d) (ch_len d)"
    and n: "0 < n" and list: "list_addr < ch_addr c"
    and rest: "rest = [] \<and> n = ch_len c \<or>
      rest = [heap_create_free_chunk (ch_addr c + n) (ch_len c - n)] \<and> n < ch_len c"
  shows "\<exists>d. heap_insert_free_chunk list_addr (heap_create_free_chunk (ch_addr c) n) (before @ rest @ after) =
    Some (d, before @ c # after)"
proof -
  let ?x = "heap_create_free_chunk (ch_addr c) n" and ?P = "\<lambda>m. \<not> ch_addr c < ch_addr m"
  have b: "ch_addr d + ch_len d < ch_addr c" if "d \<in> set before" for d using fl that by (auto simp: sorted_wrt_append gap_def)
  have a: "ch_addr c + ch_len c < ch_addr d" if "d \<in> set after" for d using fl that by (auto simp: sorted_wrt_append gap_def)
  have "\<not> ?P d" if "d \<in> set (rest @ after)" for d using that rest n a [of d] by (auto simp: heap_create_free_chunk_def)
  then have tw: "takeWhile ?P (rest @ after) = []" "dropWhile ?P (rest @ after) = rest @ after"
    by (cases "rest @ after"; simp)+
  have pb: "\<forall>d \<in> set before. ?P d" using b by fastforce
  have "takeWhile ?P (before @ rest @ after) = before" "dropWhile ?P (before @ rest @ after) = rest @ after"
    using pb tw by (simp_all add: takeWhile_append2 dropWhile_append2)
  moreover have "\<not> (before \<noteq> [] \<and> ch_addr (last before) + ch_len (last before) = ch_addr c)"
    using b [of "last before"] by auto
  moreover have "ch_addr c + ch_len c \<noteq> list_addr" using list by simp
  moreover have "ch_addr c + ch_len c \<noteq> ch_addr d" if "d \<in> set after" for d using a [OF that] by simp
  ultimately show ?thesis
    using rest by (cases after) (auto simp: heap_insert_free_chunk_def heap_create_free_chunk_def Let_def)
qed

subsection \<open>The result of an allocation\<close>

lemma heap_alloc_region:
  assumes inv: "heap_ok h" and req: "request_ok sz alignment" and alloc: "heap_alloc sz alignment h = (ptr, h')"
  shows "heap_ok h' \<and>
    (if ptr = 0 then h' = h \<and> (\<forall>c \<in> set (free_list h). ch_len c < unat (fst (alloc_request sz alignment)))
     else as_at h ptr = None \<and> (\<exists>a. as_at h' = (as_at h)(ptr \<mapsto> a) \<and> {ptr - 12 ..< ptr + unat sz} \<subseteq> as_span a) \<and>
       4 dvd ptr \<and> (alignment \<noteq> 0 \<longrightarrow> unat alignment dvd ptr) \<and>
       {ptr - 12 ..< ptr + unat sz} \<subseteq> {h_base h ..< h_base h + h_len h} \<and>
       (\<forall>q b. as_at h q = Some b \<longrightarrow> {ptr - 12 ..< ptr + unat sz} \<inter> as_span b = {}) \<and>
       (\<forall>c \<in> set (free_list h'). {ptr - 12 ..< ptr + unat sz} \<inter> span c = {}))"
proof -
  obtain sz' al where r: "alloc_request sz alignment = (sz', al)" by (cases "alloc_request sz alignment")
  show ?thesis
  proof (cases "first_fit (unat sz') (free_list h)")
    case None
    then have small: "\<forall>c \<in> set (free_list h). ch_len c < unat sz'" by (simp add: first_fit_None)
    then show ?thesis using heap_alloc_None [OF req r small] alloc inv r by simp
  next
    case (Some f)
    obtain before c after where "first_fit (unat sz') (free_list h) = Some (before, c, after)" using Some by (cases f) simp
    from heap_alloc_Some [OF inv req r this] obtain p a rest where
      al: "heap_alloc sz alignment h = (p, h\<lparr>free_list := before @ rest @ after, as_at := (as_at h)(p \<mapsto> a)\<rparr>)"
      and fl: "free_list h = before @ c # after" and a: "as_ptr a = ch_addr c" "as_ok p a"
      and rest: "rest = [] \<and> as_size a = ch_len c \<or>
        rest = [heap_create_free_chunk (ch_addr c + as_size a) (ch_len c - as_size a)] \<and> as_size a + 12 < ch_len c"
      and p: "p + unat sz \<le> as_ptr a + as_size a" "0 < p" "4 dvd p" "alignment \<noteq> 0 \<longrightarrow> unat alignment dvd p" .
    note take = take_chunk [OF inv fl a rest]
    have eq: "ptr = p" "h' = h\<lparr>free_list := before @ rest @ after, as_at := (as_at h)(p \<mapsto> a)\<rparr>" using al alloc by simp_all
    have sub: "{p - 12 ..< p + unat sz} \<subseteq> as_span a" using a(2) p(1) by (auto simp: as_span_def as_ok_def)
    have new: "as_at h' p = Some a" by (simp add: eq)
    have ok': "heap_ok h'" using take(1) by (simp add: eq)
    have other: "as_span a \<inter> as_span b = {}" if "as_at h q = Some b" for q b
      using heap_okD(2) [OF ok' new, of q b] that take(2) by (cases "p = q") (simp_all add: eq)
    have free: "as_span a \<inter> span c = {}" if "c \<in> set (free_list h')" for c by (rule heap_okD(3) [OF ok' new that])
    have inside: "as_span a \<subseteq> {h_base h ..< h_base h + h_len h}" using heap_ok_as_range [OF ok' new] by (simp add: eq)
    have "\<forall>q b. as_at h q = Some b \<longrightarrow> {p - 12 ..< p + unat sz} \<inter> as_span b = {}" using other sub by blast
    moreover have "\<forall>c \<in> set (free_list h'). {p - 12 ..< p + unat sz} \<inter> span c = {}" using free sub by blast
    moreover have "{p - 12 ..< p + unat sz} \<subseteq> {h_base h ..< h_base h + h_len h}" by (rule subset_trans [OF sub inside])
    moreover have "\<exists>a. as_at h' = (as_at h)(p \<mapsto> a) \<and> {p - 12 ..< p + unat sz} \<subseteq> as_span a" using sub by (auto simp: eq)
    moreover have "\<not> p = 0" using p(2) by simp
    ultimately show ?thesis using ok' take(2) p(3,4) by (simp only: eq(1) if_False simp_thms)
  qed
qed

subsection \<open>What a user of the allocator relies on\<close>

locale allocator =
  fixes ok :: "'h \<Rightarrow> bool" and region :: "'h \<Rightarrow> nat \<Rightarrow> nat set option" and fits :: "'s \<Rightarrow> bool"
    and extent :: "'s \<Rightarrow> nat \<Rightarrow> nat set" and alloc :: "'s \<Rightarrow> 'h \<Rightarrow> nat \<times> 'h"
    and release :: "nat \<Rightarrow> 'h \<Rightarrow> 'h option"
  assumes alloc_law: "ok h \<Longrightarrow> fits s \<Longrightarrow> alloc s h = (p, h') \<Longrightarrow> p \<noteq> 0 \<Longrightarrow>
      ok h' \<and> region h p = None \<and> (\<exists>R. region h' = (region h)(p \<mapsto> R) \<and> extent s p \<subseteq> R)"
    and fail_law: "ok h \<Longrightarrow> fits s \<Longrightarrow> alloc s h = (0, h') \<Longrightarrow> h' = h"
    and disjoint_law: "ok h \<Longrightarrow> region h p = Some R \<Longrightarrow> region h q = Some S \<Longrightarrow> p \<noteq> q \<Longrightarrow> R \<inter> S = {}"
    and release_law: "ok h \<Longrightarrow> region h p = Some R \<Longrightarrow>
      \<exists>h'. release p h = Some h' \<and> ok h' \<and> region h' = (region h)(p := None)"
begin

lemma two_allocs:
  assumes "ok h" and fits: "fits s" "fits t" and a: "alloc s h = (p, h1)" "p \<noteq> 0"
    and b: "alloc t h1 = (q, h2)" "q \<noteq> 0"
  shows "p \<noteq> q \<and> extent s p \<inter> extent t q = {} \<and>
    (\<exists>h3 R. release p h2 = Some h3 \<and> ok h3 \<and> region h3 p = None \<and> region h3 q = Some R \<and> extent t q \<subseteq> R)"
proof -
  obtain R where R: "ok h1" "region h1 = (region h)(p \<mapsto> R)" "extent s p \<subseteq> R"
    using alloc_law [OF assms(1) fits(1) a] by blast
  obtain S where S: "ok h2" "region h1 q = None" "region h2 = (region h1)(q \<mapsto> S)" "extent t q \<subseteq> S"
    using alloc_law [OF R(1) fits(2) b] by blast
  have ne: "p \<noteq> q" using R(2) S(2) by auto
  have p: "region h2 p = Some R" and q: "region h2 q = Some S" using R(2) S(3) ne by simp_all
  have "R \<inter> S = {}" by (rule disjoint_law [OF S(1) p q ne])
  moreover obtain h3 where "release p h2 = Some h3" "ok h3" "region h3 = (region h2)(p := None)"
    using release_law [OF S(1) p] by blast
  ultimately show ?thesis using ne q R(3) S(4) by auto
qed

end

interpretation heap: allocator heap_ok "\<lambda>h p. map_option as_span (as_at h p)"
  "\<lambda>(sz, alignment). request_ok sz alignment" "\<lambda>(sz, alignment) p. {p - 12 ..< p + unat sz}"
  "\<lambda>(sz, alignment). heap_alloc sz alignment" heap_free
proof unfold_locales
  fix h h' p and s :: "u32 \<times> u32"
  assume s: "heap_ok h" "case s of (sz, alignment) \<Rightarrow> request_ok sz alignment"
    "(case s of (sz, alignment) \<Rightarrow> heap_alloc sz alignment) h = (p, h')"
  obtain sz al where sz: "s = (sz, al)" by (cases s)
  have region: "heap_ok h'" "p = 0 \<Longrightarrow> h' = h"
    "p \<noteq> 0 \<Longrightarrow> as_at h p = None \<and> (\<exists>a. as_at h' = (as_at h)(p \<mapsto> a) \<and> {p - 12 ..< p + unat sz} \<subseteq> as_span a)"
    using heap_alloc_region [of h sz al p h'] s sz by auto
  show "heap_ok h' \<and> map_option as_span (as_at h p) = None \<and>
    (\<exists>R. (\<lambda>p. map_option as_span (as_at h' p)) = (\<lambda>p. map_option as_span (as_at h p))(p \<mapsto> R) \<and>
      (case s of (sz, alignment) \<Rightarrow> \<lambda>p. {p - 12 ..< p + unat sz}) p \<subseteq> R)" if ne: "p \<noteq> 0"
  proof -
    obtain a where a: "as_at h p = None" "as_at h' = (as_at h)(p \<mapsto> a)" "{p - 12 ..< p + unat sz} \<subseteq> as_span a"
      using region(3) [OF ne] by blast
    have "(\<lambda>q. map_option as_span (as_at h' q)) = (\<lambda>q. map_option as_span (as_at h q))(p \<mapsto> as_span a)"
      by (simp add: a(2) fun_eq_iff)
    then show ?thesis using region(1) a(1,3) sz by auto
  qed
next
  fix h h' and s :: "u32 \<times> u32"
  assume "heap_ok h" "case s of (sz, alignment) \<Rightarrow> request_ok sz alignment"
    "(case s of (sz, alignment) \<Rightarrow> heap_alloc sz alignment) h = (0, h')"
  then show "h' = h" using heap_alloc_region [of h _ _ 0 h'] by (cases s) auto
next
  fix h p q R S
  assume "heap_ok h" "map_option as_span (as_at h p) = Some R" "map_option as_span (as_at h q) = Some S" "p \<noteq> q"
  then show "R \<inter> S = {}" using heap_okD(2) by blast
next
  fix h p R
  assume "heap_ok h" "map_option as_span (as_at h p) = Some R"
  then show "\<exists>h'. heap_free p h = Some h' \<and> heap_ok h' \<and>
    (\<lambda>q. map_option as_span (as_at h' q)) = (\<lambda>q. map_option as_span (as_at h q))(p := None)"
    using heap_free_ok [of h p] by fastforce
qed

subsection \<open>Properties\<close>

text \<open>A heap of 1024 bytes at address 4096, and the same heap after an allocation of 100 bytes.\<close>

definition example_heap :: heap_t where
  "example_heap = \<lparr>h_base = 4096, h_len = 1024, h_list_addr = 64,
     free_list = [heap_create_free_chunk 4096 1024], as_at = (\<lambda>_. None)\<rparr>"

lemma example_heap_init: "heap_init 4096 1024 64 = Some example_heap"
  by (simp add: heap_init_def heap_insert_free_chunk_def example_heap_def heap_create_free_chunk_def)

lemma heap_init_ok:
  assumes "list_addr < heap_start" and "16 \<le> heap_start" and "heap_start + heap_len < 2 ^ 32"
    and "chunk_ok heap_start heap_len"
  shows "\<exists>h. heap_init heap_start heap_len list_addr = Some h \<and> heap_ok h"
  using assms
  by (simp add: heap_init_def heap_insert_free_chunk_def heap_create_free_chunk_def heap_ok_def span_def)

lemma example_heap_ok: "heap_ok example_heap"
  using heap_init_ok [of 64 4096 1024] example_heap_init by (simp add: chunk_ok_def)

text \<open>
  (C15) What \<open>heap_alloc\<close> returns is usable memory: the requested bytes and the header in front of them lie
  inside the heap, overlap no other allocation and no free chunk, and the pointer has the requested
  alignment. The heap stays tiled by its free and allocated chunks. A null pointer means that no
  free chunk is as long as the rounded request.
\<close>

theorem heap_alloc_ok:
  assumes inv: "heap_ok h" and req: "request_ok sz alignment" and alloc: "heap_alloc sz alignment h = (ptr, h')"
  shows "heap_ok h' \<and>
    (if ptr = 0 then h' = h \<and> (\<forall>c \<in> set (free_list h). ch_len c < unat (fst (alloc_request sz alignment)))
     else as_at h ptr = None \<and> 4 dvd ptr \<and> (alignment \<noteq> 0 \<longrightarrow> unat alignment dvd ptr) \<and>
       {ptr - 12 ..< ptr + unat sz} \<subseteq> {h_base h ..< h_base h + h_len h} \<and>
       (\<forall>q b. as_at h q = Some b \<longrightarrow> {ptr - 12 ..< ptr + unat sz} \<inter> as_span b = {}) \<and>
       (\<forall>c \<in> set (free_list h'). {ptr - 12 ..< ptr + unat sz} \<inter> span c = {}))"
  using heap_alloc_region [OF assms] by (simp split: if_splits)

theorem heap_alloc_ok_witness:
  "\<exists>ptr h'. heap_alloc 100 64 example_heap = (ptr, h') \<and> heap_ok h' \<and> 64 dvd ptr \<and> ptr = 4160"
proof -
  have req: "request_ok 100 64" by (simp add: request_ok_def)
  obtain ptr h' where a: "heap_alloc 100 64 example_heap = (ptr, h')" by (cases "heap_alloc 100 64 example_heap")
  have "ptr = fst (heap_alloc 100 64 example_heap)" using a by simp
  also have "\<dots> = 4160"
    by (simp add: heap_alloc_def example_heap_def heap_create_free_chunk_def alloc_request_def ROUNDUP_def Let_def)
  finally show ?thesis using heap_alloc_ok [OF example_heap_ok req a] a by simp
qed

text \<open>
  (C11) Freeing what was just allocated restores the heap exactly, whatever the state of the free list:
  a chunk that was split is merged again, one that was not goes back to its place.
\<close>

theorem heap_alloc_free:
  assumes inv: "heap_ok h" and req: "request_ok sz alignment" and alloc: "heap_alloc sz alignment h = (ptr, h')"
    and ptr: "ptr \<noteq> 0"
  shows "heap_free ptr h' = Some h"
proof -
  obtain sz' al where r: "alloc_request sz alignment = (sz', al)" by (cases "alloc_request sz alignment")
  have "first_fit (unat sz') (free_list h) \<noteq> None"
    using heap_alloc_None [OF req r, of h] alloc ptr unfolding first_fit_None by auto
  then obtain before c after where "first_fit (unat sz') (free_list h) = Some (before, c, after)" by auto
  from heap_alloc_Some [OF inv req r this] obtain p a rest where
    al: "heap_alloc sz alignment h = (p, h\<lparr>free_list := before @ rest @ after, as_at := (as_at h)(p \<mapsto> a)\<rparr>)"
    and fl: "free_list h = before @ c # after" and a: "as_ptr a = ch_addr c" "as_ok p a"
    and rest: "rest = [] \<and> as_size a = ch_len c \<or>
      rest = [heap_create_free_chunk (ch_addr c + as_size a) (ch_len c - as_size a)] \<and> as_size a + 12 < ch_len c"
    by metis
  have eq: "ptr = p" "h' = h\<lparr>free_list := before @ rest @ after, as_at := (as_at h)(p \<mapsto> a)\<rparr>" using al alloc by simp_all
  have list: "h_list_addr h < ch_addr c"
    using heap_ok_free_range(1) [OF inv, of c] fl inv by (simp add: heap_ok_def)
  have "sorted_wrt gap (before @ c # after)" "\<forall>d \<in> set (before @ c # after). chunk_ok (ch_addr d) (ch_len d)"
    using inv fl by (simp_all add: heap_ok_def)
  moreover have "0 < as_size a" using a(2) by (auto simp: as_ok_def chunk_ok_def)
  ultimately obtain d where "heap_insert_free_chunk (h_list_addr h) (heap_create_free_chunk (ch_addr c) (as_size a))
      (before @ rest @ after) = Some (d, before @ c # after)"
    using insert_back [of before c after "as_size a" "h_list_addr h" rest] list rest by auto
  moreover have "(as_at h)(p := None) = as_at h"
    using take_chunk(2) [OF inv fl a rest] by (simp add: fun_upd_idem)
  ultimately show ?thesis using ptr fl a(1) by (simp add: heap_free_def eq)
qed

theorem heap_alloc_free_witness: "heap_free 4160 (snd (heap_alloc 100 64 example_heap)) = Some example_heap"
proof -
  have req: "request_ok 100 64" by (simp add: request_ok_def)
  have p: "fst (heap_alloc 100 64 example_heap) = 4160"
    by (simp add: heap_alloc_def example_heap_def heap_create_free_chunk_def alloc_request_def ROUNDUP_def Let_def)
  show ?thesis using heap_alloc_free [OF example_heap_ok req] p by (metis prod.collapse zero_neq_numeral)
qed

text \<open>
  (C10) Two allocations, one after the other, never overlap, headers included; and freeing the first keeps
  the invariant and leaves the second allocated.
\<close>

theorem heap_allocs_disjoint:
  assumes "heap_ok h" and "request_ok sz1 al1" and "request_ok sz2 al2"
    and "heap_alloc sz1 al1 h = (p, h1)" and "p \<noteq> 0" and "heap_alloc sz2 al2 h1 = (q, h2)" and "q \<noteq> 0"
  shows "{p - 12 ..< p + unat sz1} \<inter> {q - 12 ..< q + unat sz2} = {} \<and>
    (\<exists>h3 a. heap_free p h2 = Some h3 \<and> heap_ok h3 \<and> as_at h3 p = None \<and> as_at h3 q = Some a \<and>
      {q - 12 ..< q + unat sz2} \<subseteq> as_span a)"
  using heap.two_allocs [of h "(sz1, al1)" "(sz2, al2)" p h1 q h2] assms by auto

theorem heap_allocs_disjoint_witness:
  "\<exists>p h1 q h2. heap_alloc 100 0 example_heap = (p, h1) \<and> heap_alloc 8 32 h1 = (q, h2) \<and>
    {p - 12 ..< p + 100} \<inter> {q - 12 ..< q + 8} = {}"
proof -
  have req: "request_ok 100 0" "request_ok 8 32" by (simp_all add: request_ok_def)
  obtain p h1 where a: "heap_alloc 100 0 example_heap = (p, h1)" by (cases "heap_alloc 100 0 example_heap")
  obtain q h2 where b: "heap_alloc 8 32 h1 = (q, h2)" by (cases "heap_alloc 8 32 h1")
  have ab: "p = fst (heap_alloc 100 0 example_heap)" "h1 = snd (heap_alloc 100 0 example_heap)" "q = fst (heap_alloc 8 32 h1)"
    using a b by simp_all
  have "p \<noteq> 0" "q \<noteq> 0"
    unfolding ab
    by (simp_all add: heap_alloc_def example_heap_def heap_create_free_chunk_def alloc_request_def ROUNDUP_def Let_def)
  then show ?thesis using heap_allocs_disjoint [OF example_heap_ok req a _ b] a b by auto
qed

text \<open>
  (C39) The size computation wraps: a request for 4294967284 bytes is served with a chunk of 12 bytes, its
  header, and the caller gets a pointer to no memory at all.
\<close>

theorem heap_alloc_wraps:
  assumes "free_list h = c # fl" and "24 < ch_len c"
  shows "\<exists>h'. heap_alloc (- 12) 0 h = (ch_addr c + 12, h') \<and>
    map_option as_size (as_at h' (ch_addr c + 12)) = Some 12"
proof -
  have "alloc_request (- 12) 0 = (12, 0)" by (simp add: alloc_request_def ROUNDUP_def Let_def)
  then show ?thesis using assms by (simp add: heap_alloc_def Let_def)
qed

theorem heap_alloc_wraps_witness: "\<exists>h'. heap_alloc (- 12) 0 example_heap = (4108, h')"
  using heap_alloc_wraps [of example_heap "heap_create_free_chunk 4096 1024" "[]"]
  by (auto simp: example_heap_def heap_create_free_chunk_def)

text \<open>
  \<open>heap_realloc\<close> bounds its copy by the size of the old chunk, which includes the header: growing an
  allocation reads at least 12 bytes past the end of the old chunk.
\<close>

lemma heap_realloc_overreads:
  assumes a: "as_at h ptr = Some a" "as_ok ptr a" and sz: "as_size a \<le> unat sz"
    and r: "heap_realloc ptr sz h = Some (p, Some (dst, src, n), h')"
    and new: "fst (heap_alloc sz 0 h) \<noteq> ptr"
  shows "as_ptr a + as_size a + 12 \<le> src + n"
proof -
  obtain q h1 where q: "heap_alloc sz 0 h = (q, h1)" by (cases "heap_alloc sz 0 h")
  have "as_at h1 ptr = Some a"
    using q new a(1) by (auto simp: heap_alloc_def Let_def split: if_splits prod.splits option.splits)
  moreover have "sz \<noteq> 0" using sz a(2) by (auto simp: as_ok_def chunk_ok_def)
  ultimately have "src = ptr" "n = as_size a"
    using r q sz by (auto simp: heap_realloc_def Let_def bind_eq_Some_conv split: if_splits)
  then show ?thesis using a(2) by (simp add: as_ok_def)
qed

end
