(* ===== verification/LK_Bio.thy ===== *)
theory LK_Bio
  imports LK_Prelude
begin

text \<open>
  The block device layer: the registry and the range checks of \<^verbatim>\<open>lib/bio/bio.c\<close>, with its default
  implementations on top of block hooks, the memory device (\<^verbatim>\<open>lib/bio/mem.c\<close>), the subdevice
  (\<^verbatim>\<open>lib/bio/subdev.c\<close>) and the block device of the emulator (\<^verbatim>\<open>platform/armemu/blkdev.c\<close>), whose
  hardware is a parameter. A device is selected by a number, its hooks by its kind. Block numbers
  and counts are 32-bit words, for their sums and products wrap; file offsets are 64 bits wide in
  the code and integers here, since no sum that is formed of them leaves that range.

  A transfer yields \<open>Inl\<close> of a negative error code, or \<open>Inr\<close> of the bytes read or of the number of bytes
  written. \<open>None\<close> is a panic, an access outside of an object or to a device that has been freed, or the
  end of the fuel, which bounds the number of subdevices between a device and its storage.
\<close>

subsection \<open>Devices (include/lib/bio.h)\<close>

type_synonym 'a xfer = "(int + 'a) option"

datatype bdev_kind =
    Mem_bdev "u8 list"
  | Subdev nat u32  \<comment> \<open>the parent and the first block in it\<close>
  | Armemu_bdev "u8 list"

record bdev_t =
  b_ref :: int
  b_name :: string
  b_size :: int
  b_block_size :: u32
  b_block_count :: u32
  b_kind :: bdev_kind

record bio_t =
  bdev :: "nat \<Rightarrow> bdev_t option"
  bdev_list :: "nat list"

definition upd_bdev :: "nat \<Rightarrow> bdev_t \<Rightarrow> bio_t \<Rightarrow> bio_t" where
  "upd_bdev d dev b = b\<lparr>bdev := (bdev b)(d \<mapsto> dev)\<rparr>"

text \<open>\<open>memcpy\<close> out of a buffer that holds \<open>temp\<close>\<close>

definition copy_out :: "nat \<Rightarrow> nat \<Rightarrow> 'a list \<Rightarrow> 'a list option" where
  "copy_out off n temp = (if off + n \<le> length temp then Some (slice off n temp) else None)"

subsection \<open>Default operations (lib/bio/bio.c)\<close>

text \<open>
  \<open>rb block count\<close> is \<open>bio_read_block(dev, ...)\<close>, \<open>wb bytes block count\<close> is \<open>bio_write_block(dev, ...)\<close>. The
  three parts of a transfer are the partial first block, the middle blocks and the partial last
  block; each returns what it transferred, the length still to go and the next block.
\<close>

definition default_read_first :: "nat \<Rightarrow> (u32 \<Rightarrow> u32 \<Rightarrow> u8 list xfer) \<Rightarrow> nat \<Rightarrow> nat \<Rightarrow> (u8 list \<times> nat \<times> u32) xfer" where
  "default_read_first bs rb offset len =
     (let block = of_nat (offset div bs) in
      if offset mod bs \<noteq> 0
      then do {
        r \<leftarrow> rb block 1;
        case r of
          Inl err \<Rightarrow> Some (Inl err)
        | Inr temp \<Rightarrow> do {
            let block_offset = offset mod bs;
            let tocopy = min (bs - block_offset) len;
            bytes \<leftarrow> copy_out block_offset tocopy temp;
            Some (Inr (bytes, len - tocopy, block + 1)) } }
      else Some (Inr ([], len, block)))"

definition default_read_middle :: "nat \<Rightarrow> (u32 \<Rightarrow> u32 \<Rightarrow> u8 list xfer) \<Rightarrow> nat \<Rightarrow> u32 \<Rightarrow> (u8 list \<times> nat \<times> u32) xfer" where
  "default_read_middle bs rb len block =
     (if len \<ge> bs
      then do {
        let block_count = len div bs;
        r \<leftarrow> rb block (of_nat block_count);
        case r of
          Inl err \<Rightarrow> Some (Inl err)
        | Inr temp \<Rightarrow> do {
            bytes \<leftarrow> copy_out 0 (block_count * bs) temp;
            Some (Inr (bytes, len - block_count * bs, block + of_nat block_count)) } }
      else Some (Inr ([], len, block)))"

definition default_read_last :: "(u32 \<Rightarrow> u32 \<Rightarrow> u8 list xfer) \<Rightarrow> nat \<Rightarrow> u32 \<Rightarrow> u8 list xfer" where
  "default_read_last rb len block =
     (if len > 0
      then do {
        r \<leftarrow> rb block 1;
        case r of
          Inl err \<Rightarrow> Some (Inl err)
        | Inr temp \<Rightarrow> do { bytes \<leftarrow> copy_out 0 len temp; Some (Inr bytes) } }
      else Some (Inr []))"

definition bio_default_read :: "nat \<Rightarrow> (u32 \<Rightarrow> u32 \<Rightarrow> u8 list xfer) \<Rightarrow> nat \<Rightarrow> nat \<Rightarrow> u8 list xfer" where
  "bio_default_read bs rb offset len = do {
     r1 \<leftarrow> default_read_first bs rb offset len;
     case r1 of
       Inl err \<Rightarrow> Some (Inl err)
     | Inr (buf1, len1, block1) \<Rightarrow> do {
         r2 \<leftarrow> default_read_middle bs rb len1 block1;
         case r2 of
           Inl err \<Rightarrow> Some (Inl err)
         | Inr (buf2, len2, block2) \<Rightarrow> do {
             r3 \<leftarrow> default_read_last rb len2 block2;
             case r3 of
               Inl err \<Rightarrow> Some (Inl err)
             | Inr buf3 \<Rightarrow> Some (Inr (buf1 @ buf2 @ buf3)) } } }"

text \<open>
  Writing threads the state \<open>'s\<close> of the device through the hooks; what was written before an error
  stays written.
\<close>

type_synonym 's read_hook = "u32 \<Rightarrow> u32 \<Rightarrow> 's \<Rightarrow> u8 list xfer"
type_synonym 's write_hook = "u8 list \<Rightarrow> u32 \<Rightarrow> u32 \<Rightarrow> 's \<Rightarrow> ((int + nat) \<times> 's) option"

definition default_write_first ::
  "nat \<Rightarrow> 's read_hook \<Rightarrow> 's write_hook \<Rightarrow> u8 list \<Rightarrow> nat \<Rightarrow> 's \<Rightarrow> ((int + nat \<times> u8 list \<times> u32) \<times> 's) option" where
  "default_write_first bs rb wb buf offset s =
     (let block = of_nat (offset div bs) in
      if offset mod bs \<noteq> 0
      then do {
        r \<leftarrow> rb block 1 s;
        case r of
          Inl err \<Rightarrow> Some (Inl err, s)
        | Inr temp \<Rightarrow> do {
            let block_offset = offset mod bs;
            let tocopy = min (bs - block_offset) (length buf);
            temp' \<leftarrow> memcpy_into block_offset (take tocopy buf) temp;
            (r', s') \<leftarrow> wb temp' block 1 s;
            case r' of
              Inl err \<Rightarrow> Some (Inl err, s')
            | Inr _ \<Rightarrow> Some (Inr (tocopy, drop tocopy buf, block + 1), s') } }
      else Some (Inr (0, buf, block), s))"

definition default_write_middle ::
  "nat \<Rightarrow> 's write_hook \<Rightarrow> u8 list \<Rightarrow> u32 \<Rightarrow> 's \<Rightarrow> ((int + nat \<times> u8 list \<times> u32) \<times> 's) option" where
  "default_write_middle bs wb buf block s =
     (if length buf \<ge> bs
      then do {
        let block_count = length buf div bs;
        let bytes = block_count * bs;
        (r, s') \<leftarrow> wb (take bytes buf) block (of_nat block_count) s;
        case r of
          Inl err \<Rightarrow> Some (Inl err, s')
        | Inr _ \<Rightarrow> Some (Inr (bytes, drop bytes buf, block + of_nat block_count), s') }
      else Some (Inr (0, buf, block), s))"

definition default_write_last ::
  "'s read_hook \<Rightarrow> 's write_hook \<Rightarrow> u8 list \<Rightarrow> u32 \<Rightarrow> 's \<Rightarrow> ((int + nat) \<times> 's) option" where
  "default_write_last rb wb buf block s =
     (if length buf > 0
      then do {
        r \<leftarrow> rb block 1 s;
        case r of
          Inl err \<Rightarrow> Some (Inl err, s)
        | Inr temp \<Rightarrow> do {
            temp' \<leftarrow> memcpy_into 0 buf temp;
            (r', s') \<leftarrow> wb temp' block 1 s;
            case r' of Inl err \<Rightarrow> Some (Inl err, s') | Inr _ \<Rightarrow> Some (Inr (length buf), s') } }
      else Some (Inr 0, s))"

definition bio_default_write ::
  "nat \<Rightarrow> 's read_hook \<Rightarrow> 's write_hook \<Rightarrow> u8 list \<Rightarrow> nat \<Rightarrow> 's \<Rightarrow> ((int + nat) \<times> 's) option" where
  "bio_default_write bs rb wb buf offset s = do {
     (r1, s1) \<leftarrow> default_write_first bs rb wb buf offset s;
     case r1 of
       Inl err \<Rightarrow> Some (Inl err, s1)
     | Inr (n1, buf1, block1) \<Rightarrow> do {
         (r2, s2) \<leftarrow> default_write_middle bs wb buf1 block1 s1;
         case r2 of
           Inl err \<Rightarrow> Some (Inl err, s2)
         | Inr (n2, buf2, block2) \<Rightarrow> do {
             (r3, s3) \<leftarrow> default_write_last rb wb buf2 block2 s2;
             case r3 of
               Inl err \<Rightarrow> Some (Inl err, s3)
             | Inr n3 \<Rightarrow> Some (Inr (n1 + n2 + n3), s3) } } }"

text \<open>
  \<open>bio_default_erase\<close>: \<open>bw bytes pos\<close> is \<open>bio_write(dev, ...)\<close>. On a failed or short write it returns
  the position it has reached, not a length and not an error.
\<close>

function default_erase_loop ::
  "(u8 list \<Rightarrow> int \<Rightarrow> 's \<Rightarrow> ((int + nat) \<times> 's) option) \<Rightarrow> nat \<Rightarrow> int \<Rightarrow> nat \<Rightarrow> 's \<Rightarrow> (int \<times> 's) option" where
  "default_erase_loop bw len pos remaining s =
     (if remaining > 0
      then let towrite = min remaining 4096 in do {
        (r, s') \<leftarrow> bw (replicate towrite 0) pos s;
        case r of
          Inl err \<Rightarrow> Some (pos, s')
        | Inr written \<Rightarrow>
            if written < towrite then Some (pos + int written, s')
            else default_erase_loop bw len (pos + int written) (remaining - written) s' }
      else Some (int len, s))"
  by pat_completeness auto
termination by (relation "measure (\<lambda>(bw, len, pos, remaining, s). remaining)") auto

declare default_erase_loop.simps [simp del]

definition bio_default_erase ::
  "(u8 list \<Rightarrow> int \<Rightarrow> 's \<Rightarrow> ((int + nat) \<times> 's) option) \<Rightarrow> int \<Rightarrow> nat \<Rightarrow> 's \<Rightarrow> (int \<times> 's) option" where
  "bio_default_erase bw offset len s = default_erase_loop bw len offset len s"

subsection \<open>The memory device (lib/bio/mem.c)\<close>

abbreviation (input) BLOCKSIZE :: nat where "BLOCKSIZE \<equiv> 512"

definition mem_bdev_read :: "u8 list \<Rightarrow> nat \<Rightarrow> nat \<Rightarrow> u8 list xfer" where
  "mem_bdev_read mem offset len = do { bytes \<leftarrow> copy_out offset len mem; Some (Inr bytes) }"

definition mem_bdev_read_block :: "u8 list \<Rightarrow> u32 \<Rightarrow> u32 \<Rightarrow> u8 list xfer" where
  "mem_bdev_read_block mem block count = do {
     bytes \<leftarrow> copy_out (unat (block * 512)) (unat (count * 512)) mem;
     Some (Inr bytes) }"

definition mem_bdev_write :: "u8 list \<Rightarrow> nat \<Rightarrow> u8 list \<Rightarrow> ((int + nat) \<times> u8 list) option" where
  "mem_bdev_write buf offset mem = do { mem' \<leftarrow> memcpy_into offset buf mem; Some (Inr (length buf), mem') }"

definition mem_bdev_write_block :: "u8 list \<Rightarrow> u32 \<Rightarrow> u32 \<Rightarrow> u8 list \<Rightarrow> ((int + nat) \<times> u8 list) option" where
  "mem_bdev_write_block buf block count mem = do {
     bytes \<leftarrow> copy_out 0 (unat (count * 512)) buf;
     mem' \<leftarrow> memcpy_into (unat (block * 512)) bytes mem;
     Some (Inr (unat (count * 512)), mem') }"

subsection \<open>The emulator's device (platform/armemu/blkdev.c)\<close>

text \<open>
  The hardware: what a read command at a byte offset for a length delivers, and what a write command
  makes of the medium; \<open>None\<close> when the command register reports an error.
\<close>

record bdev_hw =
  hw_read :: "nat \<Rightarrow> nat \<Rightarrow> u8 list \<Rightarrow> u8 list option"
  hw_write :: "nat \<Rightarrow> u8 list \<Rightarrow> u8 list \<Rightarrow> u8 list option"

definition armemu_read_block :: "bdev_hw \<Rightarrow> u32 \<Rightarrow> u32 \<Rightarrow> u32 \<Rightarrow> u8 list \<Rightarrow> u8 list xfer" where
  "armemu_read_block hw bs block count disk =
     (case hw_read hw (unat block * unat bs) (unat (count * bs)) disk of
        Some bytes \<Rightarrow> Some (Inr bytes)
      | None \<Rightarrow> Some (Inl ERR_IO))"

definition armemu_write_block ::
  "bdev_hw \<Rightarrow> u32 \<Rightarrow> u8 list \<Rightarrow> u32 \<Rightarrow> u32 \<Rightarrow> u8 list \<Rightarrow> ((int + nat) \<times> u8 list) option" where
  "armemu_write_block hw bs buf block count disk = do {
     bytes \<leftarrow> copy_out 0 (unat (count * bs)) buf;
     case hw_write hw (unat block * unat bs) bytes disk of
       Some disk' \<Rightarrow> Some (Inr (unat (count * bs)), disk')
     | None \<Rightarrow> Some (Inl ERR_IO, disk) }"

subsection \<open>Transfers (lib/bio/bio.c, lib/bio/subdev.c)\<close>

text \<open>
  The range check of \<open>bio_read\<close>, \<open>bio_write\<close> and \<open>bio_erase\<close>: a result for the caller, or the length to
  transfer. That of \<open>bio_read_block\<close> and \<open>bio_write_block\<close>: \<open>None\<close> for the result 0, or the count.
\<close>

definition bio_range :: "int \<Rightarrow> int \<Rightarrow> nat \<Rightarrow> (int option) + nat" where
  "bio_range sz offset len =
     (if offset < 0 then Inl (Some (- 1))
      else if offset \<ge> sz then Inl None
      else if len = 0 then Inl None
      else if offset + int len > sz then Inr (nat (sz - offset))
      else Inr len)"

definition bio_block_range :: "u32 \<Rightarrow> u32 \<Rightarrow> u32 \<Rightarrow> u32 option" where
  "bio_block_range block_count block count =
     (if block > block_count then None
      else if count = 0 then None
      else if block + count > block_count then Some (block_count - block)
      else Some count)"

text \<open>\<open>offset + subdev->offset * subdev->dev.block_size\<close>: the product is one of 32-bit words.\<close>

definition subdev_offset :: "bdev_t \<Rightarrow> u32 \<Rightarrow> int \<Rightarrow> int" where
  "subdev_offset dev first offset = offset + uint (first * b_block_size dev)"

fun bio_read_block :: "bdev_hw \<Rightarrow> nat \<Rightarrow> nat \<Rightarrow> u32 \<Rightarrow> u32 \<Rightarrow> bio_t \<Rightarrow> u8 list xfer" where
  "bio_read_block hw 0 d block count0 b = None"
| "bio_read_block hw (Suc n) d block count0 b = do {
     dev \<leftarrow> bdev b d;
     case bio_block_range (b_block_count dev) block count0 of
       None \<Rightarrow> Some (Inr [])
     | Some count \<Rightarrow>
         (case b_kind dev of
            Mem_bdev mem \<Rightarrow> mem_bdev_read_block mem block count
          | Subdev parent first \<Rightarrow> bio_read_block hw n parent (block + first) count b
          | Armemu_bdev disk \<Rightarrow> armemu_read_block hw (b_block_size dev) block count disk) }"

fun bio_read :: "bdev_hw \<Rightarrow> nat \<Rightarrow> nat \<Rightarrow> int \<Rightarrow> nat \<Rightarrow> bio_t \<Rightarrow> u8 list xfer" where
  "bio_read hw 0 d offset len0 b = None"
| "bio_read hw (Suc n) d offset len0 b = do {
     dev \<leftarrow> bdev b d;
     case bio_range (b_size dev) offset len0 of
       Inl (Some err) \<Rightarrow> Some (Inl err)
     | Inl None \<Rightarrow> Some (Inr [])
     | Inr len \<Rightarrow>
         (case b_kind dev of
            Mem_bdev mem \<Rightarrow> mem_bdev_read mem (nat offset) len
          | Subdev parent first \<Rightarrow> bio_read hw n parent (subdev_offset dev first offset) len b
          | Armemu_bdev disk \<Rightarrow>
              bio_default_read (unat (b_block_size dev)) (\<lambda>block count. bio_read_block hw (Suc n) d block count b)
                (nat offset) len) }"

text \<open>A hook of a device that changes its medium.\<close>

definition store_medium :: "nat \<Rightarrow> bdev_t \<Rightarrow> bio_t \<Rightarrow> ((int + nat) \<times> bdev_kind) \<Rightarrow> (int + nat) \<times> bio_t" where
  "store_medium d dev b = (\<lambda>(r, kind). (r, upd_bdev d (dev\<lparr>b_kind := kind\<rparr>) b))"

fun bio_write_block :: "bdev_hw \<Rightarrow> nat \<Rightarrow> nat \<Rightarrow> u8 list \<Rightarrow> u32 \<Rightarrow> u32 \<Rightarrow> bio_t \<Rightarrow> ((int + nat) \<times> bio_t) option" where
  "bio_write_block hw 0 d buf block count0 b = None"
| "bio_write_block hw (Suc n) d buf block count0 b = do {
     dev \<leftarrow> bdev b d;
     case bio_block_range (b_block_count dev) block count0 of
       None \<Rightarrow> Some (Inr 0, b)
     | Some count \<Rightarrow>
         (case b_kind dev of
            Mem_bdev mem \<Rightarrow> do {
              (r, mem') \<leftarrow> mem_bdev_write_block buf block count mem;
              Some (store_medium d dev b (r, Mem_bdev mem')) }
          | Subdev parent first \<Rightarrow> bio_write_block hw n parent buf (block + first) count b
          | Armemu_bdev disk \<Rightarrow> do {
              (r, disk') \<leftarrow> armemu_write_block hw (b_block_size dev) buf block count disk;
              Some (store_medium d dev b (r, Armemu_bdev disk')) }) }"

fun bio_write :: "bdev_hw \<Rightarrow> nat \<Rightarrow> nat \<Rightarrow> u8 list \<Rightarrow> int \<Rightarrow> bio_t \<Rightarrow> ((int + nat) \<times> bio_t) option" where
  "bio_write hw 0 d buf offset b = None"
| "bio_write hw (Suc n) d buf offset b = do {
     dev \<leftarrow> bdev b d;
     case bio_range (b_size dev) offset (length buf) of
       Inl (Some err) \<Rightarrow> Some (Inl err, b)
     | Inl None \<Rightarrow> Some (Inr 0, b)
     | Inr len \<Rightarrow>
         (case b_kind dev of
            Mem_bdev mem \<Rightarrow> do {
              (r, mem') \<leftarrow> mem_bdev_write (take len buf) (nat offset) mem;
              Some (store_medium d dev b (r, Mem_bdev mem')) }
          | Subdev parent first \<Rightarrow> bio_write hw n parent (take len buf) (subdev_offset dev first offset) b
          | Armemu_bdev disk \<Rightarrow>
              bio_default_write (unat (b_block_size dev))
                (\<lambda>block count b. bio_read_block hw (Suc n) d block count b)
                (\<lambda>bytes block count b. bio_write_block hw (Suc n) d bytes block count b)
                (take len buf) (nat offset) b) }"

fun bio_erase :: "bdev_hw \<Rightarrow> nat \<Rightarrow> nat \<Rightarrow> int \<Rightarrow> nat \<Rightarrow> bio_t \<Rightarrow> (int \<times> bio_t) option" where
  "bio_erase hw 0 d offset len0 b = None"
| "bio_erase hw (Suc n) d offset len0 b = do {
     dev \<leftarrow> bdev b d;
     case bio_range (b_size dev) offset len0 of
       Inl (Some err) \<Rightarrow> Some (err, b)
     | Inl None \<Rightarrow> Some (0, b)
     | Inr len \<Rightarrow>
         (case b_kind dev of
            Subdev parent first \<Rightarrow> bio_erase hw n parent (subdev_offset dev first offset) len b
          | _ \<Rightarrow> bio_default_erase (\<lambda>bytes pos b. bio_write hw (Suc n) d bytes pos b) offset len b) }"

text \<open>No device of the tree sets the \<open>ioctl\<close> hook, and \<open>bio_initialize_bdev\<close> does not clear it.\<close>

definition bio_ioctl :: "(int \<Rightarrow> int) option \<Rightarrow> int \<Rightarrow> int" where
  "bio_ioctl hook request = (case hook of None \<Rightarrow> ERR_NOT_SUPPORTED | Some f \<Rightarrow> f request)"

subsection \<open>The registry\<close>

definition bdev_inc_ref :: "nat \<Rightarrow> bio_t \<Rightarrow> bio_t option" where
  "bdev_inc_ref d b = do { dev \<leftarrow> bdev b d; Some (upd_bdev d (dev\<lparr>b_ref := b_ref dev + 1\<rparr>) b) }"

text \<open>
  \<open>bdev_dec_ref\<close>, with the close hook of a subdevice, which closes its parent; the last reference frees
  the device.
\<close>

fun bdev_dec_ref :: "nat \<Rightarrow> nat \<Rightarrow> bio_t \<Rightarrow> bio_t option" where
  "bdev_dec_ref 0 d b = None"
| "bdev_dec_ref (Suc n) d b = do {
     dev \<leftarrow> bdev b d;
     let oldval = b_ref dev;
     let b1 = upd_bdev d (dev\<lparr>b_ref := oldval - 1\<rparr>) b;
     if oldval = 1
     then do {
       b2 \<leftarrow> (case b_kind dev of Subdev parent first \<Rightarrow> bdev_dec_ref n parent b1 | _ \<Rightarrow> Some b1);
       Some (b2\<lparr>bdev := (bdev b2)(d := None)\<rparr>) }
     else Some b1 }"

definition bio_open :: "string \<Rightarrow> bio_t \<Rightarrow> (nat option \<times> bio_t) option" where
  "bio_open name b =
     (case find (\<lambda>d. map_option b_name (bdev b d) = Some name) (bdev_list b) of
        None \<Rightarrow> Some (None, b)
      | Some d \<Rightarrow> do { b' \<leftarrow> bdev_inc_ref d b; Some (Some d, b') })"

definition bio_close :: "nat \<Rightarrow> nat \<Rightarrow> bio_t \<Rightarrow> bio_t option" where
  "bio_close n d b = bdev_dec_ref n d b"

definition bio_initialize_bdev :: "string \<Rightarrow> u32 \<Rightarrow> u32 \<Rightarrow> bdev_kind \<Rightarrow> bdev_t" where
  "bio_initialize_bdev name block_size block_count kind =
     \<lparr>b_ref = 0, b_name = name, b_size = uint block_count * uint block_size, b_block_size = block_size,
      b_block_count = block_count, b_kind = kind\<rparr>"

definition bio_register_device :: "nat \<Rightarrow> bio_t \<Rightarrow> bio_t option" where
  "bio_register_device d b = do {
     b1 \<leftarrow> bdev_inc_ref d b;
     Some (b1\<lparr>bdev_list := d # bdev_list b1\<rparr>) }"

definition bio_unregister_device :: "nat \<Rightarrow> nat \<Rightarrow> bio_t \<Rightarrow> bio_t option" where
  "bio_unregister_device n d b = bdev_dec_ref n d (b\<lparr>bdev_list := remove1 d (bdev_list b)\<rparr>)"

text \<open>\<open>d\<close> is the memory \<open>malloc\<close> returned for the device.\<close>

definition create_membdev :: "nat \<Rightarrow> string \<Rightarrow> u8 list \<Rightarrow> bio_t \<Rightarrow> bio_t option" where
  "create_membdev d name mem b =
     (let dev = bio_initialize_bdev name 512 (of_nat (length mem div BLOCKSIZE)) (Mem_bdev mem)
      in bio_register_device d (upd_bdev d dev b))"

definition platform_init_blkdev :: "nat \<Rightarrow> bool \<Rightarrow> u8 list \<Rightarrow> bio_t \<Rightarrow> bio_t option" where
  "platform_init_blkdev d present disk b =
     (if \<not> present then Some b
      else if length disk = 0 then Some b
      else let dev = bio_initialize_bdev ''block0'' 512 (of_nat (length disk div 512)) (Armemu_bdev disk)
           in bio_register_device d (upd_bdev d dev b))"

definition bio_publish_subdevice :: "nat \<Rightarrow> string \<Rightarrow> string \<Rightarrow> u32 \<Rightarrow> u32 \<Rightarrow> bio_t \<Rightarrow> (int \<times> bio_t) option" where
  "bio_publish_subdevice d parent_dev subdev startblock len b = do {
     (p, b1) \<leftarrow> bio_open parent_dev b;
     case p of
       None \<Rightarrow> Some (- 1, b1)
     | Some parent \<Rightarrow> do {
         pdev \<leftarrow> bdev b1 parent;
         if startblock + len > b_block_count pdev then Some (- 1, b1)
         else do {
           let dev = bio_initialize_bdev subdev (b_block_size pdev) len (Subdev parent startblock);
           b2 \<leftarrow> bio_register_device d (upd_bdev d dev b1);
           Some (0, b2) } } }"

definition bio_init :: bio_t where
  "bio_init = \<lparr>bdev = (\<lambda>_. None), bdev_list = []\<rparr>"

subsection \<open>The default operations on well behaved block hooks\<close>

lemma slice_slice: "a + n \<le> m \<Longrightarrow> slice a n (slice off m xs) = slice (off + a) n xs"
  by (simp add: slice_def drop_take min_def add.commute)

lemma copy_out_Some: "off + n \<le> length xs \<Longrightarrow> copy_out off n xs = Some (slice off n xs)"
  by (simp add: copy_out_def)

lemma blit_slice:
  assumes "off + m \<le> length xs" and "a + length d \<le> m"
  shows "blit off (blit a d (slice off m xs)) xs = blit (off + a) d xs"
  by (rule nth_equalityI) (use assms in \<open>auto simp: nth_blit nth_slice\<close>)

text \<open>
  The contract of block hooks: the device is an array of \<open>nblocks\<close> blocks, which the hooks read and
  write. \<open>keeps\<close> is what a write leaves alone.
\<close>

locale block_hooks =
  fixes bs nblocks :: nat and valid :: "'s \<Rightarrow> bool" and disk :: "'s \<Rightarrow> u8 list" and keeps :: "'s \<Rightarrow> 's \<Rightarrow> bool"
    and rb :: "'s read_hook" and wb :: "'s write_hook"
  assumes valid: "valid s \<Longrightarrow> 0 < bs \<and> bs < 2 ^ 32 \<and> nblocks < 2 ^ 32 \<and> nblocks * bs \<le> length (disk s)"
    and read_law: "valid s \<Longrightarrow> 0 < count \<Longrightarrow> unat block + unat count \<le> nblocks \<Longrightarrow> unat count * bs < 2 ^ 32 \<Longrightarrow>
      rb block count s = Some (Inr (slice (unat block * bs) (unat count * bs) (disk s)))"
    and write_law: "valid s \<Longrightarrow> 0 < count \<Longrightarrow> unat block + unat count \<le> nblocks \<Longrightarrow> unat count * bs < 2 ^ 32 \<Longrightarrow>
      length buf = unat count * bs \<Longrightarrow> \<exists>n s'. wb buf block count s = Some (Inr n, s') \<and> valid s' \<and> keeps s s' \<and>
        disk s' = blit (unat block * bs) buf (disk s)"
    and keeps_refl: "keeps s s" and keeps_trans: "keeps s s' \<Longrightarrow> keeps s' s'' \<Longrightarrow> keeps s s''"
begin

lemma block_of:
  assumes "valid s" and "offset < nblocks * bs"
  shows "unat (of_nat (offset div bs) :: u32) = offset div bs" and "offset div bs < nblocks"
    and "unat (of_nat (offset div bs) + 1 :: u32) = offset div bs + 1"
proof -
  show lt: "offset div bs < nblocks" using assms valid by (simp add: less_mult_imp_div_less)
  show u: "unat (of_nat (offset div bs) :: u32) = offset div bs"
    by (rule unat_of_nat_u32) (use lt valid [OF assms(1)] in simp)
  show "unat (of_nat (offset div bs) + 1 :: u32) = offset div bs + 1"
    using unat_add_of_nat_u32 [of "of_nat (offset div bs)" 1] u lt valid [OF assms(1)] by simp
qed

lemma read_first:
  assumes v: "valid s" and in_range: "offset + len \<le> nblocks * bs"
  obtains k block where "default_read_first bs (\<lambda>b c. rb b c s) offset len = Some (Inr (slice offset k (disk s), len - k, block))"
    and "k \<le> len" and "len - k = 0 \<or> offset + k = unat block * bs"
proof (cases "offset mod bs = 0")
  case True
  have "len = 0 \<or> offset = unat (of_nat (offset div bs) :: u32) * bs"
    using block_of(1) [OF v, of offset] in_range True by (cases "len = 0") (auto simp: minus_mod_eq_div_mult [symmetric])
  then show ?thesis using that [of 0] True by (simp add: default_read_first_def Let_def)
next
  case False
  have bs: "0 < bs" "bs < 2 ^ 32" and dl: "nblocks * bs \<le> length (disk s)" using valid [OF v] by simp_all
  have off: "offset < nblocks * bs" using False in_range by (cases "offset = nblocks * bs") auto
  note b = block_of [OF v off]
  let ?bo = "offset mod bs" and ?blk = "offset div bs"
  let ?k = "min (bs - ?bo) len"
  have pos: "?blk * bs + ?bo = offset" by simp
  have "rb (of_nat ?blk) 1 s = Some (Inr (slice (?blk * bs) bs (disk s)))"
    using read_law [OF v, of 1 "of_nat ?blk"] b bs by simp
  moreover have "copy_out ?bo ?k (slice (?blk * bs) bs (disk s)) = Some (slice offset ?k (disk s))"
  proof -
    have "?blk * bs + bs \<le> nblocks * bs" using b(2) by (metis Suc_leI add.commute mult_Suc mult_le_mono1)
    then have "length (slice (?blk * bs) bs (disk s)) = bs" using dl by simp
    moreover have le: "?bo + ?k \<le> bs" using mod_less_divisor [OF bs(1), of offset] by linarith
    ultimately show ?thesis using slice_slice [OF le, of "?blk * bs" "disk s"] unfolding pos by (simp only: copy_out_Some)
  qed
  ultimately have eq: "default_read_first bs (\<lambda>b c. rb b c s) offset len =
    Some (Inr (slice offset ?k (disk s), len - ?k, of_nat ?blk + 1))"
    using False by (simp add: default_read_first_def Let_def)
  have at: "len - ?k = 0 \<or> offset + ?k = unat (of_nat ?blk + 1 :: u32) * bs"
  proof (cases "len \<le> bs - ?bo")
    case False
    then have "offset + ?k = ?blk * bs + bs" using pos mod_less_divisor [OF bs(1), of offset] by linarith
    then show ?thesis using b(3) by simp
  qed simp
  show ?thesis by (rule that [OF eq _ at]) simp
qed

lemma read_middle:
  assumes v: "valid s" and in_range: "offset + len \<le> nblocks * bs" and small_len: "len < 2 ^ 32" and at: "len = 0 \<or> offset = unat block * bs"
  obtains k block' where "default_read_middle bs (\<lambda>b c. rb b c s) len block = Some (Inr (slice offset k (disk s), len - k, block'))"
    and "k \<le> len" and "len - k < bs" and "len - k = 0 \<or> offset + k = unat block' * bs"
proof (cases "bs \<le> len")
  case False
  then show ?thesis using that [of 0 block] at by (simp add: default_read_middle_def)
next
  case True
  have bs: "0 < bs" and small: "nblocks < 2 ^ 32" and dl: "nblocks * bs \<le> length (disk s)" using valid [OF v] by simp_all
  let ?c = "len div bs"
  have off: "offset = unat block * bs" using at True bs by auto
  have c: "?c * bs \<le> len" "len - ?c * bs < bs" "0 < ?c"
    using True bs by (simp_all add: div_greater_zero_iff modulo_nat_def [symmetric])
  have "(unat block + ?c) * bs \<le> nblocks * bs" using off in_range c(1) unfolding distrib_right by linarith
  then have cn: "unat block + ?c \<le> nblocks" using bs by simp
  have uc: "unat (of_nat ?c :: u32) = ?c" by (rule unat_of_nat_u32) (use cn small in simp)
  have ub: "unat (block + of_nat ?c) = unat block + ?c" by (rule unat_add_of_nat_u32) (use cn small in simp)
  have "0 < (of_nat ?c :: u32)" using c(3) uc by (metis word_gt_0 unat_0 less_numeral_extra(3))
  then have "rb block (of_nat ?c) s = Some (Inr (slice offset (?c * bs) (disk s)))"
    using read_law [OF v, of "of_nat ?c" block] cn uc off le_less_trans [OF c(1) small_len] by simp
  moreover have "length (slice offset (?c * bs) (disk s)) = ?c * bs" unfolding length_slice using dl in_range c(1) by linarith
  ultimately have eq: "default_read_middle bs (\<lambda>b c. rb b c s) len block =
    Some (Inr (slice offset (?c * bs) (disk s), len - ?c * bs, block + of_nat ?c))"
    using True by (simp add: default_read_middle_def copy_out_def slice_def Let_def)
  show ?thesis by (rule that [OF eq c(1,2)]) (simp add: off ub distrib_right)
qed

lemma read_last:
  assumes v: "valid s" and in_range: "offset + len \<le> nblocks * bs" and at: "len = 0 \<or> offset = unat block * bs" and "len < bs"
  shows "default_read_last (\<lambda>b c. rb b c s) len block = Some (Inr (slice offset len (disk s)))"
proof (cases "len = 0")
  case False
  have bs: "0 < bs" "bs < 2 ^ 32" and dl: "nblocks * bs \<le> length (disk s)" using valid [OF v] by simp_all
  have off: "offset = unat block * bs" using at False by simp
  have "unat block * bs < nblocks * bs" using off in_range False by linarith
  then have b: "unat block < nblocks" by simp
  then have "unat block * bs + bs \<le> nblocks * bs" by (metis Suc_leI add.commute mult_Suc mult_le_mono1)
  moreover have "rb block 1 s = Some (Inr (slice offset bs (disk s)))"
    using read_law [OF v, of 1 block] b off bs by simp
  ultimately show ?thesis
    using False dl off assms(4) slice_slice [of 0 len bs offset "disk s"]
    by (simp add: default_read_last_def copy_out_Some)
qed (simp add: default_read_last_def)

lemma default_read:
  assumes v: "valid s" and in_range: "offset + len \<le> nblocks * bs" and small_len: "len < 2 ^ 32"
  shows "bio_default_read bs (\<lambda>b c. rb b c s) offset len = Some (Inr (slice offset len (disk s)))"
proof -
  obtain k1 block1 where 1: "default_read_first bs (\<lambda>b c. rb b c s) offset len = Some (Inr (slice offset k1 (disk s), len - k1, block1))"
    "k1 \<le> len" "len - k1 = 0 \<or> offset + k1 = unat block1 * bs" by (rule read_first [OF v in_range])
  obtain k2 block2 where 2: "default_read_middle bs (\<lambda>b c. rb b c s) (len - k1) block1 =
      Some (Inr (slice (offset + k1) k2 (disk s), len - k1 - k2, block2))"
    "k2 \<le> len - k1" "len - k1 - k2 < bs" "len - k1 - k2 = 0 \<or> offset + k1 + k2 = unat block2 * bs"
    by (rule read_middle [OF v _ _ 1(3)]) (use 1(2) in_range small_len in auto)
  have 3: "default_read_last (\<lambda>b c. rb b c s) (len - k1 - k2) block2 =
      Some (Inr (slice (offset + k1 + k2) (len - k1 - k2) (disk s)))"
    by (rule read_last [OF v _ 2(4,3)]) (use 1(2) 2(2) in_range in linarith)
  have "slice offset k1 (disk s) @ slice (offset + k1) k2 (disk s) @ slice (offset + k1 + k2) (len - k1 - k2) (disk s) =
    slice offset len (disk s)"
    using 1(2) 2(2) by (simp add: slice_append flip: append_assoc)
  then show ?thesis using 1(1) 2(1) 3 by (simp add: bio_default_read_def)
qed

lemma write_first:
  assumes v: "valid s" and in_range: "offset + length buf \<le> nblocks * bs"
  obtains k block s' where "default_write_first bs rb wb buf offset s = Some (Inr (k, drop k buf, block), s')"
    and "k \<le> length buf" and "length buf - k = 0 \<or> offset + k = unat block * bs"
    and "valid s'" "keeps s s'" "disk s' = blit offset (take k buf) (disk s)"
proof (cases "offset mod bs = 0")
  case True
  have at: "length buf - 0 = 0 \<or> offset + 0 = unat (of_nat (offset div bs) :: u32) * bs"
  proof (cases "buf = []")
    case False
    then have "offset < nblocks * bs" using in_range by (cases buf) auto
    then show ?thesis using block_of(1) [OF v] True by (auto simp: minus_mod_eq_div_mult [symmetric])
  qed simp
  show ?thesis by (rule that [OF _ _ at]) (use True v keeps_refl in \<open>simp_all add: default_write_first_def Let_def\<close>)
next
  case False
  have bs: "0 < bs" "bs < 2 ^ 32" and dl: "nblocks * bs \<le> length (disk s)" using valid [OF v] by simp_all
  have off: "offset < nblocks * bs" using False in_range by (cases "offset = nblocks * bs") auto
  note b = block_of [OF v off]
  let ?bo = "offset mod bs" and ?blk = "offset div bs"
  let ?k = "min (bs - ?bo) (length buf)"
  let ?t = "slice (?blk * bs) bs (disk s)"
  have pos: "?blk * bs + ?bo = offset" by simp
  have "?blk * bs + bs \<le> nblocks * bs" using b(2) by (metis Suc_leI add.commute mult_Suc mult_le_mono1)
  then have room: "?blk * bs + bs \<le> length (disk s)" using dl by linarith
  then have tl: "length ?t = bs" by simp
  have le: "?bo + length (take ?k buf) \<le> bs" using mod_less_divisor [OF bs(1), of offset] by simp
  have rd: "rb (of_nat ?blk) 1 s = Some (Inr ?t)" using read_law [OF v, of 1 "of_nat ?blk"] b bs by simp
  have mc: "memcpy_into ?bo (take ?k buf) ?t = Some (blit ?bo (take ?k buf) ?t)"
    using le by (simp only: memcpy_into_Some tl)
  have "length (blit ?bo (take ?k buf) ?t) = unat (1 :: u32) * bs" using le tl by (simp only: length_blit) simp
  then obtain n s' where w: "wb (blit ?bo (take ?k buf) ?t) (of_nat ?blk) 1 s = Some (Inr n, s')" "valid s'" "keeps s s'"
    "disk s' = blit (?blk * bs) (blit ?bo (take ?k buf) ?t) (disk s)"
    using write_law [OF v, of 1 "of_nat ?blk" "blit ?bo (take ?k buf) ?t"] b bs by auto
  have d: "disk s' = blit offset (take ?k buf) (disk s)"
    unfolding w(4) using blit_slice [OF room le] by (simp only: pos)
  have eq: "default_write_first bs rb wb buf offset s = Some (Inr (?k, drop ?k buf, of_nat ?blk + 1), s')"
    using False rd mc w(1) by (simp add: default_write_first_def Let_def)
  have at: "length buf - ?k = 0 \<or> offset + ?k = unat (of_nat ?blk + 1 :: u32) * bs"
  proof (cases "length buf \<le> bs - ?bo")
    case False
    then have "offset + ?k = ?blk * bs + bs" using pos mod_less_divisor [OF bs(1), of offset] by linarith
    then show ?thesis using b(3) by simp
  qed simp
  show ?thesis by (rule that [OF eq _ at w(2,3) d]) simp
qed

lemma write_middle:
  assumes v: "valid s" and in_range: "offset + length buf \<le> nblocks * bs" and small_len: "length buf < 2 ^ 32" and at: "length buf = 0 \<or> offset = unat block * bs"
  obtains k block' s' where "default_write_middle bs wb buf block s = Some (Inr (k, drop k buf, block'), s')"
    and "k \<le> length buf" and "length buf - k < bs" and "length buf - k = 0 \<or> offset + k = unat block' * bs"
    and "valid s'" "keeps s s'" "disk s' = blit offset (take k buf) (disk s)"
proof (cases "bs \<le> length buf")
  case False
  have at': "length buf - 0 = 0 \<or> offset + 0 = unat block * bs" using at by simp
  show ?thesis by (rule that [OF _ _ _ at']) (use False v keeps_refl in \<open>simp_all add: default_write_middle_def\<close>)
next
  case True
  have bs: "0 < bs" and small: "nblocks < 2 ^ 32" using valid [OF v] by simp_all
  let ?c = "length buf div bs"
  have off: "offset = unat block * bs" using at True bs by auto
  have c: "?c * bs \<le> length buf" "length buf - ?c * bs < bs" "0 < ?c"
    using True bs by (simp_all add: div_greater_zero_iff modulo_nat_def [symmetric])
  have "(unat block + ?c) * bs \<le> nblocks * bs" using off in_range c(1) unfolding distrib_right by linarith
  then have cn: "unat block + ?c \<le> nblocks" using bs by simp
  have uc: "unat (of_nat ?c :: u32) = ?c" by (rule unat_of_nat_u32) (use cn small in simp)
  have ub: "unat (block + of_nat ?c) = unat block + ?c" by (rule unat_add_of_nat_u32) (use cn small in simp)
  have "0 < (of_nat ?c :: u32)" using c(3) uc by (metis word_gt_0 unat_0 less_numeral_extra(3))
  moreover have "length (take (?c * bs) buf) = ?c * bs" using c(1) by simp
  ultimately obtain n s' where w: "wb (take (?c * bs) buf) block (of_nat ?c) s = Some (Inr n, s')" "valid s'" "keeps s s'"
    "disk s' = blit offset (take (?c * bs) buf) (disk s)"
    using write_law [OF v, of "of_nat ?c" block "take (?c * bs) buf"] cn uc off le_less_trans [OF c(1) small_len] by auto
  have eq: "default_write_middle bs wb buf block s = Some (Inr (?c * bs, drop (?c * bs) buf, block + of_nat ?c), s')"
    using True w(1) by (simp add: default_write_middle_def Let_def)
  show ?thesis by (rule that [OF eq c(1,2) _ w(2-4)]) (simp add: off ub distrib_right)
qed

lemma write_last:
  assumes v: "valid s" and in_range: "offset + length buf \<le> nblocks * bs" and at: "length buf = 0 \<or> offset = unat block * bs"
    and "length buf < bs"
  obtains s' where "default_write_last rb wb buf block s = Some (Inr (length buf), s')"
    and "valid s'" "keeps s s'" "disk s' = blit offset buf (disk s)"
proof (cases "length buf = 0")
  case True
  show ?thesis by (rule that [of s]) (use True v keeps_refl in \<open>simp_all add: default_write_last_def\<close>)
next
  case False
  have bs: "0 < bs" "bs < 2 ^ 32" and dl: "nblocks * bs \<le> length (disk s)" using valid [OF v] by simp_all
  have off: "offset = unat block * bs" using at False by simp
  have "unat block * bs < nblocks * bs" using off in_range False by linarith
  then have b: "unat block < nblocks" by simp
  then have "unat block * bs + bs \<le> nblocks * bs" by (metis Suc_leI add.commute mult_Suc mult_le_mono1)
  then have room: "offset + bs \<le> length (disk s)" using dl off by linarith
  let ?t = "slice offset bs (disk s)"
  have tl: "length ?t = bs" using room by simp
  have rd: "rb block 1 s = Some (Inr ?t)" using read_law [OF v, of 1 block] b off bs by simp
  have le: "0 + length buf \<le> bs" using assms(4) by simp
  have mc: "memcpy_into 0 buf ?t = Some (blit 0 buf ?t)" using le by (simp only: memcpy_into_Some tl)
  have "length (blit 0 buf ?t) = unat (1 :: u32) * bs" using le tl by (simp only: length_blit) simp
  then obtain n s' where w: "wb (blit 0 buf ?t) block 1 s = Some (Inr n, s')" "valid s'" "keeps s s'"
    "disk s' = blit offset (blit 0 buf ?t) (disk s)"
    using write_law [OF v, of 1 block "blit 0 buf ?t"] b off bs by auto
  have d: "disk s' = blit offset buf (disk s)" unfolding w(4) using blit_slice [OF room le] by simp
  show ?thesis by (rule that [OF _ w(2,3) d]) (use False rd mc w(1) in \<open>simp add: default_write_last_def\<close>)
qed

lemma default_write:
  assumes v: "valid s" and in_range: "offset + length buf \<le> nblocks * bs" and small_len: "length buf < 2 ^ 32"
  shows "\<exists>s'. bio_default_write bs rb wb buf offset s = Some (Inr (length buf), s') \<and> valid s' \<and> keeps s s' \<and>
    disk s' = blit offset buf (disk s)"
proof -
  obtain k1 block1 s1 where 1: "default_write_first bs rb wb buf offset s = Some (Inr (k1, drop k1 buf, block1), s1)"
    "k1 \<le> length buf" "length buf - k1 = 0 \<or> offset + k1 = unat block1 * bs"
    "valid s1" "keeps s s1" "disk s1 = blit offset (take k1 buf) (disk s)" by (rule write_first [OF v in_range])
  have r1: "offset + k1 + length (drop k1 buf) \<le> nblocks * bs" using in_range 1(2) by simp
  obtain k2 block2 s2 where 2: "default_write_middle bs wb (drop k1 buf) block1 s1 = Some (Inr (k2, drop k2 (drop k1 buf), block2), s2)"
    "k2 \<le> length (drop k1 buf)" "length (drop k1 buf) - k2 < bs"
    "length (drop k1 buf) - k2 = 0 \<or> offset + k1 + k2 = unat block2 * bs"
    "valid s2" "keeps s1 s2" "disk s2 = blit (offset + k1) (take k2 (drop k1 buf)) (disk s1)"
    by (rule write_middle [OF 1(4) r1]) (use 1(3) small_len in auto)
  have r2: "offset + k1 + k2 + length (drop k2 (drop k1 buf)) \<le> nblocks * bs" using r1 2(2) by simp
  obtain s3 where 3: "default_write_last rb wb (drop k2 (drop k1 buf)) block2 s2 = Some (Inr (length (drop k2 (drop k1 buf))), s3)"
    "valid s3" "keeps s2 s3" "disk s3 = blit (offset + k1 + k2) (drop k2 (drop k1 buf)) (disk s2)"
    by (rule write_last [OF 2(5) r2]) (use 2(3,4) in auto)
  have dl: "offset + length buf \<le> length (disk s)" using in_range valid [OF v] by linarith
  have l1: "length (take k1 buf) = k1" and l2: "length (take k2 (drop k1 buf)) = k2" using 1(2) 2(2) by simp_all
  have "disk s2 = blit offset (take k1 buf @ take k2 (drop k1 buf)) (disk s)"
    unfolding 2(7) 1(6) using blit_split [of offset "take k1 buf" "take k2 (drop k1 buf)" "disk s"] dl 1(2) 2(2) l1 l2 by simp
  then have "disk s3 = blit offset ((take k1 buf @ take k2 (drop k1 buf)) @ drop k2 (drop k1 buf)) (disk s)"
    unfolding 3(4) using blit_split [of offset "take k1 buf @ take k2 (drop k1 buf)" "drop k2 (drop k1 buf)" "disk s"]
      dl 1(2) 2(2) l1 l2 by (simp add: add.assoc)
  moreover have "(take k1 buf @ take k2 (drop k1 buf)) @ drop k2 (drop k1 buf) = buf"
    by (metis append.assoc append_take_drop_id)
  ultimately have "disk s3 = blit offset buf (disk s)" by simp
  moreover have "k1 + k2 + length (drop k2 (drop k1 buf)) = length buf" using 1(2) 2(2) by simp
  ultimately show ?thesis
    using 1(1) 2(1) 3(1,2) keeps_trans [OF keeps_trans [OF 1(5) 2(6)] 3(3)]
    by (simp add: bio_default_write_def)
qed

end

end
