(* ===== verification/LK_Bio_View.thy ===== *)
theory LK_Bio_View
  imports LK_Bio
begin

text \<open>
  What a block device promises: it is a window on the bytes of a medium, whatever the chain of
  subdevices above it and whichever hooks do the transfer. Reads and writes of a well formed device
  are described exactly by their effect on that medium, and the default operations on top of block
  hooks agree with the direct ones.
\<close>

subsection \<open>Windows on a medium\<close>

definition medium :: "bio_t \<Rightarrow> nat \<Rightarrow> u8 list" where
  "medium b r = (case bdev b r of
     Some dev \<Rightarrow> (case b_kind dev of Mem_bdev mem \<Rightarrow> mem | Armemu_bdev disk \<Rightarrow> disk | Subdev _ _ \<Rightarrow> [])
   | None \<Rightarrow> [])"

definition set_medium :: "nat \<Rightarrow> u8 list \<Rightarrow> bio_t \<Rightarrow> bio_t" where
  "set_medium r m b = (case bdev b r of
     Some dev \<Rightarrow> upd_bdev r (dev\<lparr>b_kind := (case b_kind dev of
         Mem_bdev _ \<Rightarrow> Mem_bdev m | Armemu_bdev _ \<Rightarrow> Armemu_bdev m | Subdev p first \<Rightarrow> Subdev p first)\<rparr>) b
   | None \<Rightarrow> b)"

text \<open>The device at the end of the chain of parents, and where the window starts in it.\<close>

fun window :: "nat \<Rightarrow> bio_t \<Rightarrow> nat \<Rightarrow> nat \<times> nat" where
  "window 0 b d = (d, 0)"
| "window (Suc n) b d = (case bdev b d of
     Some dev \<Rightarrow> (case b_kind dev of
         Subdev p first \<Rightarrow> (let (r, s) = window n b p in (r, s + unat first * unat (b_block_size dev)))
       | _ \<Rightarrow> (d, 0))
   | None \<Rightarrow> (d, 0))"

text \<open>
  A well formed device: its size is its block count times its block size, its medium is large
  enough, a subdevice lies inside its parent, has the parent's block size and starts below 4 GiB.
\<close>

fun dev_ok :: "nat \<Rightarrow> bio_t \<Rightarrow> nat \<Rightarrow> bool" where
  "dev_ok 0 b d \<longleftrightarrow> False"
| "dev_ok (Suc n) b d \<longleftrightarrow> (case bdev b d of
     None \<Rightarrow> False
   | Some dev \<Rightarrow> 0 < b_block_size dev \<and> b_size dev = uint (b_block_count dev) * uint (b_block_size dev) \<and>
       (case b_kind dev of
          Mem_bdev mem \<Rightarrow> b_size dev \<le> int (length mem)
        | Armemu_bdev disk \<Rightarrow> b_size dev \<le> int (length disk)
        | Subdev p first \<Rightarrow> dev_ok n b p \<and>
            (case bdev b p of
               None \<Rightarrow> False
             | Some pdev \<Rightarrow> b_block_size pdev = b_block_size dev \<and>
                 unat first + unat (b_block_count dev) \<le> unat (b_block_count pdev) \<and>
                 unat first * unat (b_block_size dev) < 2 ^ 32)))"

abbreviation dev_size :: "bio_t \<Rightarrow> nat \<Rightarrow> nat" where
  "dev_size b d \<equiv> (case bdev b d of Some dev \<Rightarrow> nat (b_size dev) | None \<Rightarrow> 0)"

text \<open>What a device shows.\<close>

definition dev_bytes :: "nat \<Rightarrow> bio_t \<Rightarrow> nat \<Rightarrow> u8 list" where
  "dev_bytes n b d = (let (r, s) = window n b d in slice s (dev_size b d) (medium b r))"

text \<open>The documented behaviour of the emulator's hardware: it transfers the bytes of its medium.\<close>

definition hw_ok :: "bdev_hw \<Rightarrow> bool" where
  "hw_ok hw \<longleftrightarrow>
     (\<forall>off len disk. off + len \<le> length disk \<longrightarrow> hw_read hw off len disk = Some (slice off len disk)) \<and>
     (\<forall>off bytes disk. off + length bytes \<le> length disk \<longrightarrow> hw_write hw off bytes disk = Some (blit off bytes disk))"

subsection \<open>The hooks meet the contract\<close>

lemma unat_mult_u32: "unat a * unat b < 2 ^ 32 \<Longrightarrow> unat (a * b) = unat a * unat (b::u32)"
  using unat_mult_lem [of a b] by simp

lemma block_range_inside:
  assumes "0 < count" and "unat block + unat count \<le> unat bc"
  shows "bio_block_range bc block count = Some count"
proof -
  have "unat (block + count) = unat block + unat count"
    by (rule unat_add_u32) (use assms(2) unat_lt_u32 [of bc] in \<open>simp del: unat_lt_u32\<close>)
  then show ?thesis using assms by (auto simp: bio_block_range_def word_less_nat_alt word_gt_0)
qed

interpretation mem_hooks: block_hooks 512 n "\<lambda>mem. length mem = n * 512 \<and> n * 512 < 2 ^ 32" "\<lambda>mem. mem" "\<lambda>_ _. True"
  "\<lambda>block count mem. mem_bdev_read_block mem block count" mem_bdev_write_block for n
proof unfold_locales
  fix mem :: "u8 list" and block count :: u32 and buf :: "u8 list"
  assume v: "length mem = n * 512 \<and> n * 512 < 2 ^ 32" and r: "unat block + unat count \<le> n"
    and c: "unat count * 512 < 2 ^ 32"
  have b: "unat (block * 512) = unat block * 512" and cc: "unat (count * 512) = unat count * 512"
    using unat_mult_u32 [of block 512] unat_mult_u32 [of count 512] r v c by simp_all
  have "(unat block + unat count) * 512 \<le> n * 512" using r by simp
  then have le: "unat block * 512 + unat count * 512 \<le> length mem" using v by simp
  then show "mem_bdev_read_block mem block count = Some (Inr (slice (unat block * 512) (unat count * 512) mem))"
    by (simp add: mem_bdev_read_block_def b cc copy_out_def)
  assume "length buf = unat count * 512"
  then show "\<exists>k mem'. mem_bdev_write_block buf block count mem = Some (Inr k, mem') \<and>
    (length mem' = n * 512 \<and> n * 512 < 2 ^ 32) \<and> True \<and> mem' = blit (unat block * 512) buf mem"
    using le v by (simp add: mem_bdev_write_block_def b cc copy_out_def slice_def)
qed simp_all

lemma set_medium_sel [simp]: "bdev_list (set_medium r m b) = bdev_list b"
  by (simp add: set_medium_def upd_bdev_def split: option.split)

lemma set_medium_set [simp]: "set_medium r m' (set_medium r m b) = set_medium r m' b"
  by (auto simp: set_medium_def upd_bdev_def split: option.split bdev_kind.split)

text \<open>The devices after a write: only the medium of one of them differs.\<close>

lemma bdev_set_medium:
  "bdev (set_medium r m b) d = (case bdev b d of
     None \<Rightarrow> None
   | Some dev \<Rightarrow> Some (if d = r then dev\<lparr>b_kind := (case b_kind dev of
         Mem_bdev _ \<Rightarrow> Mem_bdev m | Armemu_bdev _ \<Rightarrow> Armemu_bdev m | Subdev p first \<Rightarrow> Subdev p first)\<rparr> else dev))"
  by (auto simp: set_medium_def upd_bdev_def split: option.split)

lemma window_set_medium [simp]: "window n (set_medium r m b) d = window n b d"
  by (induction n arbitrary: d) (auto simp: bdev_set_medium split: option.split bdev_kind.split)

lemma dev_size_set_medium [simp]: "dev_size (set_medium r m b) d = dev_size b d"
  by (auto simp: bdev_set_medium split: option.split)

lemma dev_ok_set_medium:
  assumes "length m = length (medium b r)"
  shows "dev_ok n (set_medium r m b) d = dev_ok n b d"
  using assms
  by (induction n arbitrary: d) (auto simp: bdev_set_medium medium_def split: option.split bdev_kind.split)

definition storage :: "bio_t \<Rightarrow> nat \<Rightarrow> bool" where
  "storage b r \<longleftrightarrow> (\<exists>dev. bdev b r = Some dev \<and> (\<forall>p first. b_kind dev \<noteq> Subdev p first))"

lemma medium_set_medium: "storage b r \<Longrightarrow> medium (set_medium r m b) q = (if q = r then m else medium b q)"
  by (auto simp: storage_def medium_def bdev_set_medium split: bdev_kind.split option.split)

lemma storage_set_medium [simp]: "storage (set_medium r m b) q = storage b q"
  by (auto simp: storage_def bdev_set_medium split: option.splits if_splits bdev_kind.splits)

lemma set_medium_same: "storage b r \<Longrightarrow> set_medium r (medium b r) b = b"
proof -
  assume "storage b r"
  then obtain dev where dev: "bdev b r = Some dev" "\<And>p first. b_kind dev \<noteq> Subdev p first" by (auto simp: storage_def)
  have kind: "dev\<lparr>b_kind := k\<rparr> = dev" if "b_kind dev = k" for k using that by (cases dev) simp
  have "b\<lparr>bdev := (bdev b)(r \<mapsto> dev)\<rparr> = b" using dev(1) by (cases b) (simp add: fun_upd_idem)
  then show ?thesis
    using dev by (cases "b_kind dev") (auto simp: set_medium_def medium_def upd_bdev_def kind)
qed

definition armemu_at :: "nat \<Rightarrow> nat \<Rightarrow> nat \<Rightarrow> bio_t \<Rightarrow> bool" where
  "armemu_at d bs nb b \<longleftrightarrow> (\<exists>dev disk. bdev b d = Some dev \<and> b_kind dev = Armemu_bdev disk \<and>
     unat (b_block_size dev) = bs \<and> unat (b_block_count dev) = nb \<and> 0 < bs \<and> nb * bs \<le> length disk)"

lemma armemu_hooks:
  assumes hw: "hw_ok hw"
  shows "block_hooks bs nb (armemu_at d bs nb) (\<lambda>b. medium b d) (\<lambda>b b'. b' = b \<or> (\<exists>m. b' = set_medium d m b))
    (\<lambda>block count b. bio_read_block hw (Suc n) d block count b)
    (\<lambda>bytes block count b. bio_write_block hw (Suc n) d bytes block count b)"
proof unfold_locales
  fix b assume "armemu_at d bs nb b"
  then obtain dev disk where dev: "bdev b d = Some dev" "b_kind dev = Armemu_bdev disk" "unat (b_block_size dev) = bs"
    "unat (b_block_count dev) = nb" "0 < bs" "nb * bs \<le> length disk" by (auto simp: armemu_at_def)
  have m: "medium b d = disk" using dev by (simp add: medium_def)
  show "0 < bs \<and> bs < 2 ^ 32 \<and> nb < 2 ^ 32 \<and> nb * bs \<le> length (medium b d)"
    using dev m unat_lt_u32 [of "b_block_size dev"] unat_lt_u32 [of "b_block_count dev"] by (simp del: unat_lt_u32)
  fix block count :: u32
  assume c: "0 < count" and r: "unat block + unat count \<le> nb" and small: "unat count * bs < 2 ^ 32"
  have cc: "unat (count * b_block_size dev) = unat count * bs" using unat_mult_u32 small dev(3) by simp
  have rng: "bio_block_range (b_block_count dev) block count = Some count"
    using block_range_inside [OF c] r dev(4) by simp
  have "(unat block + unat count) * bs \<le> nb * bs" using r by simp
  then have le: "unat block * bs + unat count * bs \<le> length disk" using dev(6) by (simp add: distrib_right)
  then have "hw_read hw (unat block * bs) (unat count * bs) disk = Some (slice (unat block * bs) (unat count * bs) disk)"
    using hw by (simp add: hw_ok_def)
  then show "bio_read_block hw (Suc n) d block count b = Some (Inr (slice (unat block * bs) (unat count * bs) (medium b d)))"
    using dev rng m cc by (simp add: armemu_read_block_def)
  fix buf :: "u8 list" assume buf: "length buf = unat count * bs"
  have w: "hw_write hw (unat block * bs) buf disk = Some (blit (unat block * bs) buf disk)"
    using hw le buf by (simp add: hw_ok_def)
  let ?m = "blit (unat block * bs) buf disk"
  have "copy_out 0 (unat count * bs) buf = Some buf" using buf by (simp add: copy_out_def slice_def)
  then have eq: "bio_write_block hw (Suc n) d buf block count b = Some (Inr (unat count * bs), set_medium d ?m b)"
    using dev rng cc w by (simp add: armemu_write_block_def store_medium_def set_medium_def)
  moreover have "armemu_at d bs nb (set_medium d ?m b)" using dev le buf by (simp add: armemu_at_def bdev_set_medium)
  moreover have "medium (set_medium d ?m b) d = blit (unat block * bs) buf (medium b d)"
    using dev m by (simp add: medium_def bdev_set_medium)
  ultimately show "\<exists>k b'. bio_write_block hw (Suc n) d buf block count b = Some (Inr k, b') \<and> armemu_at d bs nb b' \<and>
    (b' = b \<or> (\<exists>m. b' = set_medium d m b)) \<and> medium b' d = blit (unat block * bs) buf (medium b d)" by blast
qed auto

text \<open>Reference counts do not matter for a window.\<close>

lemma window_ref:
  assumes "dev_ok n b d" and "\<And>x xd. bdev b x = Some xd \<Longrightarrow> \<exists>i. bdev b' x = Some (xd\<lparr>b_ref := i\<rparr>)"
  shows "window n b' d = window n b d \<and> dev_ok n b' d"
  using assms(1)
proof (induction n arbitrary: d)
  case (Suc n)
  then obtain dev where dev: "bdev b d = Some dev" by (auto split: option.splits)
  obtain i where i: "bdev b' d = Some (dev\<lparr>b_ref := i\<rparr>)" using assms(2) [OF dev] by blast
  show ?case
  proof (cases "b_kind dev")
    case (Subdev p first)
    then obtain pdev where p: "dev_ok n b p" "bdev b p = Some pdev" using Suc.prems dev by (auto split: option.splits)
    obtain j where j: "bdev b' p = Some (pdev\<lparr>b_ref := j\<rparr>)" using assms(2) [OF p(2)] by blast
    show ?thesis using Suc.IH [OF p(1)] Suc.prems dev i j p Subdev by simp
  qed (use Suc.prems dev i in simp_all)
qed simp

subsection \<open>Reading a window\<close>

lemma window_fits:
  assumes "dev_ok n b d"
  shows "storage b (fst (window n b d))" and "snd (window n b d) + dev_size b d \<le> length (medium b (fst (window n b d)))"
proof -
  have "storage b (fst (window n b d)) \<and> snd (window n b d) + dev_size b d \<le> length (medium b (fst (window n b d)))"
    using assms
  proof (induction n arbitrary: d)
    case (Suc n)
    then obtain dev where dev: "bdev b d = Some dev" "0 < b_block_size dev"
      "b_size dev = uint (b_block_count dev) * uint (b_block_size dev)" by (auto split: option.splits)
    show ?case
    proof (cases "b_kind dev")
      case (Subdev p first)
      with Suc.prems dev obtain pdev where p: "dev_ok n b p" "bdev b p = Some pdev" "b_block_size pdev = b_block_size dev"
        "unat first + unat (b_block_count dev) \<le> unat (b_block_count pdev)" by (auto split: option.splits)
      obtain r s where w: "window n b p = (r, s)" by (cases "window n b p")
      have ps: "b_size pdev = uint (b_block_count pdev) * uint (b_block_size pdev)" using p(1,2) by (cases n) auto
      have "nat (b_size dev) = unat (b_block_count dev) * unat (b_block_size dev)"
        "nat (b_size pdev) = unat (b_block_count pdev) * unat (b_block_size dev)"
        using dev(3) ps p(3) by (simp_all add: nat_mult_distrib)
      moreover have "(unat first + unat (b_block_count dev)) * unat (b_block_size dev) \<le> unat (b_block_count pdev) * unat (b_block_size dev)"
        using p(4) by (rule mult_le_mono1)
      ultimately have "unat first * unat (b_block_size dev) + nat (b_size dev) \<le> nat (b_size pdev)"
        by (simp add: distrib_right)
      then show ?thesis using Suc.IH [OF p(1)] w dev p(2) Subdev by simp
    qed (use Suc.prems dev in \<open>auto simp: storage_def medium_def\<close>)
  qed simp
  then show "storage b (fst (window n b d))" "snd (window n b d) + dev_size b d \<le> length (medium b (fst (window n b d)))" by blast+
qed

lemma length_dev_bytes: "dev_ok n b d \<Longrightarrow> length (dev_bytes n b d) = dev_size b d"
  using window_fits(2) [of n b d] by (simp add: dev_bytes_def split_beta)

text \<open>A subdevice shows a part of its parent.\<close>

lemma dev_bytes_sub:
  assumes ok: "dev_ok (Suc n) b d" and dev: "bdev b d = Some dev" "b_kind dev = Subdev p first"
  shows "dev_ok n b p" and "unat first * unat (b_block_size dev) + nat (b_size dev) \<le> dev_size b p"
    and "dev_bytes (Suc n) b d = slice (unat first * unat (b_block_size dev)) (nat (b_size dev)) (dev_bytes n b p)"
    and "uint (first * b_block_size dev) = int (unat first * unat (b_block_size dev))"
proof -
  obtain pdev where p: "dev_ok n b p" "bdev b p = Some pdev" "b_block_size pdev = b_block_size dev"
    "unat first + unat (b_block_count dev) \<le> unat (b_block_count pdev)" "unat first * unat (b_block_size dev) < 2 ^ 32"
    "b_size dev = uint (b_block_count dev) * uint (b_block_size dev)" using ok dev by (auto split: option.splits)
  show "dev_ok n b p" by (rule p(1))
  have ps: "b_size pdev = uint (b_block_count pdev) * uint (b_block_size pdev)" using p(1,2) by (cases n) auto
  have sz: "nat (b_size dev) = unat (b_block_count dev) * unat (b_block_size dev)"
    "nat (b_size pdev) = unat (b_block_count pdev) * unat (b_block_size dev)"
    using p(3,6) ps by (simp_all add: nat_mult_distrib)
  have "(unat first + unat (b_block_count dev)) * unat (b_block_size dev) \<le> unat (b_block_count pdev) * unat (b_block_size dev)"
    using p(4) by (rule mult_le_mono1)
  then show fit: "unat first * unat (b_block_size dev) + nat (b_size dev) \<le> dev_size b p"
    using p(2) sz by (simp add: distrib_right)
  obtain r s where w: "window n b p = (r, s)" by (cases "window n b p")
  show "dev_bytes (Suc n) b d = slice (unat first * unat (b_block_size dev)) (nat (b_size dev)) (dev_bytes n b p)"
    using w dev slice_slice [OF fit, of s "medium b r"] by (simp add: dev_bytes_def add.assoc)
  show "uint (first * b_block_size dev) = int (unat first * unat (b_block_size dev))"
    using unat_mult_u32 [OF p(5)] by (metis uint_nat)
qed

lemma bio_range_slice:
  assumes "0 \<le> offset" and "0 \<le> sz" and "length xs = nat sz"
  shows "(case bio_range sz offset len of Inl (Some e) \<Rightarrow> False | Inl None \<Rightarrow> slice (nat offset) len xs = []
    | Inr len' \<Rightarrow> 0 < len' \<and> len' \<le> len \<and> nat offset + len' \<le> nat sz \<and> slice (nat offset) len xs = slice (nat offset) len' xs)"
proof -
  have "nat offset + nat (sz - offset) = nat sz" if "offset < sz" using that assms by simp
  moreover have "slice (nat offset) len xs = slice (nat offset) (nat (sz - offset)) xs" if "sz < offset + int len" "offset < sz"
    using that assms by (simp add: slice_def)
  ultimately show ?thesis using assms by (auto simp: bio_range_def slice_def)
qed

lemma bio_read_window:
  assumes hw: "hw_ok hw" and "dev_ok n b d" and "0 \<le> offset" and "len < 2 ^ 32"
  shows "bio_read hw n d offset len b = Some (Inr (slice (nat offset) len (dev_bytes n b d)))"
  using assms(2-4)
proof (induction n arbitrary: d offset len)
  case (Suc n)
  then obtain dev where dev: "bdev b d = Some dev" "0 < b_block_size dev"
    "b_size dev = uint (b_block_count dev) * uint (b_block_size dev)" by (auto split: option.splits)
  let ?xs = "dev_bytes (Suc n) b d"
  have sz: "0 \<le> b_size dev" by (simp add: dev(3))
  have len: "length ?xs = nat (b_size dev)" using length_dev_bytes [OF Suc.prems(1)] dev(1) by simp
  note rng = bio_range_slice [OF Suc.prems(2) sz len, of len]
  show ?case
  proof (cases "bio_range (b_size dev) offset len")
    case (Inl r)
    then show ?thesis using rng dev(1) by (cases r) auto
  next
    case (Inr len')
    then have l: "0 < len'" "len' \<le> len" "nat offset + len' \<le> nat (b_size dev)" "slice (nat offset) len ?xs = slice (nat offset) len' ?xs"
      using rng by simp_all
    show ?thesis
    proof (cases "b_kind dev")
      case (Mem_bdev mem)
      then have "?xs = take (nat (b_size dev)) mem" "nat (b_size dev) \<le> length mem"
        using Suc.prems(1) dev by (simp_all add: dev_bytes_def medium_def slice_def)
      then show ?thesis using Mem_bdev Inr dev(1) l by (simp add: mem_bdev_read_def copy_out_def slice_def drop_take)
    next
      case (Subdev p first)
      note sub = dev_bytes_sub [OF Suc.prems(1) dev(1) Subdev]
      let ?f = "unat first * unat (b_block_size dev)"
      have off: "subdev_offset dev first offset = int (nat offset + ?f)"
        using sub(4) Suc.prems(2) by (simp add: subdev_offset_def)
      have "bio_read hw n p (subdev_offset dev first offset) len' b = Some (Inr (slice (nat offset + ?f) len' (dev_bytes n b p)))"
        using Suc.IH [OF sub(1), of "int (nat offset + ?f)" len'] l(2) Suc.prems(3)
        unfolding off nat_int by (simp del: of_nat_add of_nat_mult int_nat_eq)
      then show ?thesis
        using Inr dev(1) Subdev l slice_slice [OF l(3), of ?f "dev_bytes n b p"] by (simp add: sub(3) add.commute)
    next
      case (Armemu_bdev disk)
      have fit: "nat (b_size dev) \<le> length disk" using Suc.prems(1) dev Armemu_bdev by simp
      have xs: "?xs = take (nat (b_size dev)) disk" using dev Armemu_bdev by (simp add: dev_bytes_def medium_def slice_def)
      have szn: "nat (b_size dev) = unat (b_block_count dev) * unat (b_block_size dev)" using dev(3) by (simp add: nat_mult_distrib)
      have bs: "0 < unat (b_block_size dev)" using dev(2) by (metis word_less_nat_alt unat_0)
      then have at: "armemu_at d (unat (b_block_size dev)) (unat (b_block_count dev)) b"
        using dev Armemu_bdev fit szn by (simp add: armemu_at_def)
      have "bio_default_read (unat (b_block_size dev)) (\<lambda>block count. bio_read_block hw (Suc n) d block count b) (nat offset) len' =
        Some (Inr (slice (nat offset) len' (medium b d)))"
        by (rule block_hooks.default_read [OF armemu_hooks [OF hw] at]) (use l szn Suc.prems(3) in auto)
      moreover have "medium b d = disk" using dev Armemu_bdev by (simp add: medium_def)
      ultimately show ?thesis
        using Inr dev(1) Armemu_bdev l xs fit by (simp add: slice_def drop_take del: bio_read_block.simps)
    qed
  qed
qed simp

subsection \<open>Writing a window\<close>

text \<open>The bytes of a write that reach the device: it is cut off at the end.\<close>

definition fitting :: "nat \<Rightarrow> int \<Rightarrow> 'a list \<Rightarrow> nat" where
  "fitting sz offset buf = min (length buf) (sz - nat offset)"

lemma bio_range_fitting:
  assumes "0 \<le> offset" and "0 \<le> sz"
  shows "bio_range sz offset (length buf) = (if fitting (nat sz) offset buf = 0 then Inl None else Inr (fitting (nat sz) offset buf))"
  using assms by (auto simp: bio_range_def fitting_def)

lemma bio_write_window:
  assumes hw: "hw_ok hw" and "dev_ok n b d" and "0 \<le> offset" and "length buf < 2 ^ 32" and "window n b d = (r, start)"
  shows "bio_write hw n d buf offset b =
    (let k = fitting (dev_size b d) offset buf in
     Some (Inr k, set_medium r (blit (start + nat offset) (take k buf) (medium b r)) b))"
  using assms(2-5)
proof (induction n arbitrary: d offset buf start)
  case (Suc n)
  then obtain dev where dev: "bdev b d = Some dev" "0 < b_block_size dev"
    "b_size dev = uint (b_block_count dev) * uint (b_block_size dev)" by (auto split: option.splits)
  have sz: "0 \<le> b_size dev" by (simp add: dev(3))
  let ?k = "fitting (nat (b_size dev)) offset buf"
  have r: "storage b r" using window_fits(1) [OF Suc.prems(1)] Suc.prems(4) by simp
  note rng = bio_range_fitting [OF Suc.prems(2) sz, of buf]
  show ?case
  proof (cases "?k = 0")
    case True
    then show ?thesis using rng dev(1) set_medium_same [OF r] by simp
  next
    case False
    then have fit: "nat offset + ?k \<le> nat (b_size dev)" "?k \<le> length buf" by (auto simp: fitting_def)
    then have tk: "length (take ?k buf) = ?k" by simp
    show ?thesis
    proof (cases "b_kind dev")
      case (Mem_bdev mem)
      then have "r = d" "start = 0" "nat (b_size dev) \<le> length mem" "medium b d = mem"
        using Suc.prems dev by (simp_all add: medium_def)
      then show ?thesis
        using Mem_bdev False rng dev(1) fit tk
        by (simp add: mem_bdev_write_def memcpy_into_Some store_medium_def set_medium_def Let_def)
    next
      case (Subdev p first)
      note sub = dev_bytes_sub [OF Suc.prems(1) dev(1) Subdev]
      let ?f = "unat first * unat (b_block_size dev)"
      obtain s where w: "window n b p = (r, s)" "start = s + ?f"
        using Suc.prems(4) dev(1) Subdev by (auto split: prod.splits)
      have off: "subdev_offset dev first offset = int (nat offset + ?f)"
        using sub(4) Suc.prems(2) by (simp add: subdev_offset_def)
      have k: "fitting (dev_size b p) (int (nat offset + ?f)) (take ?k buf) = ?k"
        unfolding fitting_def [of "dev_size b p"] nat_int tk using fit(1) sub(2) by linarith
      have "bio_write hw n p (take ?k buf) (int (nat offset + ?f)) b =
        Some (Inr ?k, set_medium r (blit (s + (nat offset + ?f)) (take ?k buf) (medium b r)) b)"
        using Suc.IH [OF sub(1) _ _ w(1), of "int (nat offset + ?f)" "take ?k buf"] Suc.prems(3) fit(2)
        unfolding k nat_int Let_def by (simp del: of_nat_add of_nat_mult int_nat_eq)
      then show ?thesis using Subdev False rng dev(1) w(2) by (simp add: off ac_simps Let_def del: of_nat_add of_nat_mult int_nat_eq)
    next
      case (Armemu_bdev disk)
      have szn: "nat (b_size dev) = unat (b_block_count dev) * unat (b_block_size dev)" using dev(3) by (simp add: nat_mult_distrib)
      have w: "r = d" "start = 0" and m: "medium b d = disk" using Suc.prems(4) dev Armemu_bdev by (simp_all add: medium_def)
      have bs: "0 < unat (b_block_size dev)" using dev(2) by (metis word_less_nat_alt unat_0)
      then have at: "armemu_at d (unat (b_block_size dev)) (unat (b_block_count dev)) b"
        using dev Armemu_bdev Suc.prems(1) szn by (simp add: armemu_at_def)
      obtain b' where b': "bio_default_write (unat (b_block_size dev)) (\<lambda>block count b. bio_read_block hw (Suc n) d block count b)
          (\<lambda>bytes block count b. bio_write_block hw (Suc n) d bytes block count b) (take ?k buf) (nat offset) b =
          Some (Inr (length (take ?k buf)), b')"
        "b' = b \<or> (\<exists>m. b' = set_medium d m b)" "medium b' d = blit (nat offset) (take ?k buf) (medium b d)"
        using block_hooks.default_write [OF armemu_hooks [OF hw, where n = n] at, of "nat offset" "take ?k buf"] fit tk szn Suc.prems(3) by auto
      have "b' = set_medium d (medium b' d) b"
        using b'(2) set_medium_same [of b d] medium_set_medium [of b d] r w by auto
      then have "b' = set_medium d (blit (nat offset) (take ?k buf) (medium b d)) b" using b'(3) by simp
      then show ?thesis using Armemu_bdev False rng dev(1) b'(1) tk w by (simp add: Let_def del: bio_read_block.simps bio_write_block.simps)
    qed
  qed
qed simp

subsection \<open>Erasing a window\<close>

lemma take_replicate_same: "k \<le> n \<Longrightarrow> take k (replicate n x) = replicate k x"
  by (simp add: min_def)

lemma blit_zeros:
  "blit (off + k) (replicate m 0) (blit off (replicate k 0) xs) = blit off (replicate (k + m) (0 :: u8)) xs"
  if "off + k + m \<le> length xs"
  by (rule nth_equalityI) (use that in \<open>auto simp: nth_blit\<close>)

lemma default_erase_window:
  assumes hw: "hw_ok hw" and "dev_ok (Suc n) b d" and "window (Suc n) b d = (d, 0)"
    and "0 \<le> pos" and "nat pos + remaining \<le> dev_size b d"
  shows "default_erase_loop (\<lambda>bytes pos b. bio_write hw (Suc n) d bytes pos b) len pos remaining b =
    Some (int len, set_medium d (blit (nat pos) (replicate remaining 0) (medium b d)) b)"
  using assms(2-5)
proof (induction remaining arbitrary: pos b rule: less_induct)
  case (less remaining)
  have st: "storage b d" "dev_size b d \<le> length (medium b d)" using window_fits [OF less.prems(1)] less.prems(2) by simp_all
  show ?case
  proof (cases "remaining = 0")
    case True
    then show ?thesis using set_medium_same [OF st(1)] by (simp add: default_erase_loop.simps)
  next
    case False
    let ?t = "min remaining 4096"
    let ?m = "blit (nat pos) (replicate ?t 0) (medium b d)"
    let ?b = "set_medium d ?m b"
    have k: "fitting (dev_size b d) pos (replicate ?t (0 :: u8)) = ?t" using less.prems(4) by (auto simp: fitting_def)
    have w: "bio_write hw (Suc n) d (replicate ?t 0) pos b = Some (Inr ?t, ?b)"
      using bio_write_window [OF hw less.prems(1,3) _ less.prems(2), of "replicate ?t 0"]
      unfolding k by (simp add: Let_def del: bio_write.simps)
    have lm: "length ?m = length (medium b d)" by (rule length_blit) (use less.prems(4) st(2) in simp)
    have pos': "nat (pos + int ?t) = nat pos + ?t" using less.prems(3) by (simp add: nat_add_distrib)
    have "default_erase_loop (\<lambda>bytes pos b. bio_write hw (Suc n) d bytes pos b) len (pos + int ?t) (remaining - ?t) ?b =
      Some (int len, set_medium d (blit (nat (pos + int ?t)) (replicate (remaining - ?t) 0) (medium ?b d)) ?b)"
    proof (rule less.IH)
      show "dev_ok (Suc n) ?b d" using less.prems(1) dev_ok_set_medium [OF lm] by blast
      show "window (Suc n) ?b d = (d, 0)" using less.prems(2) by (simp only: window_set_medium)
      show "nat (pos + int ?t) + (remaining - ?t) \<le> dev_size ?b d"
        unfolding pos' dev_size_set_medium using less.prems(4) by linarith
    qed (use False less.prems(3) in auto)
    also have "blit (nat (pos + int ?t)) (replicate (remaining - ?t) 0) (medium ?b d) = blit (nat pos) (replicate remaining 0) (medium b d)"
      unfolding pos' medium_set_medium [OF st(1)] if_True refl
      using blit_zeros [of "nat pos" ?t "remaining - ?t" "medium b d"] less.prems(4) st(2) by simp
    finally show ?thesis
      using False w by (subst default_erase_loop.simps) (simp add: Let_def del: bio_write.simps)
  qed
qed

lemma bio_erase_window:
  assumes hw: "hw_ok hw" and "dev_ok n b d" and "0 \<le> offset" and "window n b d = (r, start)"
  shows "bio_erase hw n d offset len b =
    (let k = min len (dev_size b d - nat offset) in
     Some (int k, set_medium r (blit (start + nat offset) (replicate k 0) (medium b r)) b))"
  using assms(2-4)
proof (induction n arbitrary: d offset len start)
  case (Suc n)
  then obtain dev where dev: "bdev b d = Some dev" "0 < b_block_size dev"
    "b_size dev = uint (b_block_count dev) * uint (b_block_size dev)" by (auto split: option.splits)
  have sz: "0 \<le> b_size dev" by (simp add: dev(3))
  let ?k = "fitting (nat (b_size dev)) offset (replicate len (0 :: u8))"
  have kk: "?k = min len (dev_size b d - nat offset)" by (simp add: fitting_def dev(1))
  have r: "storage b r" using window_fits(1) [OF Suc.prems(1)] Suc.prems(3) by simp
  note rng = bio_range_fitting [OF Suc.prems(2) sz, of "replicate len (0 :: u8)", unfolded length_replicate]
  have "bio_erase hw (Suc n) d offset len b =
    Some (int ?k, set_medium r (blit (start + nat offset) (replicate ?k 0) (medium b r)) b)"
  proof (cases "?k = 0")
    case True
    then show ?thesis using rng dev(1) set_medium_same [OF r] by simp
  next
    case False
    then have fit: "nat offset + ?k \<le> nat (b_size dev)" by (auto simp: fitting_def)
    show ?thesis
    proof (cases "\<exists>p first. b_kind dev = Subdev p first")
      case True
      then obtain p first where Subdev: "b_kind dev = Subdev p first" by blast
      note sub = dev_bytes_sub [OF Suc.prems(1) dev(1) Subdev]
      let ?f = "unat first * unat (b_block_size dev)"
      obtain s where w: "window n b p = (r, s)" "start = s + ?f"
        using Suc.prems(3) dev(1) Subdev by (auto split: prod.splits)
      have off: "subdev_offset dev first offset = int (nat offset + ?f)"
        using sub(4) Suc.prems(2) by (simp add: subdev_offset_def)
      have k: "min ?k (dev_size b p - (nat offset + ?f)) = ?k" using fit sub(2) by linarith
      have "bio_erase hw n p (int (nat offset + ?f)) ?k b =
        Some (int ?k, set_medium r (blit (s + (nat offset + ?f)) (replicate ?k 0) (medium b r)) b)"
        using Suc.IH [OF sub(1) _ w(1), of "int (nat offset + ?f)" ?k] unfolding nat_int k Let_def
        by (simp del: of_nat_add of_nat_mult int_nat_eq)
      then show ?thesis using Subdev False rng dev(1) w(2) by (simp add: off ac_simps Let_def del: of_nat_add of_nat_mult int_nat_eq)
    next
      case nosub: False
      then have w: "window (Suc n) b d = (d, 0)" using dev(1) by (auto split: bdev_kind.split)
      then have "r = d" "start = 0" using Suc.prems(3) by simp_all
      moreover have "bio_default_erase (\<lambda>bytes pos b. bio_write hw (Suc n) d bytes pos b) offset ?k b =
        Some (int ?k, set_medium d (blit (nat offset) (replicate ?k 0) (medium b d)) b)"
        unfolding bio_default_erase_def
        by (rule default_erase_window [OF hw Suc.prems(1) w Suc.prems(2)]) (use fit dev(1) in simp)
      ultimately show ?thesis using nosub False rng dev(1) by (auto split: bdev_kind.split simp del: bio_write.simps)
    qed
  qed
  then show ?case unfolding kk Let_def .
qed simp

subsection \<open>What a write leaves alone\<close>

text \<open>The part of its medium a device shows, and its being apart from a range of the same or another medium.\<close>

definition apart :: "nat \<times> nat \<Rightarrow> nat \<Rightarrow> nat \<times> nat \<Rightarrow> nat \<Rightarrow> bool" where
  "apart w len w' len' \<longleftrightarrow> fst w \<noteq> fst w' \<or> snd w + len \<le> snd w' \<or> snd w' + len' \<le> snd w"

lemma dev_bytes_set_medium:
  assumes "window n b d = (r, s)" and "storage b q"
  shows "dev_bytes n (set_medium q m b) d = slice s (dev_size b d) (if r = q then m else medium b r)"
  unfolding dev_bytes_def window_set_medium dev_size_set_medium assms(1) medium_set_medium [OF assms(2)] by simp

lemma dev_bytes_apart:
  assumes ok: "dev_ok n b d" "dev_ok m b e" and fit: "nat offset + length bytes \<le> dev_size b d"
    and w: "window n b d = (r, start)" and ap: "apart (r, start + nat offset) (length bytes) (window m b e) (dev_size b e)"
  shows "dev_bytes m (set_medium r (blit (start + nat offset) bytes (medium b r)) b) e = dev_bytes m b e"
proof -
  obtain q s where v: "window m b e = (q, s)" by (cases "window m b e")
  have r: "storage b r" "start + dev_size b d \<le> length (medium b r)" using window_fits [OF ok(1)] w by simp_all
  have le: "start + nat offset + length bytes \<le> length (medium b r)" using fit r(2) by linarith
  have "slice s (dev_size b e) (blit (start + nat offset) bytes (medium b r)) = slice s (dev_size b e) (medium b r)" if "q = r"
    by (rule slice_blit_other) (use ap v that le in \<open>auto simp: apart_def\<close>)
  then show ?thesis using dev_bytes_set_medium [OF v r(1)] v by (simp add: dev_bytes_def)
qed

subsection \<open>Properties\<close>

text \<open>The devices of the examples: a memory device with four blocks and a subdevice that shows two of them.\<close>

definition example_bio :: bio_t where
  "example_bio = the (do {
     b \<leftarrow> create_membdev 0 ''mem'' (replicate 2048 7) bio_init;
     (_, b) \<leftarrow> bio_publish_subdevice 1 ''mem'' ''part'' 1 2 b;
     bio_publish_subdevice 2 ''part'' ''inner'' 1 1 b \<bind> (\<lambda>(_, b). Some b) })"

definition example_hw :: bdev_hw where
  "example_hw = \<lparr>hw_read = (\<lambda>off len disk. copy_out off len disk), hw_write = (\<lambda>off bytes disk. memcpy_into off bytes disk)\<rparr>"

lemma example_hw_ok: "hw_ok example_hw"
  by (simp add: hw_ok_def example_hw_def copy_out_def)

lemmas bio_eval = create_membdev_def bio_init_def upd_bdev_def bio_initialize_bdev_def bio_register_device_def
  bdev_inc_ref_def bio_publish_subdevice_def bio_open_def

lemma example_bio_eq:
  "bdev example_bio = [0 \<mapsto> \<lparr>b_ref = 2, b_name = ''mem'', b_size = 2048, b_block_size = 512, b_block_count = 4, b_kind = Mem_bdev (replicate 2048 7)\<rparr>,
     1 \<mapsto> \<lparr>b_ref = 2, b_name = ''part'', b_size = 1024, b_block_size = 512, b_block_count = 2, b_kind = Subdev 0 1\<rparr>,
     2 \<mapsto> \<lparr>b_ref = 1, b_name = ''inner'', b_size = 512, b_block_size = 512, b_block_count = 1, b_kind = Subdev 1 1\<rparr>]"
  "bdev_list example_bio = [2, 1, 0]"
  by (simp_all add: example_bio_def bio_eval fun_upd_twist)

lemma example_dev_ok: "dev_ok 2 example_bio 1" "dev_ok 3 example_bio 2"
proof -
  have "dev_ok (Suc (Suc 0)) example_bio 1" "dev_ok (Suc (Suc (Suc 0))) example_bio 2" by (simp_all add: example_bio_eq)
  then show "dev_ok 2 example_bio 1" "dev_ok 3 example_bio 2" by (simp_all only: numeral_2_eq_2 numeral_3_eq_3)
qed

text \<open>
  (C9) A write to a well formed device transfers all bytes up to the end of the device; reading the
  range back delivers them, and every device that does not show the written range reads as before,
  whatever chain of subdevices and whichever hooks are between the devices and the medium.
\<close>

theorem bio_write_read:
  assumes "hw_ok hw" and "dev_ok n b d" and "0 \<le> offset" and "length buf < 2 ^ 32"
    and "dev_ok m b e" and "0 \<le> offset'" and "len' < 2 ^ 32"
  shows "\<exists>k b'. bio_write hw n d buf offset b = Some (Inr k, b') \<and> k = min (length buf) (dev_size b d - nat offset) \<and>
    dev_ok n b' d \<and> bio_read hw n d offset k b' = Some (Inr (take k buf)) \<and>
    (apart (fst (window n b d), snd (window n b d) + nat offset) k (window m b e) (dev_size b e) \<longrightarrow>
       bio_read hw m e offset' len' b' = bio_read hw m e offset' len' b)"
proof -
  obtain r start where w: "window n b d = (r, start)" by (cases "window n b d")
  define k where "k = fitting (dev_size b d) offset buf"
  define b' where "b' = set_medium r (blit (start + nat offset) (take k buf) (medium b r)) b"
  have r: "storage b r" "start + dev_size b d \<le> length (medium b r)" using window_fits [OF assms(2)] w by simp_all
  have wr: "bio_write hw n d buf offset b = Some (Inr k, b')"
    using bio_write_window [OF assms(1-4) w] by (simp add: k_def b'_def Let_def)
  have kl: "length (take k buf) = k" by (simp add: k_def fitting_def)
  have small: "k < 2 ^ 32" using assms(4) by (simp add: k_def fitting_def)
  show ?thesis
  proof (cases "k = 0")
    case True
    then have "b' = b" using set_medium_same [OF r(1)] by (simp add: b'_def)
    moreover have "bio_read hw n d offset k b = Some (Inr [])"
      using bio_read_window [OF assms(1,2,3), of 0] True by (simp add: slice_def)
    ultimately show ?thesis using wr True assms(2) by (auto simp: k_def fitting_def)
  next
    case False
    then have fit: "nat offset + k \<le> dev_size b d" unfolding k_def fitting_def by linarith
    then have le: "start + nat offset + length (take k buf) \<le> length (medium b r)" using r(2) kl by linarith
    note ok = dev_ok_set_medium [OF length_blit [OF le], folded b'_def]
    have db: "dev_bytes n b' d = slice start (dev_size b d) (blit (start + nat offset) (take k buf) (medium b r))"
      unfolding b'_def using dev_bytes_set_medium [OF w r(1)] by simp
    have "slice (nat offset) k (dev_bytes n b' d) = take k buf"
      unfolding db slice_slice [OF fit] using slice_blit [OF le] kl by simp
    then have rd: "bio_read hw n d offset k b' = Some (Inr (take k buf))"
      using bio_read_window [OF assms(1) _ assms(3) small] ok assms(2) by simp
    have "bio_read hw m e offset' len' b' = bio_read hw m e offset' len' b"
      if "apart (r, start + nat offset) k (window m b e) (dev_size b e)"
      using bio_read_window [OF assms(1) _ assms(6,7), of m] ok assms(5)
        dev_bytes_apart [OF assms(2,5) _ w, of offset "take k buf"] fit that unfolding kl b'_def [symmetric] by simp
    then show ?thesis using wr rd ok assms(2) w by (auto simp: k_def fitting_def)
  qed
qed

theorem bio_write_read_witness:
  "hw_ok example_hw \<and> dev_ok 2 example_bio 1 \<and> dev_ok 3 example_bio 2 \<and>
   (\<exists>b'. bio_write example_hw 2 1 [1, 2, 3] 510 example_bio = Some (Inr (length [1, 2, 3 :: u8]), b') \<and>
      bio_read example_hw 2 1 510 (length [1, 2, 3 :: u8]) b' = Some (Inr [1, 2, 3]))"
proof -
  have sz: "dev_size example_bio 1 = 1024" by (simp add: example_bio_eq)
  show ?thesis
    using bio_write_read [OF example_hw_ok example_dev_ok(1) _ _ example_dev_ok(2), of 510 "[1, 2, 3]" 0 1] example_dev_ok example_hw_ok
    unfolding sz by auto
qed

text \<open>
  \<open>bio_erase\<close> of a well formed device: it returns the number of bytes up to the end of the device
  at most, and reading the range back delivers zeros.
\<close>

theorem bio_erase_read:
  assumes "hw_ok hw" and "dev_ok n b d" and "0 \<le> offset" and "len < 2 ^ 32"
  shows "\<exists>k b'. bio_erase hw n d offset len b = Some (int k, b') \<and> k = min len (dev_size b d - nat offset) \<and>
    bio_read hw n d offset k b' = Some (Inr (replicate k 0))"
proof -
  obtain r start where w: "window n b d = (r, start)" by (cases "window n b d")
  let ?k = "min len (dev_size b d - nat offset)"
  let ?m = "blit (start + nat offset) (replicate ?k 0) (medium b r)"
  have r: "storage b r" "start + dev_size b d \<le> length (medium b r)" using window_fits [OF assms(2)] w by simp_all
  have er: "bio_erase hw n d offset len b = Some (int ?k, set_medium r ?m b)"
    using bio_erase_window [OF assms(1-3) w] by (simp add: Let_def)
  have "bio_read hw n d offset ?k (set_medium r ?m b) = Some (Inr (replicate ?k 0))"
  proof (cases "?k = 0")
    case True
    then show ?thesis using bio_read_window [OF assms(1-3), of 0] set_medium_same [OF r(1)] by (simp add: slice_def)
  next
    case False
    then have fit: "nat offset + ?k \<le> dev_size b d" by linarith
    then have le: "start + nat offset + length (replicate ?k (0 :: u8)) \<le> length (medium b r)" using r(2) by simp
    have "slice (nat offset) ?k (dev_bytes n (set_medium r ?m b) d) = replicate ?k 0"
      unfolding dev_bytes_set_medium [OF w r(1)] slice_slice [OF fit] if_True refl using slice_blit [OF le] by simp
    moreover have "dev_ok n (set_medium r ?m b) d" using dev_ok_set_medium [OF length_blit [OF le]] assms(2) by simp
    moreover have "?k < 2 ^ 32" using assms(4) by simp
    ultimately show ?thesis using bio_read_window [OF assms(1) _ assms(3)] by metis
  qed
  then show ?thesis using er by blast
qed

theorem bio_erase_read_witness:
  "dev_ok 3 example_bio 2 \<and> (\<exists>b'. bio_erase example_hw 3 2 500 100 example_bio = Some (12, b') \<and>
     bio_read example_hw 3 2 500 12 b' = Some (Inr (replicate 12 0)))"
proof -
  have sz: "dev_size example_bio 2 = 512" by (simp add: example_bio_eq)
  show ?thesis using bio_erase_read [OF example_hw_ok example_dev_ok(2), of 500 100] example_dev_ok unfolding sz by auto
qed

text \<open>
  (C18) The default operations on top of block hooks agree with the direct operations: on the block
  hooks of the memory device, \<open>bio_default_read\<close> and \<open>bio_default_write\<close> do what \<open>mem_bdev_read\<close> and
  \<open>mem_bdev_write\<close> do, for every range inside the device, aligned or not.
\<close>

theorem default_ops_agree:
  assumes "length mem = nb * 512" and "length mem < 2 ^ 32" and "offset + len \<le> length mem" and "offset' + length buf \<le> length mem"
  shows "bio_default_read 512 (mem_bdev_read_block mem) offset len = mem_bdev_read mem offset len \<and>
    bio_default_write 512 (\<lambda>block count mem. mem_bdev_read_block mem block count) mem_bdev_write_block buf offset' mem =
      mem_bdev_write buf offset' mem"
proof
  have v: "length mem = nb * 512 \<and> nb * 512 < 2 ^ 32" using assms(1,2) by simp
  show "bio_default_read 512 (mem_bdev_read_block mem) offset len = mem_bdev_read mem offset len"
    using mem_hooks.default_read [OF v, of offset len] assms by (simp add: mem_bdev_read_def copy_out_def)
  show "bio_default_write 512 (\<lambda>block count mem. mem_bdev_read_block mem block count) mem_bdev_write_block buf offset' mem =
      mem_bdev_write buf offset' mem"
    using mem_hooks.default_write [OF v, of offset' buf] assms by (auto simp: mem_bdev_write_def)
qed

theorem default_ops_agree_witness:
  "bio_default_read 512 (mem_bdev_read_block (replicate 1024 7)) 510 5 = mem_bdev_read (replicate 1024 7) 510 5"
  by (rule default_ops_agree [where nb = 2 and offset' = 0 and buf = "[]", THEN conjunct1]) simp_all

text \<open>Devices that are new, and reference counts that change, do not matter for what a device shows.\<close>

definition extends :: "bio_t \<Rightarrow> bio_t \<Rightarrow> bool" where
  "extends b b' \<longleftrightarrow> (\<forall>x xd. bdev b x = Some xd \<longrightarrow> (\<exists>i. bdev b' x = Some (xd\<lparr>b_ref := i\<rparr>)))"

lemma extends_dev:
  assumes ex: "extends b b'" and ok: "dev_ok n b d"
  shows "dev_ok n b' d" and "dev_bytes n b' d = dev_bytes n b d"
proof -
  have ref: "\<And>x xd. bdev b x = Some xd \<Longrightarrow> \<exists>i. bdev b' x = Some (xd\<lparr>b_ref := i\<rparr>)" using ex by (simp add: extends_def)
  note w = window_ref [OF ok ref]
  show "dev_ok n b' d" using w by blast
  obtain dev where dev: "bdev b d = Some dev" using ok by (cases n) (auto split: option.splits)
  obtain rd where rd: "bdev b (fst (window n b d)) = Some rd" using window_fits(1) [OF ok] by (auto simp: storage_def)
  obtain i j where "bdev b' d = Some (dev\<lparr>b_ref := i\<rparr>)" "bdev b' (fst (window n b d)) = Some (rd\<lparr>b_ref := j\<rparr>)"
    using ref [OF dev] ref [OF rd] by blast
  then show "dev_bytes n b' d = dev_bytes n b d" using w dev rd by (simp add: dev_bytes_def split_beta medium_def)
qed

lemma extends_trans: "extends a b \<Longrightarrow> extends b c \<Longrightarrow> extends a c"
  unfolding extends_def by fastforce

lemma extends_refl: "extends b b"
  unfolding extends_def
proof (intro allI impI)
  fix x xd assume "bdev b x = Some xd"
  then have "bdev b x = Some (xd\<lparr>b_ref := b_ref xd\<rparr>)" by simp
  then show "\<exists>i. bdev b x = Some (xd\<lparr>b_ref := i\<rparr>)" by blast
qed

lemma publish_sub:
  assumes "dev_ok n b p" and "bdev b p = Some pdev"
    and "find (\<lambda>d. map_option b_name (bdev b d) = Some parent_dev) (bdev_list b) = Some p"
    and "bdev b d = None" and "unat first + unat count \<le> unat (b_block_count pdev)"
    and "unat first * unat (b_block_size pdev) < 2 ^ 32"
  obtains b' sub where "bio_publish_subdevice d parent_dev name first count b = Some (0, b')" and "dev_ok (Suc n) b' d"
    and "bdev_list b' = d # bdev_list b" and "extends b b'"
    and "dev_bytes (Suc n) b' d =
      slice (unat first * unat (b_block_size pdev)) (unat count * unat (b_block_size pdev)) (dev_bytes n b p)"
    and "bdev b' = (bdev b)(p \<mapsto> pdev\<lparr>b_ref := b_ref pdev + 1\<rparr>, d \<mapsto> sub)" and "b_name sub = name"
proof -
  have dp: "d \<noteq> p" using assms(2,4) by auto
  let ?p = "pdev\<lparr>b_ref := b_ref pdev + 1\<rparr>"
  let ?d = "(bio_initialize_bdev name (b_block_size pdev) count (Subdev p first))\<lparr>b_ref := 1\<rparr>"
  define b' where "b' = b\<lparr>bdev := (bdev b)(p \<mapsto> ?p, d \<mapsto> ?d), bdev_list := d # bdev_list b\<rparr>"
  have sum: "unat (first + count) = unat first + unat count"
    by (rule unat_add_u32) (use assms(5) unat_lt_u32 [of "b_block_count pdev"] in \<open>simp del: unat_lt_u32\<close>)
  have pub: "bio_publish_subdevice d parent_dev name first count b = Some (0, b')"
    using assms(2,3,5) dp sum
    by (simp add: bio_publish_subdevice_def bio_open_def bdev_inc_ref_def upd_bdev_def bio_register_device_def
        bio_initialize_bdev_def b'_def word_less_nat_alt)
  have ex: "extends b b'"
    unfolding extends_def
  proof (intro allI impI)
    fix x xd assume "bdev b x = Some xd"
    then show "\<exists>i. bdev b' x = Some (xd\<lparr>b_ref := i\<rparr>)" using assms(2,4) by (cases "x = p"; cases xd) (auto simp: b'_def)
  qed
  have bs: "0 < b_block_size pdev" using assms(1,2) by (cases n) auto
  have new: "dev_ok (Suc n) b' d"
    using extends_dev(1) [OF ex assms(1)] bs assms(5,6) dp by (simp add: b'_def bio_initialize_bdev_def)
  have d': "bdev b' d = Some ?d" "b_kind ?d = Subdev p first" by (simp_all add: b'_def bio_initialize_bdev_def)
  have bytes: "dev_bytes (Suc n) b' d =
      slice (unat first * unat (b_block_size pdev)) (unat count * unat (b_block_size pdev)) (dev_bytes n b p)"
    using dev_bytes_sub(3) [OF new d'] extends_dev(2) [OF ex assms(1)] by (simp add: bio_initialize_bdev_def nat_mult_distrib)
  show thesis
    by (rule that [of b' ?d, OF pub new _ ex bytes]) (simp_all add: b'_def bio_initialize_bdev_def)
qed



text \<open>
  (C40) A subdevice that starts at 4 GiB: \<open>subdev_read\<close> multiplies 32-bit words, so that reading bytes
  from it reads the start of the parent, while reading blocks from it reads the right ones.
\<close>

theorem subdev_read_wraps:
  assumes "bdev b d = Some dev" and "b_kind dev = Subdev p first"
    and "unat first * unat (b_block_size dev) = 2 ^ 32"
    and "0 \<le> offset" and "0 < len" and "offset + int len \<le> b_size dev" and "bio_block_range (b_block_count dev) block count = Some count"
  shows "bio_read hw (Suc n) d offset len b = bio_read hw n p offset len b \<and>
    bio_read_block hw (Suc n) d block count b = bio_read_block hw n p (block + first) count b"
proof -
  have "first * b_block_size dev = of_nat (unat first * unat (b_block_size dev))" by simp
  also have "\<dots> = 0" unfolding assms(3) by simp
  finally have "first * b_block_size dev = 0" .
  then show ?thesis using assms by (simp add: bio_range_def subdev_offset_def)
qed

theorem subdev_read_wraps_witness:
  "let sub = \<lparr>b_ref = 1, b_name = ''high'', b_size = 512, b_block_size = 512, b_block_count = 1, b_kind = Subdev 0 8388608\<rparr>;
       par = \<lparr>b_ref = 2, b_name = ''disk'', b_size = 4294967808, b_block_size = 512, b_block_count = 8388609, b_kind = Armemu_bdev (replicate 4294967808 7)\<rparr>;
       b = \<lparr>bdev = [0 \<mapsto> par, 1 \<mapsto> sub], bdev_list = [1, 0]\<rparr>
   in bio_read example_hw (Suc 1) 1 0 4 b = bio_read example_hw 1 0 0 4 b"
  using subdev_read_wraps [of "\<lparr>bdev = [0 \<mapsto> \<lparr>b_ref = 2, b_name = ''disk'', b_size = 4294967808, b_block_size = 512,
      b_block_count = 8388609, b_kind = Armemu_bdev (replicate 4294967808 7)\<rparr>,
      1 \<mapsto> \<lparr>b_ref = 1, b_name = ''high'', b_size = 512, b_block_size = 512, b_block_count = 1, b_kind = Subdev 0 8388608\<rparr>], bdev_list = [1, 0]\<rparr>"
      1 _ 0 8388608 0 4 0 1 example_hw 1]
  by (simp add: bio_block_range_def Let_def del: bio_read.simps bio_read_block.simps)

end
