(* ===== verification/LK_Bio_Refs.thy ===== *)
theory LK_Bio_Refs
  imports LK_Bio_View
begin

text \<open>
  Reference counts of block devices. A device is kept by its place in the list of devices, by its
  subdevices and by the handles \<open>bio_open\<close> has given out; the counter of a device is the number of
  these, in every state the operations of \<^verbatim>\<open>lib/bio/bio.c\<close>, \<^verbatim>\<open>lib/bio/mem.c\<close>, \<^verbatim>\<open>lib/bio/subdev.c\<close> and
  \<^verbatim>\<open>platform/armemu/blkdev.c\<close> can reach, so that no device is freed that can still be used.
\<close>

definition children :: "bio_t \<Rightarrow> nat \<Rightarrow> nat set" where
  "children b d = {c. \<exists>dev first. bdev b c = Some dev \<and> b_kind dev = Subdev d first}"

definition held :: "bio_t \<Rightarrow> (nat \<Rightarrow> nat) \<Rightarrow> nat \<Rightarrow> nat" where
  "held b h d = count_list (bdev_list b) d + card (children b d) + h d"

definition refs_ok :: "bio_t \<Rightarrow> (nat \<Rightarrow> nat) \<Rightarrow> bool" where
  "refs_ok b h \<longleftrightarrow> finite (dom (bdev b)) \<and>
     (\<forall>d. case bdev b d of
        Some dev \<Rightarrow> b_ref dev = int (held b h d) \<and> 0 < held b h d
      | None \<Rightarrow> held b h d = 0)"

text \<open>The chain of parents of a device ends after less than \<open>n\<close> steps.\<close>

fun depth_ok :: "nat \<Rightarrow> bio_t \<Rightarrow> nat \<Rightarrow> bool" where
  "depth_ok 0 b d \<longleftrightarrow> False"
| "depth_ok (Suc n) b d \<longleftrightarrow> (case bdev b d of
     None \<Rightarrow> False
   | Some dev \<Rightarrow> (case b_kind dev of Subdev p first \<Rightarrow> depth_ok n b p | _ \<Rightarrow> True))"

definition kept :: "bio_t \<Rightarrow> bio_t \<Rightarrow> bool" where
  "kept b b' \<longleftrightarrow> (\<forall>c dev'. bdev b' c = Some dev' \<longrightarrow> (\<exists>dev. bdev b c = Some dev \<and> b_kind dev' = b_kind dev))"

lemma refs_okD:
  assumes "refs_ok b h"
  shows "finite (dom (bdev b))" and "bdev b d = Some dev \<Longrightarrow> b_ref dev = int (held b h d) \<and> 0 < held b h d"
    and "bdev b d = None \<Longrightarrow> held b h d = 0"
proof -
  have "case bdev b d of Some dev \<Rightarrow> b_ref dev = int (held b h d) \<and> 0 < held b h d | None \<Rightarrow> held b h d = 0"
    using assms by (simp add: refs_ok_def)
  then show "bdev b d = Some dev \<Longrightarrow> b_ref dev = int (held b h d) \<and> 0 < held b h d" "bdev b d = None \<Longrightarrow> held b h d = 0" by simp_all
qed (use assms in \<open>simp add: refs_ok_def\<close>)

lemma refs_okI:
  assumes "finite (dom (bdev b))" and "\<And>d dev. bdev b d = Some dev \<Longrightarrow> b_ref dev = int (held b h d) \<and> 0 < held b h d"
    and "\<And>d. bdev b d = None \<Longrightarrow> held b h d = 0"
  shows "refs_ok b h"
  using assms by (auto simp: refs_ok_def split: option.split)

lemma finite_children: "finite (dom (bdev b)) \<Longrightarrow> finite (children b d)"
  by (rule finite_subset [of _ "dom (bdev b)"]) (auto simp: children_def)

text \<open>In a state with correct counters, a handle, a subdevice and an entry of the list keep their device.\<close>

lemma held_exists:
  assumes "refs_ok b h" and "0 < h d \<or> d \<in> set (bdev_list b) \<or> children b d \<noteq> {}"
  shows "bdev b d \<noteq> None"
proof
  assume "bdev b d = None"
  then have "held b h d = 0" by (rule refs_okD(3) [OF assms(1)])
  then show False
    using assms(2) finite_children [OF refs_okD(1) [OF assms(1)]] count_notin by (auto simp: held_def count_list_0_iff)
qed

lemma depth_ok_kept:
  assumes "depth_ok n b d" and "kept b b'" and "refs_ok b' h" and "bdev b' d \<noteq> None"
  shows "depth_ok n b' d"
  using assms(1,4)
proof (induction n arbitrary: d)
  case (Suc n)
  then obtain dev' where dev': "bdev b' d = Some dev'" by blast
  then obtain dev where dev: "bdev b d = Some dev" "b_kind dev' = b_kind dev" using assms(2) by (auto simp: kept_def)
  show ?case
  proof (cases "b_kind dev")
    case (Subdev p first)
    then have "children b' p \<noteq> {}" using dev' dev(2) by (auto simp: children_def)
    then have "depth_ok n b' p" using Suc.IH Suc.prems dev(1) Subdev held_exists [OF assms(3), of p] by simp
    then show ?thesis using dev' dev(2) Subdev by simp
  qed (use dev' dev in simp_all)
qed simp

subsection \<open>Single operations\<close>

definition put :: "nat \<Rightarrow> bdev_t option \<Rightarrow> bio_t \<Rightarrow> bio_t" where
  "put d x b = b\<lparr>bdev := (bdev b)(d := x)\<rparr>"

lemma bdev_put [simp]: "bdev (put d x b) c = (if c = d then x else bdev b c)" "bdev_list (put d x b) = bdev_list b"
  by (simp_all add: put_def)

lemma upd_bdev_put: "upd_bdev d dev b = put d (Some dev) b"
  by (simp add: upd_bdev_def put_def)

lemma put_put [simp]: "put d x (put d y b) = put d x b"
  by (simp add: put_def)

lemma put_twist: "c \<noteq> d \<Longrightarrow> put c x (put d y b) = put d y (put c x b)"
  by (simp add: put_def fun_upd_twist)

lemma put_same: "bdev b d = x \<Longrightarrow> put d x b = b"
  by (cases b) (simp add: put_def fun_upd_idem)

lemma dec_ref_put:
  "bdev_dec_ref (Suc n) d b = do {
     dev \<leftarrow> bdev b d;
     let b1 = put d (Some (dev\<lparr>b_ref := b_ref dev - 1\<rparr>)) b;
     if b_ref dev = 1
     then do {
       b2 \<leftarrow> (case b_kind dev of Subdev parent first \<Rightarrow> bdev_dec_ref n parent b1 | _ \<Rightarrow> Some b1);
       Some (put d None b2) }
     else Some b1 }"
  by (simp only: bdev_dec_ref.simps Let_def put_def upd_bdev_def)

declare bdev_dec_ref.simps(2) [simp del]

lemma children_upd:
  assumes "\<And>p first. b_kind dev = Subdev p first \<longleftrightarrow> (\<exists>old. bdev b d = Some old \<and> b_kind old = Subdev p first)"
  shows "children (upd_bdev d dev b) q = children b q"
  using assms by (auto simp: children_def upd_bdev_def)

text \<open>Changing the counter of a device together with what holds it.\<close>

lemma refs_ok_ref:
  assumes ok: "refs_ok b h" and dev: "bdev b d = Some dev" and i: "i = int (held b h' d)" "0 < held b h' d"
    and same: "\<And>c. c \<noteq> d \<Longrightarrow> h' c = h c"
  shows "refs_ok (upd_bdev d (dev\<lparr>b_ref := i\<rparr>) b) h'"
proof -
  let ?b = "upd_bdev d (dev\<lparr>b_ref := i\<rparr>) b"
  have ch: "children ?b q = children b q" for q by (rule children_upd) (simp add: dev)
  have hd: "held ?b h' c = held b h' c" for c by (simp add: held_def ch) (simp add: upd_bdev_def)
  have "held b h' c = held b h c" if "c \<noteq> d" for c using same [OF that] by (simp add: held_def)
  note same_held = this
  have fin: "finite (dom (bdev ?b))" using refs_okD(1) [OF ok] by (simp add: upd_bdev_def)
  show ?thesis
  proof (rule refs_okI [OF fin]; unfold hd)
    fix c dv assume "bdev ?b c = Some dv"
    then show "b_ref dv = int (held b h' c) \<and> 0 < held b h' c"
      using i same_held refs_okD(2) [OF ok] by (cases "c = d") (auto simp: upd_bdev_def)
  next
    fix c assume "bdev ?b c = None"
    then show "held b h' c = 0" using same_held refs_okD(3) [OF ok] by (cases "c = d") (auto simp: upd_bdev_def)
  qed
qed

lemma inc_ref_ok:
  assumes "refs_ok b h" and "bdev b d = Some dev"
  shows "bdev_inc_ref d b = Some (upd_bdev d (dev\<lparr>b_ref := b_ref dev + 1\<rparr>) b)"
    and "refs_ok (upd_bdev d (dev\<lparr>b_ref := b_ref dev + 1\<rparr>) b) (h(d := h d + 1))"
proof -
  show "bdev_inc_ref d b = Some (upd_bdev d (dev\<lparr>b_ref := b_ref dev + 1\<rparr>) b)" using assms(2) by (simp add: bdev_inc_ref_def)
  show "refs_ok (upd_bdev d (dev\<lparr>b_ref := b_ref dev + 1\<rparr>) b) (h(d := h d + 1))"
    by (rule refs_ok_ref [OF assms]) (use refs_okD(2) [OF assms] in \<open>auto simp: held_def\<close>)
qed

text \<open>Freeing a device that only one handle holds moves its hold on its parent to a handle.\<close>

lemma refs_ok_free:
  assumes ok: "refs_ok b h" and dev: "bdev b d = Some dev" and one: "b_ref dev = 1" "0 < h d"
  shows "children b d = {}" and "h d = 1"
    and "b_kind dev = Subdev p first \<Longrightarrow> p \<noteq> d \<and> refs_ok (put d None b) (\<lambda>c. if c = d then 0 else if c = p then h c + 1 else h c)"
    and "(\<And>p first. b_kind dev \<noteq> Subdev p first) \<Longrightarrow> refs_ok (put d None b) (\<lambda>c. if c = d then 0 else h c)"
proof -
  have "held b h d = 1" using refs_okD(2) [OF ok dev] one(1) by simp
  then have hd: "count_list (bdev_list b) d = 0" "card (children b d) = 0" "h d = 1" using one(2) by (auto simp: held_def)
  show "h d = 1" by (rule hd(3))
  have fin: "finite (children b q)" for q using finite_children refs_okD(1) [OF ok] by blast
  show nch: "children b d = {}" using hd(2) fin by simp
  have ch: "children (put d None b) q = children b q - {d}" for q by (auto simp: children_def)
  have rest: "refs_ok (put d None b) h'"
    if "h' d = 0" "\<And>c. c \<noteq> d \<Longrightarrow> card (children b c - {d}) + h' c = card (children b c) + h c" for h'
  proof -
    have held0: "held (put d None b) h' c = (if c = d then 0 else held b h c)" for c
      using that hd(1) nch by (auto simp: held_def ch)
    have fin0: "finite (dom (bdev (put d None b)))"
      by (rule finite_subset [OF _ refs_okD(1) [OF ok]]) (auto split: if_splits)
    show ?thesis
    proof (rule refs_okI [OF fin0]; unfold held0)
      fix c dv assume "bdev (put d None b) c = Some dv"
      then show "b_ref dv = int (if c = d then 0 else held b h c) \<and> 0 < (if c = d then 0 else held b h c)"
        using refs_okD(2) [OF ok] by (cases "c = d") auto
    next
      fix c assume "bdev (put d None b) c = None"
      then show "(if c = d then 0 else held b h c) = 0" using refs_okD(3) [OF ok] by (cases "c = d") auto
    qed
  qed
  show "p \<noteq> d \<and> refs_ok (put d None b) (\<lambda>c. if c = d then 0 else if c = p then h c + 1 else h c)"
    if k: "b_kind dev = Subdev p first"
  proof
    show pd: "p \<noteq> d" using nch dev k by (auto simp: children_def)
    have "d \<in> children b p" using dev k by (auto simp: children_def)
    moreover have "d \<notin> children b c" if "c \<noteq> p" for c using dev k that by (auto simp: children_def)
    ultimately show "refs_ok (put d None b) (\<lambda>c. if c = d then 0 else if c = p then h c + 1 else h c)"
      using pd fin card_Suc_Diff1 [of "children b p" d] by (intro rest) auto
  qed
  show "refs_ok (put d None b) (\<lambda>c. if c = d then 0 else h c)" if "\<And>p first. b_kind dev \<noteq> Subdev p first"
  proof (rule rest)
    have "d \<notin> children b c" for c using dev that by (auto simp: children_def)
    then show "card (children b c - {d}) + (if c = d then 0 else h c) = card (children b c) + h c" if "c \<noteq> d" for c
      using that by simp
  qed simp
qed

text \<open>A device that is not there does not matter.\<close>

lemma dec_ref_frame:
  assumes "bdev_dec_ref n p b = Some b'" and "bdev b d = None"
  shows "bdev_dec_ref n p (put d x b) = Some (put d x b')"
  using assms
proof (induction n arbitrary: p b b')
  case (Suc n)
  then obtain pdev where p: "bdev b p = Some pdev" by (auto simp: dec_ref_put bind_eq_Some_conv)
  then have pd: "p \<noteq> d" using Suc.prems(2) by auto
  let ?b1 = "put p (Some (pdev\<lparr>b_ref := b_ref pdev - 1\<rparr>)) b"
  have n1: "bdev ?b1 d = None" using Suc.prems(2) pd by simp
  show ?case
  proof (cases "b_ref pdev = 1")
    case False
    then show ?thesis using Suc.prems(1) p pd by (auto simp: dec_ref_put Let_def put_twist)
  next
    case True
    show ?thesis
    proof (cases "b_kind pdev")
      case (Subdev q first)
      then obtain b2 where b2: "bdev_dec_ref n q ?b1 = Some b2" "b' = put p None b2"
        using Suc.prems(1) p True by (auto simp: dec_ref_put Let_def bind_eq_Some_conv)
      have "put p v (put d x b) = put d x (put p v b)" for v by (rule put_twist [OF pd])
      moreover have "put p None (put d x b2) = put d x (put p None b2)" by (rule put_twist [OF pd])
      ultimately show ?thesis using Suc.IH [OF b2(1) n1] p pd True Subdev b2(2) by (simp add: dec_ref_put Let_def)
    qed (use Suc.prems(1) p pd True in \<open>auto simp: dec_ref_put Let_def put_twist [of p d]\<close>)
  qed
qed simp

lemma depth_ok_free:
  assumes "depth_ok n b p" and "children b d = {}" and "p \<noteq> d"
  shows "depth_ok n (put d None b) p"
  using assms(1,3)
proof (induction n arbitrary: p)
  case (Suc n)
  then obtain dev where dev: "bdev b p = Some dev" by (auto split: option.splits)
  show ?case
  proof (cases "b_kind dev")
    case (Subdev q first)
    then have "q \<noteq> d" using assms(2) dev by (auto simp: children_def)
    then show ?thesis using Suc dev Subdev by simp
  qed (use Suc.prems dev in simp_all)
qed simp

lemma dec_ref_ok:
  assumes "refs_ok b h" and "depth_ok n b d" and "\<And>c. h c = h' c + (if c = d then 1 else 0)"
  shows "\<exists>b'. bdev_dec_ref n d b = Some b' \<and> refs_ok b' h' \<and> kept b b' \<and> bdev_list b' = bdev_list b"
  using assms
proof (induction n arbitrary: b h h' d)
  case (Suc n)
  then obtain dev where dev: "bdev b d = Some dev" by (auto split: option.splits)
  let ?b1 = "put d (Some (dev\<lparr>b_ref := b_ref dev - 1\<rparr>)) b"
  let ?b0 = "put d None b"
  have pos: "0 < h d" using Suc.prems(3) [of d] by simp
  note ref = refs_okD(2) [OF Suc.prems(1) dev]
  show ?case
  proof (cases "b_ref dev = 1")
    case False
    have "held b h d = held b h' d + 1" using Suc.prems(3) [of d] by (simp add: held_def)
    moreover have "h' c = h c" if "c \<noteq> d" for c using Suc.prems(3) [of c] that by simp
    ultimately have "refs_ok ?b1 h'"
      unfolding upd_bdev_put [symmetric] using ref False by (intro refs_ok_ref [OF Suc.prems(1) dev]) auto
    moreover have "kept b ?b1" using dev by (auto simp: kept_def)
    ultimately show ?thesis using False dev by (simp add: dec_ref_put)
  next
    case True
    note free = refs_ok_free [OF Suc.prems(1) dev True pos]
    show ?thesis
    proof (cases "\<exists>p first. b_kind dev = Subdev p first")
      case sub: True
      then obtain p first where p: "b_kind dev = Subdev p first" by blast
      note pok = free(3) [OF p]
      have "depth_ok n ?b0 p" using depth_ok_free [OF _ free(1)] pok Suc.prems(2) dev p by simp
      moreover have "(if c = d then 0 else if c = p then h c + 1 else h c) = h' c + (if c = p then 1 else 0)" for c
        using Suc.prems(3) [of c] free(2) pok by auto
      ultimately obtain b2 where b2: "bdev_dec_ref n p ?b0 = Some b2" "refs_ok b2 h'" "kept ?b0 b2" "bdev_list b2 = bdev_list b"
        using Suc.IH [of ?b0 "\<lambda>c. if c = d then 0 else if c = p then h c + 1 else h c" p h'] pok by auto
      have none: "bdev b2 d = None"
      proof (cases "bdev b2 d")
        case (Some x)
        then show ?thesis using b2(3) by (fastforce simp: kept_def)
      qed
      have "bdev_dec_ref n p ?b1 = Some (put d (Some (dev\<lparr>b_ref := b_ref dev - 1\<rparr>)) b2)"
        using dec_ref_frame [OF b2(1), of d "Some (dev\<lparr>b_ref := b_ref dev - 1\<rparr>)"] by simp
      then have "bdev_dec_ref (Suc n) d b = Some b2"
        using dev True p put_same [OF none] by (simp add: dec_ref_put Let_def)
      moreover have "kept b b2" using b2(3) none unfolding kept_def bdev_put by (metis option.distinct(1))
      ultimately show ?thesis using b2(2,4) by simp
    next
      case sub: False
      then have "bdev_dec_ref (Suc n) d b = Some ?b0" using dev True by (auto simp: dec_ref_put Let_def split: bdev_kind.split)
      moreover have "(\<lambda>c. if c = d then 0 else h c) = h'" using Suc.prems(3) free(2) by fastforce
      then have "refs_ok ?b0 h'" using free(4) sub by metis
      moreover have "kept b ?b0" by (auto simp: kept_def)
      ultimately show ?thesis by simp
    qed
  qed
qed simp

lemma dec_ref_mono: "bdev_dec_ref n d b = Some b' \<Longrightarrow> bdev_dec_ref (n + k) d b = Some b'"
proof (induction n arbitrary: d b b')
  case (Suc n)
  then obtain dev where dev: "bdev b d = Some dev" by (auto simp: dec_ref_put bind_eq_Some_conv)
  then show ?case using Suc by (cases "b_kind dev") (auto simp: dec_ref_put Let_def bind_eq_Some_conv split: if_splits)
qed simp

lemma depth_ok_extend:
  assumes "depth_ok n b d" and "\<And>c dev. bdev b c = Some dev \<Longrightarrow>
    \<exists>dev'. bdev b' c = Some dev' \<and> (\<forall>p first. b_kind dev' = Subdev p first \<longleftrightarrow> b_kind dev = Subdev p first)"
  shows "depth_ok n b' d"
  using assms(1)
proof (induction n arbitrary: d)
  case (Suc n)
  then obtain dev where dev: "bdev b d = Some dev" by (auto split: option.splits)
  then obtain dev' where dev': "bdev b' d = Some dev'" "\<forall>p first. b_kind dev' = Subdev p first \<longleftrightarrow> b_kind dev = Subdev p first"
    using assms(2) by blast
  show ?case
  proof (cases "b_kind dev'")
    case (Subdev p first)
    then have "b_kind dev = Subdev p first" using dev'(2) by blast
    then show ?thesis using Suc dev dev'(1) Subdev by simp
  qed (use dev'(1) in simp_all)
qed simp

lemma register_ok:
  assumes ok: "refs_ok b h" and new: "bdev b d = None" and dev: "b_ref dev = 0"
    and hold: "\<And>c. h c = h' c + (if \<exists>first. b_kind dev = Subdev c first then 1 else 0)"
  shows "\<exists>b'. bio_register_device d (upd_bdev d dev b) = Some b' \<and> refs_ok b' h' \<and>
    bdev b' = (bdev b)(d \<mapsto> dev\<lparr>b_ref := 1\<rparr>)"
proof -
  let ?b = "b\<lparr>bdev := (bdev b)(d \<mapsto> dev\<lparr>b_ref := 1\<rparr>), bdev_list := d # bdev_list b\<rparr>"
  have "held b h d = 0" by (rule refs_okD(3) [OF ok new])
  then have z: "h d = 0" "count_list (bdev_list b) d = 0" "card (children b d) = 0" by (simp_all add: held_def)
  then have nd: "b_kind dev \<noteq> Subdev d first" for first using hold [of d] by auto
  have fin: "finite (children b c)" for c by (rule finite_children [OF refs_okD(1) [OF ok]])
  have ch: "children ?b c = (if \<exists>first. b_kind dev = Subdev c first then insert d (children b c) else children b c)" for c
    using new by (auto simp: children_def)
  have "d \<notin> children b c" for c using new by (simp add: children_def)
  then have "card (children ?b c) + h' c = card (children b c) + h c" for c
    using hold [of c] fin [of c] unfolding ch by auto
  then have hd: "held ?b h' c = held b h c + (if c = d then 1 else 0)" for c by (auto simp: held_def)
  have fb: "finite (dom (bdev ?b))" using refs_okD(1) [OF ok] by simp
  have "refs_ok ?b h'"
  proof (rule refs_okI [OF fb]; unfold hd)
    fix c dv assume "bdev ?b c = Some dv"
    then show "b_ref dv = int (held b h c + (if c = d then 1 else 0)) \<and> 0 < held b h c + (if c = d then 1 else 0)"
      using refs_okD(2,3) [OF ok] new by (cases "c = d") auto
  next
    fix c assume "bdev ?b c = None"
    then show "held b h c + (if c = d then 1 else 0) = 0" using refs_okD(3) [OF ok] by (cases "c = d") auto
  qed
  moreover have "bio_register_device d (upd_bdev d dev b) = Some ?b"
    using dev by (simp add: bio_register_device_def bdev_inc_ref_def upd_bdev_def)
  ultimately show ?thesis by auto
qed

subsection \<open>The states that can be reached\<close>

text \<open>
  The steps of the clients, with the handles they hold. A client closes only what it has open, memory
  for a new device is not that of a device, and a failed \<open>bio_publish_subdevice\<close> keeps the handle on
  the parent it has opened. A transfer changes the medium of a device.
\<close>

inductive bio_reach :: "bio_t \<Rightarrow> (nat \<Rightarrow> nat) \<Rightarrow> bool" where
  init: "bio_reach bio_init (\<lambda>_. 0)"
| create: "bio_reach b h \<Longrightarrow> bdev b d = None \<Longrightarrow> create_membdev d name mem b = Some b' \<Longrightarrow> bio_reach b' h"
| blkdev: "bio_reach b h \<Longrightarrow> bdev b d = None \<Longrightarrow> platform_init_blkdev d present disk b = Some b' \<Longrightarrow> bio_reach b' h"
| publish: "bio_reach b h \<Longrightarrow> bdev b d = None \<Longrightarrow> bio_publish_subdevice d parent name first count b = Some (0, b') \<Longrightarrow> bio_reach b' h"
| publish_fail: "bio_reach b h \<Longrightarrow> bio_publish_subdevice d parent name first count b = Some (- 1, b') \<Longrightarrow>
    bio_open parent b = Some (Some p, b1) \<Longrightarrow> bio_reach b' (h(p := h p + 1))"
| open_dev: "bio_reach b h \<Longrightarrow> bio_open name b = Some (Some d, b') \<Longrightarrow> bio_reach b' (h(d := h d + 1))"
| close_dev: "bio_reach b h \<Longrightarrow> 0 < h d \<Longrightarrow> bio_close n d b = Some b' \<Longrightarrow> bio_reach b' (h(d := h d - 1))"
| unregister: "bio_reach b h \<Longrightarrow> d \<in> set (bdev_list b) \<Longrightarrow> bio_unregister_device n d b = Some b' \<Longrightarrow> bio_reach b' h"
| transfer: "bio_reach b h \<Longrightarrow> storage b r \<Longrightarrow> bio_reach (set_medium r m b) h"

definition chains_end :: "bio_t \<Rightarrow> bool" where
  "chains_end b \<longleftrightarrow> (\<forall>d. bdev b d \<noteq> None \<longrightarrow> (\<exists>n. depth_ok n b d))"

lemma depth_ok_mono: "depth_ok n b d \<Longrightarrow> depth_ok (n + k) b d"
proof (induction n arbitrary: d)
  case (Suc n)
  then show ?case by (auto split: option.splits bdev_kind.splits)
qed simp

lemma open_ok:
  assumes "refs_ok b h" and "bio_open name b = Some (Some d, b')"
  shows "refs_ok b' (h(d := h d + 1))" and "\<exists>dev. bdev b d = Some dev \<and> b' = upd_bdev d (dev\<lparr>b_ref := b_ref dev + 1\<rparr>) b"
    and "find (\<lambda>d. map_option b_name (bdev b d) = Some name) (bdev_list b) = Some d"
proof -
  show f: "find (\<lambda>d. map_option b_name (bdev b d) = Some name) (bdev_list b) = Some d"
    using assms(2) by (auto simp: bio_open_def bind_eq_Some_conv split: option.splits)
  then obtain dev where dev: "bdev b d = Some dev" by (auto simp: find_Some_iff)
  then have eq: "b' = upd_bdev d (dev\<lparr>b_ref := b_ref dev + 1\<rparr>) b" using assms(2) f by (simp add: bio_open_def bdev_inc_ref_def)
  show "refs_ok b' (h(d := h d + 1))" unfolding eq by (rule inc_ref_ok(2) [OF assms(1) dev])
  show "\<exists>dev. bdev b d = Some dev \<and> b' = upd_bdev d (dev\<lparr>b_ref := b_ref dev + 1\<rparr>) b" using dev eq by blast
qed

lemma chains_end_kept: "chains_end b \<Longrightarrow> kept b b' \<Longrightarrow> refs_ok b' h \<Longrightarrow> chains_end b'"
  unfolding chains_end_def using depth_ok_kept by (metis kept_def option.collapse option.distinct(1))

lemma chains_end_upd:
  assumes "chains_end b" and "bdev b d = Some dev"
  shows "chains_end (upd_bdev d (dev\<lparr>b_ref := i\<rparr>) b)"
  unfolding chains_end_def
proof (intro allI impI)
  fix c assume "bdev (upd_bdev d (dev\<lparr>b_ref := i\<rparr>) b) c \<noteq> None"
  then have "bdev b c \<noteq> None" using assms(2) by (auto simp: upd_bdev_def split: if_splits)
  then obtain n where "depth_ok n b c" using assms(1) by (auto simp: chains_end_def)
  then have "depth_ok n (upd_bdev d (dev\<lparr>b_ref := i\<rparr>) b) c" by (rule depth_ok_extend) (use assms(2) in \<open>auto simp: upd_bdev_def\<close>)
  then show "\<exists>n. depth_ok n (upd_bdev d (dev\<lparr>b_ref := i\<rparr>) b) c" by blast
qed

lemma chains_end_new:
  assumes ce: "chains_end b" and new: "bdev b d = None" and b': "bdev b' = (bdev b)(d \<mapsto> dev)"
    and par: "\<And>p first. b_kind dev = Subdev p first \<Longrightarrow> bdev b p \<noteq> None"
  shows "chains_end b'"
  unfolding chains_end_def
proof (intro allI impI)
  fix c assume c: "bdev b' c \<noteq> None"
  have ext: "depth_ok n b' q" if "depth_ok n b q" for n q
    using that by (rule depth_ok_extend) (use new b' in auto)
  show "\<exists>n. depth_ok n b' c"
  proof (cases "c = d")
    case False
    then show ?thesis using c b' ce ext by (fastforce simp: chains_end_def)
  next
    case True
    show ?thesis
    proof (cases "b_kind dev")
      case (Subdev p first)
      then obtain n where "depth_ok n b p" using par ce by (auto simp: chains_end_def)
      then have "depth_ok (Suc n) b' d" using ext Subdev b' by simp
      then show ?thesis using True by blast
    qed (use True b' in \<open>auto intro: exI [of _ "Suc 0"]\<close>)
  qed
qed

lemma publish_ok:
  assumes ok: "refs_ok b h" "chains_end b" and new: "bdev b d = None"
    and pub: "bio_publish_subdevice d parent name first count b = Some (0, b')"
  shows "refs_ok b' h \<and> chains_end b'"
proof -
  obtain p b1 where op: "bio_open parent b = Some (Some p, b1)"
    using pub by (auto simp: bio_publish_subdevice_def bind_eq_Some_conv split: option.splits if_splits)
  note o = open_ok [OF ok(1) op]
  obtain pdev where p: "bdev b p = Some pdev" "b1 = upd_bdev p (pdev\<lparr>b_ref := b_ref pdev + 1\<rparr>) b" using o(2) by blast
  let ?dev = "bio_initialize_bdev name (b_block_size pdev) count (Subdev p first)"
  have reg: "bio_register_device d (upd_bdev d ?dev b1) = Some b'"
    using pub op p by (auto simp: bio_publish_subdevice_def upd_bdev_def bind_eq_Some_conv split: if_splits)
  have new1: "bdev b1 d = None" using new p by (auto simp: upd_bdev_def)
  have hold: "(h(p := h p + 1)) c = h c + (if \<exists>f. b_kind ?dev = Subdev c f then 1 else 0)" for c
    by (auto simp: bio_initialize_bdev_def)
  have "refs_ok b' h" and b': "bdev b' = (bdev b1)(d \<mapsto> ?dev\<lparr>b_ref := 1\<rparr>)"
    using register_ok [OF o(1) new1 _ hold] reg by (auto simp: bio_initialize_bdev_def)
  moreover have "chains_end b'"
  proof (rule chains_end_new [OF _ new1 b'])
    show "chains_end b1" unfolding p(2) by (rule chains_end_upd [OF ok(2) p(1)])
    show "bdev b1 q \<noteq> None" if "b_kind (?dev\<lparr>b_ref := 1\<rparr>) = Subdev q f" for q f
      using that p by (auto simp: bio_initialize_bdev_def upd_bdev_def)
  qed
  ultimately show ?thesis by blast
qed

lemma create_ok:
  assumes ok: "refs_ok b h" "chains_end b" and new: "bdev b d = None" and kind: "\<And>p f. k \<noteq> Subdev p f"
    and reg: "bio_register_device d (upd_bdev d (bio_initialize_bdev name bs count k) b) = Some b'"
  shows "refs_ok b' h \<and> chains_end b'"
proof -
  let ?dev = "bio_initialize_bdev name bs count k"
  have "h c = h c + (if \<exists>f. b_kind ?dev = Subdev c f then 1 else 0)" for c
    using kind by (simp add: bio_initialize_bdev_def)
  then have "refs_ok b' h" and b': "bdev b' = (bdev b)(d \<mapsto> ?dev\<lparr>b_ref := 1\<rparr>)"
    using register_ok [OF ok(1) new, of ?dev h] reg by (auto simp: bio_initialize_bdev_def)
  moreover have "chains_end b'"
    by (rule chains_end_new [OF ok(2) new b']) (use kind in \<open>simp add: bio_initialize_bdev_def\<close>)
  ultimately show ?thesis by blast
qed

text \<open>Closing a handle, with any fuel that lets the call return.\<close>

lemma close_ok:
  assumes ok: "refs_ok b h" "chains_end b" and hd: "0 < h d"
  shows "\<exists>n b'. bdev_dec_ref n d b = Some b'"
    and "bdev_dec_ref n d b = Some b' \<Longrightarrow> refs_ok b' (h(d := h d - 1)) \<and> chains_end b'"
proof -
  have "bdev b d \<noteq> None" by (rule held_exists [OF ok(1)]) (use hd in simp)
  then obtain m where m: "depth_ok m b d" using ok(2) by (auto simp: chains_end_def)
  have "h c = (h(d := h d - 1)) c + (if c = d then 1 else 0)" for c using hd by simp
  then have dec: "\<exists>b'. bdev_dec_ref (m + k) d b = Some b' \<and> refs_ok b' (h(d := h d - 1)) \<and> kept b b'" for k
    using dec_ref_ok [OF ok(1) depth_ok_mono [OF m]] by blast
  then show "\<exists>n b'. bdev_dec_ref n d b = Some b'" by blast
  show "refs_ok b' (h(d := h d - 1)) \<and> chains_end b'" if "bdev_dec_ref n d b = Some b'"
    using dec [of n] dec_ref_mono [OF that, of m] chains_end_kept [OF ok(2)] by (auto simp: add.commute)
qed

lemma unregister_ok:
  assumes ok: "refs_ok b h" "chains_end b" and l: "d \<in> set (bdev_list b)" and un: "bio_unregister_device n d b = Some b'"
  shows "refs_ok b' h \<and> chains_end b'"
proof -
  let ?b = "b\<lparr>bdev_list := remove1 d (bdev_list b)\<rparr>"
  let ?h = "h(d := h d + 1)"
  have "count_list (remove1 d xs) c + (if c = d then 1 else 0) = count_list xs c" if "d \<in> set xs" for c and xs :: "nat list"
    using that by (induction xs) auto
  note cl = this [OF l]
  have hd: "held ?b ?h c = held b h c" for c
    using cl [of c] by (cases "c = d") (simp_all add: held_def children_def del: count_list_remove1)
  have "refs_ok ?b ?h"
  proof (rule refs_okI)
    show "finite (dom (bdev ?b))" using refs_okD(1) [OF ok(1)] by simp
    have "bdev ?b = bdev b" by simp
    then show "b_ref dev = int (held ?b ?h c) \<and> 0 < held ?b ?h c" if "bdev ?b c = Some dev" for c dev
      unfolding hd using refs_okD(2) [OF ok(1)] that by metis
    show "held ?b ?h c = 0" if "bdev ?b c = None" for c
      unfolding hd using refs_okD(3) [OF ok(1)] that \<open>bdev ?b = bdev b\<close> by metis
  qed
  moreover have "chains_end ?b"
  proof -
    have "depth_ok n ?b c = depth_ok n b c" for n c by (induction n arbitrary: c) (auto split: option.split bdev_kind.split)
    then show ?thesis using ok(2) by (simp add: chains_end_def)
  qed
  moreover have "?h(d := ?h d - 1) = h" by auto
  ultimately show ?thesis using close_ok(2) [of ?b ?h d n b'] un by (auto simp: bio_unregister_device_def)
qed

lemma transfer_ok:
  assumes ok: "refs_ok b h" "chains_end b"
  shows "refs_ok (set_medium r m b) h \<and> chains_end (set_medium r m b)"
proof
  let ?b = "set_medium r m b"
  have sub: "\<exists>dev'. bdev ?b c = Some dev' \<and> b_ref dev' = b_ref dev \<and> (\<forall>p first. b_kind dev' = Subdev p first \<longleftrightarrow> b_kind dev = Subdev p first)"
    if "bdev b c = Some dev" for c dev using that by (auto simp: bdev_set_medium split: bdev_kind.split)
  have none: "bdev ?b c = None \<longleftrightarrow> bdev b c = None" for c by (simp add: bdev_set_medium split: option.split)
  have "children ?b c = children b c" for c
  proof -
    have "(\<exists>dev f. bdev ?b x = Some dev \<and> b_kind dev = Subdev c f) = (\<exists>dev f. bdev b x = Some dev \<and> b_kind dev = Subdev c f)" for x
      using sub [of x] none [of x] by (cases "bdev b x") auto
    then show ?thesis by (simp add: children_def)
  qed
  then have hd: "held ?b h c = held b h c" for c by (simp add: held_def)
  have "dom (bdev ?b) = dom (bdev b)" using none by (auto simp: dom_def)
  then have fb: "finite (dom (bdev ?b))" using refs_okD(1) [OF ok(1)] by simp
  show "refs_ok ?b h"
  proof (rule refs_okI [OF fb]; unfold hd)
    fix c dv assume c: "bdev ?b c = Some dv"
    then obtain dev where dev: "bdev b c = Some dev" using none [of c] by (cases "bdev b c") auto
    then show "b_ref dv = int (held b h c) \<and> 0 < held b h c" using sub [OF dev] refs_okD(2) [OF ok(1) dev] c by simp
  qed (use none refs_okD(3) [OF ok(1)] in simp)
  show "chains_end ?b"
    unfolding chains_end_def
  proof (intro allI impI)
    fix c assume "bdev ?b c \<noteq> None"
    then obtain n where "depth_ok n b c" using ok(2) none by (auto simp: chains_end_def)
    then have "depth_ok n ?b c" by (rule depth_ok_extend) (use sub in blast)
    then show "\<exists>n. depth_ok n ?b c" by blast
  qed
qed

lemma reach_refs: "bio_reach b h \<Longrightarrow> refs_ok b h \<and> chains_end b"
proof (induction rule: bio_reach.induct)
  case init
  show ?case by (auto simp: bio_init_def refs_ok_def held_def children_def chains_end_def)
next
  case (create b h d name mem b')
  then show ?case using create_ok [of b h d "Mem_bdev mem"] by (auto simp: create_membdev_def Let_def)
next
  case (blkdev b h d present disk b')
  then show ?case
    using create_ok [of b h d "Armemu_bdev disk" "''block0''" 512 "of_nat (length disk div 512)" b']
    by (auto simp: platform_init_blkdev_def Let_def split: if_splits)
next
  case (publish_fail b h d parent name first count b' p b1)
  then have "b' = b1"
    by (auto simp: bio_publish_subdevice_def bind_eq_Some_conv split: option.splits if_splits)
  then show ?case using publish_fail open_ok [of b h parent p b1] chains_end_upd by blast
next
  case (open_dev b h name d b')
  then show ?case using open_ok [of b h name d b'] chains_end_upd by blast
next
  case (close_dev b h d n b')
  then show ?case using close_ok(2) [of b h d n b'] unfolding bio_close_def by blast
qed (use publish_ok unregister_ok transfer_ok in blast)+

lemma example_bio_reach: "bio_reach example_bio (\<lambda>_. 0)"
proof -
  obtain b1 b2 where b: "create_membdev 0 ''mem'' (replicate 2048 7) bio_init = Some b1"
    "bio_publish_subdevice 1 ''mem'' ''part'' 1 2 b1 = Some (0, b2)"
    "bio_publish_subdevice 2 ''part'' ''inner'' 1 1 b2 = Some (0, example_bio)" "bdev b1 1 = None" "bdev b2 2 = None"
    unfolding example_bio_def by (simp add: bio_eval)
  have "bio_reach b1 (\<lambda>_. 0)" by (rule bio_reach.create [OF bio_reach.init _ b(1)]) (simp add: bio_init_def)
  then have "bio_reach b2 (\<lambda>_. 0)" by (rule bio_reach.publish [OF _ b(4,2)])
  then show ?thesis by (rule bio_reach.publish [OF _ b(5,3)])
qed

text \<open>
  (C7) No device is freed while it is in use: in every state that can be reached, the reference count
  of a device is the number of its holders (list entry, subdevices, open handles); a device with a
  holder exists, closing an open handle returns, and closing a handle right after \<open>bio_open\<close> has
  delivered it gives the state before.
\<close>

theorem no_use_after_free:
  assumes "bio_reach b h"
  shows "(\<forall>d dev. bdev b d = Some dev \<longrightarrow> b_ref dev = int (count_list (bdev_list b) d + card (children b d) + h d)) \<and>
    (\<forall>d. 0 < h d \<or> d \<in> set (bdev_list b) \<or> children b d \<noteq> {} \<longrightarrow> bdev b d \<noteq> None) \<and>
    (\<forall>d. 0 < h d \<longrightarrow> (\<exists>n b'. bio_close n d b = Some b')) \<and>
    (\<forall>name d b' n. bio_open name b = Some (Some d, b') \<longrightarrow> bio_close (Suc n) d b' = Some b)"
proof (intro conjI allI impI)
  have ok: "refs_ok b h" "chains_end b" using reach_refs [OF assms] by blast+
  show "b_ref dev = int (count_list (bdev_list b) d + card (children b d) + h d)" if "bdev b d = Some dev" for d dev
    using refs_okD(2) [OF ok(1) that] by (simp add: held_def)
  show "bdev b d \<noteq> None" if "0 < h d \<or> d \<in> set (bdev_list b) \<or> children b d \<noteq> {}" for d by (rule held_exists [OF ok(1) that])
  show "\<exists>n b'. bio_close n d b = Some b'" if "0 < h d" for d using close_ok(1) [of b h d] ok that by (simp add: bio_close_def)
  show "bio_close (Suc n) d b' = Some b" if op: "bio_open name b = Some (Some d, b')" for name d b' n
  proof -
    obtain dev where dev: "bdev b d = Some dev" "b' = upd_bdev d (dev\<lparr>b_ref := b_ref dev + 1\<rparr>) b"
      using open_ok(2) [OF ok(1) op] by blast
    have "0 < b_ref dev" using refs_okD(2) [OF ok(1) dev(1)] by simp
    moreover have "put d (Some dev) b = b" by (rule put_same [OF dev(1)])
    ultimately show ?thesis using dev by (simp add: bio_close_def dec_ref_put upd_bdev_put)
  qed
qed

theorem no_use_after_free_witness:
  "\<exists>b. bio_open ''inner'' example_bio = Some (Some 2, b) \<and> bio_reach b ((\<lambda>_. 0)(2 := 1)) \<and>
     (\<exists>n b'. bio_close n 2 b = Some b') \<and> bdev b 2 \<noteq> None"
proof -
  obtain b' where op: "bio_open ''inner'' example_bio = Some (Some 2, b')"
    by (simp add: bio_open_def bdev_inc_ref_def example_bio_eq)
  have r: "bio_reach b' ((\<lambda>_. 0)(2 := 1))" using bio_reach.open_dev [OF example_bio_reach op] by simp
  have "0 < ((\<lambda>_. 0)(2 := 1 :: nat)) (2 :: nat)" by simp
  then show ?thesis using no_use_after_free [OF r] op r by blast
qed

end
