(* ===== verification/LK_Printf.thy ===== *)
theory LK_Printf
  imports LK_Prelude
begin

text \<open>
  Character classes (\<^verbatim>\<open>lib/libc/ctype.c\<close>), conversion of numbers from text (\<^verbatim>\<open>lib/libc/atoi.c\<close>) and
  formatted output (\<^verbatim>\<open>lib/libc/printf.c\<close>). Strings are lists of characters without the final 0. Numbers
  keep their width: \<open>long\<close> has 32 bits and \<open>long long\<close> 64.
\<close>

unbundle bit_operations_syntax

abbreviation ord :: "char \<Rightarrow> nat" where "ord \<equiv> of_char"

subsection \<open>Characters (lib/libc/ctype.c)\<close>

definition isblank :: "nat \<Rightarrow> bool" where
  "isblank c \<longleftrightarrow> c = 32 \<or> c = 9"

definition isspace :: "nat \<Rightarrow> bool" where
  "isspace c \<longleftrightarrow> c = 32 \<or> c = 12 \<or> c = 10 \<or> c = 13 \<or> c = 9 \<or> c = 11"

definition islower :: "nat \<Rightarrow> bool" where
  "islower c \<longleftrightarrow> c \<ge> 97 \<and> c \<le> 122"

definition isupper :: "nat \<Rightarrow> bool" where
  "isupper c \<longleftrightarrow> c \<ge> 65 \<and> c \<le> 90"

definition isdigit :: "nat \<Rightarrow> bool" where
  "isdigit c \<longleftrightarrow> c \<ge> 48 \<and> c \<le> 57"

definition isalpha :: "nat \<Rightarrow> bool" where
  "isalpha c \<longleftrightarrow> isupper c \<or> islower c"

definition isalnum :: "nat \<Rightarrow> bool" where
  "isalnum c \<longleftrightarrow> isalpha c \<or> isdigit c"

definition isxdigit :: "nat \<Rightarrow> bool" where
  "isxdigit c \<longleftrightarrow> isdigit c \<or> (c \<ge> 97 \<and> c \<le> 102) \<or> (c \<ge> 65 \<and> c \<le> 70)"

definition tolower :: "nat \<Rightarrow> nat" where
  "tolower c = (if c \<ge> 65 \<and> c \<le> 90 then c + 32 else c)"

definition toupper :: "nat \<Rightarrow> nat" where
  "toupper c = (if c \<ge> 97 \<and> c \<le> 122 then c - 32 else c)"

subsection \<open>Numbers from text (lib/libc/atoi.c)\<close>

definition hexval :: "char \<Rightarrow> nat" where
  "hexval c =
     (if ord c \<ge> 48 \<and> ord c \<le> 57 then ord c - 48
      else if ord c \<ge> 97 \<and> ord c \<le> 102 then ord c - 97 + 10
      else if ord c \<ge> 65 \<and> ord c \<le> 70 then ord c - 65 + 10
      else 0)"

fun hex_loop :: "string \<Rightarrow> u32 \<Rightarrow> u32" where
  "hex_loop [] value = value"
| "hex_loop (c # num) value = (if isxdigit (ord c) then hex_loop num (value * 16 + of_nat (hexval c)) else value)"

fun dec_loop :: "string \<Rightarrow> u32 \<Rightarrow> u32" where
  "dec_loop [] value = value"
| "dec_loop (c # num) value = (if isdigit (ord c) then dec_loop num (value * 10 + of_nat (ord c) - 48) else value)"

fun starts_hex :: "string \<Rightarrow> bool" where
  "starts_hex (a # b # num) \<longleftrightarrow> a = CHR ''0'' \<and> b = CHR ''x''"
| "starts_hex _ \<longleftrightarrow> False"

definition atol :: "string \<Rightarrow> u32" where
  "atol num =
     (if starts_hex num then hex_loop (drop 2 num) 0
      else case num of
        [] \<Rightarrow> dec_loop num 0
      | c # num' \<Rightarrow> if c = CHR ''-'' then - dec_loop num' 0 else dec_loop num 0)"

definition atoul :: "string \<Rightarrow> u32" where
  "atoul num = (if starts_hex num then hex_loop (drop 2 num) 0 else dec_loop num 0)"

definition atoi :: "string \<Rightarrow> u32" where
  "atoi num = atol num"

definition atoui :: "string \<Rightarrow> u32" where
  "atoui num = atoul num"

subsection \<open>Numbers to text (lib/libc/printf.c)\<close>

abbreviation (input) LONGFLAG :: u32 where "LONGFLAG \<equiv> 0x00000001"
abbreviation (input) LONGLONGFLAG :: u32 where "LONGLONGFLAG \<equiv> 0x00000002"
abbreviation (input) HALFFLAG :: u32 where "HALFFLAG \<equiv> 0x00000004"
abbreviation (input) HALFHALFFLAG :: u32 where "HALFHALFFLAG \<equiv> 0x00000008"
abbreviation (input) SIZETFLAG :: u32 where "SIZETFLAG \<equiv> 0x00000010"
abbreviation (input) ALTFLAG :: u32 where "ALTFLAG \<equiv> 0x00000020"
abbreviation (input) CAPSFLAG :: u32 where "CAPSFLAG \<equiv> 0x00000040"
abbreviation (input) SHOWSIGNFLAG :: u32 where "SHOWSIGNFLAG \<equiv> 0x00000080"
abbreviation (input) SIGNEDFLAG :: u32 where "SIGNEDFLAG \<equiv> 0x00000100"
abbreviation (input) LEFTFORMATFLAG :: u32 where "LEFTFORMATFLAG \<equiv> 0x00000200"
abbreviation (input) LEADZEROFLAG :: u32 where "LEADZEROFLAG \<equiv> 0x00000400"

definition flag_set :: "u32 \<Rightarrow> u32 \<Rightarrow> bool" where
  "flag_set flags f \<longleftrightarrow> flags AND f \<noteq> 0"

text \<open>The digits are written from the end of a buffer; \<open>acc\<close> is what has been written.\<close>

function dec_digits :: "u64 \<Rightarrow> string \<Rightarrow> string" where
  "dec_digits n acc =
     (if n \<ge> 10 then dec_digits (n div 10) (char_of (unat (n mod 10) + 48) # acc)
      else char_of (unat n + 48) # acc)"
  by pat_completeness auto
termination
proof (relation "measure (unat \<circ> fst)", simp)
  fix n :: u64 and acc :: string
  assume "10 \<le> n"
  then have "10 \<le> unat n" by (simp add: word_le_nat_alt)
  then show "((n div 10, char_of (unat (n mod 10) + 48) # acc), (n, acc)) \<in> measure (unat \<circ> fst)" by (simp add: unat_div)
qed

declare dec_digits.simps [simp del]

definition longlong_to_string :: "u64 \<Rightarrow> u32 \<Rightarrow> string" where
  "longlong_to_string n flag =
     (let negative = flag_set flag SIGNEDFLAG \<and> sint n < 0;
          digits = dec_digits (if negative then - n else n) []
      in if negative then CHR ''-'' # digits
         else if flag_set flag SHOWSIGNFLAG then CHR ''+'' # digits
         else digits)"

definition hex_digit :: "bool \<Rightarrow> nat \<Rightarrow> char" where
  "hex_digit caps d = (if caps then ''0123456789ABCDEF'' else ''0123456789abcdef'') ! d"

function hex_digits :: "bool \<Rightarrow> u64 \<Rightarrow> string \<Rightarrow> string" where
  "hex_digits caps u acc =
     (let acc' = hex_digit caps (unat (u mod 16)) # acc
      in if u div 16 \<noteq> 0 then hex_digits caps (u div 16) acc' else acc')"
  by pat_completeness auto
termination
proof (relation "measure (\<lambda>(caps, u, acc). unat u)", simp)
  fix caps :: bool and u :: u64 and acc x :: string
  assume "u div 16 \<noteq> 0"
  then have "unat (u div 16) \<noteq> 0" by (simp add: unat_eq_zero)
  then have "unat u div 16 \<noteq> 0" by (simp add: unat_div)
  then show "((caps, u div 16, x), caps, u, acc) \<in> measure (\<lambda>(caps, u, acc). unat u)" by (simp add: unat_div)
qed

declare hex_digits.simps [simp del]

definition longlong_to_hexstring :: "u64 \<Rightarrow> u32 \<Rightarrow> string" where
  "longlong_to_hexstring u flag = hex_digits (flag_set flag CAPSFLAG) u []"

subsection \<open>Formatted output\<close>

text \<open>
  The arguments: a 32-bit value (\<open>int\<close>, \<open>long\<close>, \<open>size_t\<close>, a promoted smaller one, or an address), a
  64-bit value or a string. Fetching an argument of another kind is undefined, and \<open>None\<close> here.
\<close>

datatype va = VInt u32 | VLong u64 | VStr "string option"

definition va_signed :: "u32 \<Rightarrow> va list \<Rightarrow> (u64 \<times> va list) option" where
  "va_signed flags ap =
     (case ap of
        VLong x # ap' \<Rightarrow> if flag_set flags LONGLONGFLAG then Some (x, ap') else None
      | VInt x # ap' \<Rightarrow>
          if flag_set flags LONGLONGFLAG then None
          else if flag_set flags LONGFLAG then Some (scast x, ap')
          else if flag_set flags HALFHALFFLAG then Some (scast (ucast x :: u8), ap')
          else if flag_set flags HALFFLAG then Some (scast (ucast x :: 16 word), ap')
          else Some (scast x, ap')
      | _ \<Rightarrow> None)"

definition va_unsigned :: "u32 \<Rightarrow> va list \<Rightarrow> (u64 \<times> va list) option" where
  "va_unsigned flags ap =
     (case ap of
        VLong x # ap' \<Rightarrow> if flag_set flags LONGLONGFLAG then Some (x, ap') else None
      | VInt x # ap' \<Rightarrow>
          if flag_set flags LONGLONGFLAG then None
          else if flag_set flags LONGFLAG then Some (ucast x, ap')
          else if flag_set flags HALFHALFFLAG then Some (ucast (ucast x :: u8), ap')
          else if flag_set flags HALFFLAG then Some (ucast (ucast x :: 16 word), ap')
          else Some (ucast x, ap')
      | _ \<Rightarrow> None)"

text \<open>
  The output so far, and \<open>OUTPUT_CHAR\<close>: \<open>Inl\<close> is the jump to \<open>done\<close>. \<open>chars_written\<close> is the length of
  the output.
\<close>

definition output_char :: "nat \<Rightarrow> char \<Rightarrow> string \<Rightarrow> string + string" where
  "output_char len c out = (let out' = out @ [c] in if length out' + 1 = len then Inl out' else Inr out')"

fun output_chars :: "nat \<Rightarrow> string \<Rightarrow> string \<Rightarrow> string + string" where
  "output_chars len [] out = Inr out"
| "output_chars len (c # cs) out = (case output_char len c out of Inl out' \<Rightarrow> Inl out' | Inr out' \<Rightarrow> output_chars len cs out')"

text \<open>The shared output code: \<open>_output_string\<close>.\<close>

definition output_string :: "nat \<Rightarrow> u32 \<Rightarrow> u32 \<Rightarrow> string \<Rightarrow> string \<Rightarrow> string + string" where
  "output_string len flags format_num s out =
     (if flag_set flags LEFTFORMATFLAG
      then (case output_chars len s out of
              Inl out' \<Rightarrow> Inl out'
            | Inr out' \<Rightarrow> output_chars len (replicate (unat format_num - length s) CHR '' '') out')
      else (case output_chars len (replicate (unat format_num - length s) (if flag_set flags LEADZEROFLAG then CHR ''0'' else CHR '' '')) out of
              Inl out' \<Rightarrow> Inl out'
            | Inr out' \<Rightarrow> output_chars len s out'))"

text \<open>
  The flags and the width of a conversion, up to its character; \<open>None\<close> at the end of the format.
  \<open>format_flag\<close> holds the cases of the switch that go on with \<open>next_format\<close>.
\<close>

definition format_flag :: "char \<Rightarrow> u32 \<Rightarrow> u32 \<Rightarrow> (u32 \<times> u32) option" where
  "format_flag c flags format_num =
     (if ord c \<ge> 48 \<and> ord c \<le> 57
      then Some (if c = CHR ''0'' \<and> format_num = 0 then flags OR LEADZEROFLAG else flags, format_num * 10 + of_nat (ord c - 48))
      else if c = CHR ''.'' then Some (flags, format_num)
      else if c = CHR ''-'' then Some (flags OR LEFTFORMATFLAG, format_num)
      else if c = CHR ''+'' then Some (flags OR SHOWSIGNFLAG, format_num)
      else if c = CHR ''#'' then Some (flags OR ALTFLAG, format_num)
      else if c = CHR ''l'' then Some ((if flag_set flags LONGFLAG then flags OR LONGLONGFLAG else flags) OR LONGFLAG, format_num)
      else if c = CHR ''h'' then Some ((if flag_set flags HALFFLAG then flags OR HALFHALFFLAG else flags) OR HALFFLAG, format_num)
      else if c = CHR ''z'' then Some (flags OR SIZETFLAG, format_num)
      else None)"

fun next_format :: "string \<Rightarrow> u32 \<Rightarrow> u32 \<Rightarrow> (char \<times> string \<times> u32 \<times> u32) option" where
  "next_format [] flags format_num = None"
| "next_format (c # fmt) flags format_num =
     (case format_flag c flags format_num of
        Some (flags', format_num') \<Rightarrow> next_format fmt flags' format_num'
      | None \<Rightarrow> Some (c, fmt, flags, format_num))"

text \<open>
  The conversions of integers and of strings: the text, the prefix for \<open>#\<close>, and the arguments that
  are left.
\<close>

definition format_hex :: "u32 \<Rightarrow> va list \<Rightarrow> (string \<times> string \<times> va list) option" where
  "format_hex flags ap = do {
     (n, ap') \<leftarrow> va_unsigned flags ap;
     Some (if flag_set flags ALTFLAG then [CHR ''0'', if flag_set flags CAPSFLAG then CHR ''X'' else CHR ''x''] else [],
           longlong_to_hexstring n flags, ap') }"

definition format_arg :: "char \<Rightarrow> u32 \<Rightarrow> va list \<Rightarrow> (string \<times> string \<times> va list) option option" where
  "format_arg c flags ap =
     (if c = CHR ''s''
      then Some (case ap of VStr s # ap' \<Rightarrow> Some ([], case s of None \<Rightarrow> ''<null>'' | Some t \<Rightarrow> t, ap') | _ \<Rightarrow> None)
      else if c \<in> {CHR ''D'', CHR ''i'', CHR ''d''}
      then Some (do {
        let flags' = (if c = CHR ''D'' then flags OR LONGFLAG else flags);
        (n, ap') \<leftarrow> va_signed flags' ap;
        Some ([], longlong_to_string n (flags' OR SIGNEDFLAG), ap') })
      else if c \<in> {CHR ''U'', CHR ''u''}
      then Some (do {
        let flags' = (if c = CHR ''U'' then flags OR LONGFLAG else flags);
        (n, ap') \<leftarrow> va_unsigned flags' ap;
        Some ([], longlong_to_string n flags', ap') })
      else if c = CHR ''p'' then Some (format_hex (flags OR LONGFLAG OR ALTFLAG) ap)
      else if c = CHR ''X'' then Some (format_hex (flags OR CAPSFLAG) ap)
      else if c = CHR ''x'' then Some (format_hex flags ap)
      else None)"

text \<open>
  One conversion. The stores of \<open>%n\<close> are collected: the address, the number of bytes and the value.
\<close>

type_synonym n_stores = "(u32 \<times> nat \<times> nat) list"

definition store_size :: "u32 \<Rightarrow> nat" where
  "store_size flags =
     (if flag_set flags LONGLONGFLAG then 8 else if flag_set flags LONGFLAG then 4
      else if flag_set flags HALFHALFFLAG then 1 else if flag_set flags HALFFLAG then 2 else 4)"

definition convert :: "nat \<Rightarrow> char \<Rightarrow> u32 \<Rightarrow> u32 \<Rightarrow> va list \<Rightarrow> string \<Rightarrow> ((string + string) \<times> va list \<times> n_stores) option" where
  "convert len c flags format_num ap out =
     (if c = CHR ''%'' then Some (output_char len CHR ''%'' out, ap, [])
      else if c = CHR ''c''
      then (case ap of VInt x # ap' \<Rightarrow> Some (output_char len (char_of (unat x)) out, ap', []) | _ \<Rightarrow> None)
      else if c = CHR ''n''
      then (case ap of VInt p # ap' \<Rightarrow> Some (Inr out, ap', [(p, store_size flags, length out)]) | _ \<Rightarrow> None)
      else case format_arg c flags ap of
        Some r \<Rightarrow> do {
          (prefix, s, ap') \<leftarrow> r;
          Some (case output_chars len prefix out of
                  Inl out' \<Rightarrow> Inl out'
                | Inr out' \<Rightarrow> output_string len flags format_num s out', ap', []) }
      | None \<Rightarrow> Some (output_chars len [CHR ''%'', c] out, ap, []))"

lemma next_format_shorter: "next_format fmt flags n = Some (c, fmt', flags', n') \<Longrightarrow> length fmt' < length fmt"
proof (induction fmt arbitrary: flags n)
  case (Cons x fmt)
  then show ?case by (cases "format_flag x flags n") (auto intro: less_SucI)
qed simp

text \<open>
  The loop over the format. The result is the output without the final 0, so that the return value is
  its length.
\<close>

function vsn_loop :: "nat \<Rightarrow> string \<Rightarrow> va list \<Rightarrow> string \<Rightarrow> n_stores \<Rightarrow> (string \<times> n_stores) option" where
  "vsn_loop len [] ap out st = Some (out, st)"
| "vsn_loop len (c # fmt) ap out st =
     (if c \<noteq> CHR ''%''
      then (case output_char len c out of Inl out' \<Rightarrow> Some (out', st) | Inr out' \<Rightarrow> vsn_loop len fmt ap out' st)
      else case next_format fmt 0 0 of
        None \<Rightarrow> Some (out, st)
      | Some (c', fmt', flags, format_num) \<Rightarrow>
          (case convert len c' flags format_num ap out of
             None \<Rightarrow> None
           | Some (Inl out', ap', st') \<Rightarrow> Some (out', st @ st')
           | Some (Inr out', ap', st') \<Rightarrow> vsn_loop len fmt' ap' out' (st @ st')))"
  by pat_completeness auto
termination by (relation "measure (\<lambda>(len, fmt, ap, out, st). length fmt)") (auto dest: next_format_shorter)

definition vsnprintf :: "nat \<Rightarrow> string \<Rightarrow> va list \<Rightarrow> (string \<times> n_stores) option" where
  "vsnprintf len fmt ap = vsn_loop len fmt ap [] []"

abbreviation (input) INT_MAX :: nat where "INT_MAX \<equiv> 2147483647"

definition vsprintf :: "string \<Rightarrow> va list \<Rightarrow> (string \<times> n_stores) option" where
  "vsprintf fmt ap = vsnprintf INT_MAX fmt ap"

definition snprintf :: "nat \<Rightarrow> string \<Rightarrow> va list \<Rightarrow> (string \<times> n_stores) option" where
  "snprintf len fmt ap = vsnprintf len fmt ap"

definition sprintf :: "string \<Rightarrow> va list \<Rightarrow> (string \<times> n_stores) option" where
  "sprintf fmt ap = vsprintf fmt ap"

subsection \<open>Digits\<close>

lemma ord_digit [simp]: "d < 10 \<Longrightarrow> ord (char_of (d + 48)) = d + 48"
  by (simp add: of_char_of)

lemma ucast_split:
  fixes n :: u64
  assumes "unat b = k"
  shows "(ucast (n div b) * of_nat k + of_nat (unat (n mod b)) :: u32) = ucast n"
proof -
  have "(ucast (n div b) :: u32) = of_nat (unat (n div b))" by (rule of_nat_unat [symmetric])
  then have "(ucast (n div b) * of_nat k + of_nat (unat (n mod b)) :: u32) = of_nat (unat n div k * k + unat n mod k)"
    by (simp only: of_nat_add of_nat_mult unat_div unat_mod assms)
  also have "\<dots> = ucast n" by (simp only: div_mult_mod_eq of_nat_unat)
  finally show ?thesis .
qed

lemma dec_digits_value: "dec_loop (dec_digits n acc) 0 = dec_loop acc (ucast n)"
proof (induction n acc rule: dec_digits.induct)
  case (1 n acc)
  show ?case
  proof (cases "n \<ge> 10")
    case True
    have d: "unat (n mod 10) < 10" by (simp add: unat_mod)
    have "dec_loop (dec_digits n acc) 0 = dec_loop (char_of (unat (n mod 10) + 48) # acc) (ucast (n div 10))"
      using 1 True by (subst dec_digits.simps) simp
    also have "\<dots> = dec_loop acc (ucast (n div 10) * 10 + of_nat (unat (n mod 10)))"
      using d by (simp add: isdigit_def)
    also have "(ucast (n div 10) * 10 + of_nat (unat (n mod 10)) :: u32) = ucast n"
      using ucast_split [of 10 10 n] by simp
    finally show ?thesis .
  next
    case False
    then have d: "unat n < 10" by (simp add: word_le_nat_alt)
    then show ?thesis using False by (subst dec_digits.simps) (simp add: isdigit_def)
  qed
qed

lemma dec_digits_digits: "\<forall>c\<in>set acc. isdigit (ord c) \<Longrightarrow> dec_digits n acc \<noteq> [] \<and> (\<forall>c\<in>set (dec_digits n acc). isdigit (ord c))"
proof (induction n acc rule: dec_digits.induct)
  case (1 n acc)
  show ?case
  proof (cases "n \<ge> 10")
    case True
    have "unat (n mod 10) < 10" by (simp add: unat_mod)
    then show ?thesis using 1 True by (subst (1 2) dec_digits.simps) (simp add: isdigit_def)
  next
    case False
    then have "unat n < 10" by (simp add: word_le_nat_alt)
    then show ?thesis using False 1 by (subst (1 2) dec_digits.simps) (simp add: isdigit_def)
  qed
qed

lemma length_dec_digits: "unat n < 10 ^ Suc k \<Longrightarrow> length (dec_digits n acc) \<le> Suc k + length acc"
proof (induction k arbitrary: n acc)
  case 0
  then have "\<not> 10 \<le> n" by (simp add: word_le_nat_alt)
  then show ?case by (subst dec_digits.simps) simp
next
  case (Suc k)
  have "unat (n div 10) < 10 ^ Suc k" using Suc.prems by (simp add: unat_div less_mult_imp_div_less mult.commute)
  then show ?case using Suc.IH [of "n div 10" "char_of (unat (n mod 10) + 48) # acc"]
    by (subst dec_digits.simps) auto
qed

lemma hex_digit_value: "d < 16 \<Longrightarrow> hexval (hex_digit caps d) = d \<and> isxdigit (ord (hex_digit caps d))"
proof -
  have "\<forall>d\<in>set [0..<16]. \<forall>caps. hexval (hex_digit caps d) = d \<and> isxdigit (ord (hex_digit caps d))"
    by (simp add: hexval_def hex_digit_def isxdigit_def isdigit_def upt_rec all_bool_eq)
  then show "d < 16 \<Longrightarrow> ?thesis" by simp
qed

lemma hex_digits_value: "hex_loop (hex_digits caps u acc) 0 = hex_loop acc (ucast u)"
proof (induction caps u acc rule: hex_digits.induct)
  case (1 caps u acc)
  have d: "unat (u mod 16) < 16" by (simp add: unat_mod)
  note hv = hex_digit_value [OF d, of caps]
  have u: "(ucast (u div 16) * 16 + of_nat (unat (u mod 16)) :: u32) = ucast u" using ucast_split [of 16 16 u] by simp
  show ?case
  proof (cases "u div 16 = 0")
    case True
    then show ?thesis using u hv by (subst hex_digits.simps) simp
  next
    case False
    have "hex_loop (hex_digits caps u acc) 0 = hex_loop (hex_digit caps (unat (u mod 16)) # acc) (ucast (u div 16))"
      using 1 [OF refl False] False by (subst hex_digits.simps) (simp add: Let_def)
    also have "\<dots> = hex_loop acc (ucast u)" using u hv by simp
    finally show ?thesis .
  qed
qed

lemma length_hex_digits: "unat u < 16 ^ Suc k \<Longrightarrow> length (hex_digits caps u acc) \<le> Suc k + length acc"
proof (induction k arbitrary: u acc)
  case 0
  then have "u div 16 = 0" by (simp add: unat_eq_zero [symmetric] unat_div)
  then show ?case by (subst hex_digits.simps) simp
next
  case (Suc k)
  have "unat (u div 16) < 16 ^ Suc k" using Suc.prems by (simp add: unat_div less_mult_imp_div_less mult.commute)
  then show ?case using Suc.IH [of "u div 16" "hex_digit caps (unat (u mod 16)) # acc"]
    by (subst hex_digits.simps) (auto simp: Let_def)
qed

subsection \<open>Bounded output\<close>

lemma output_chars_0 [simp]: "output_chars 0 cs out = Inr (out @ cs)"
  by (induction cs arbitrary: out) (simp_all add: output_char_def)

text \<open>The outcome of an output to a buffer of \<open>len\<close> bytes: all of it, or a full buffer.\<close>

definition bounded :: "nat \<Rightarrow> string \<Rightarrow> string + string" where
  "bounded len out = (if length out + 1 < len then Inr out else Inl (take (len - 1) out))"

lemma output_chars_bounded: "length out + 1 < len \<Longrightarrow> output_chars len cs out = bounded len (out @ cs)"
proof (induction cs arbitrary: out)
  case (Cons c cs)
  show ?case
  proof (cases "length out + 2 = len")
    case True
    then show ?thesis by (auto simp: output_char_def bounded_def)
  next
    case False
    then show ?thesis using Cons.IH [of "out @ [c]"] Cons.prems by (simp add: output_char_def)
  qed
qed (simp add: bounded_def)

lemma output_char_bounded: "length out + 1 < len \<Longrightarrow> output_char len c out = bounded len (out @ [c])"
  using output_chars_bounded [of out len "[c]"] by (simp split: sum.splits)

lemma output_char_0 [simp]: "output_char 0 c out = Inr (out @ [c])"
  by (simp add: output_char_def)

lemma take_full: "\<not> length v + 1 < len \<Longrightarrow> take (len - 1) (v @ t) = take (len - 1) v"
  by simp

text \<open>Two outputs one after the other.\<close>

lemma output_both:
  assumes "length out + 1 < len"
  shows "(case output_chars len s out of Inl out' \<Rightarrow> Inl out' | Inr out' \<Rightarrow> output_chars len t out') = bounded len (out @ s @ t)"
proof (cases "length (out @ s) + 1 < len")
  case True
  then show ?thesis using output_chars_bounded [OF assms] output_chars_bounded [of "out @ s" len t] by (simp add: bounded_def)
next
  case False
  then show ?thesis using output_chars_bounded [OF assms, of s] by (simp add: bounded_def)
qed

text \<open>What a conversion contributes does not depend on the size of the buffer.\<close>

definition justified :: "u32 \<Rightarrow> u32 \<Rightarrow> string \<Rightarrow> string" where
  "justified flags format_num s =
     (if flag_set flags LEFTFORMATFLAG then s @ replicate (unat format_num - length s) CHR '' ''
      else replicate (unat format_num - length s) (if flag_set flags LEADZEROFLAG then CHR ''0'' else CHR '' '') @ s)"

lemma output_string_bounded:
  "length out + 1 < len \<Longrightarrow> output_string len flags format_num s out = bounded len (out @ justified flags format_num s)"
  by (simp add: output_string_def justified_def output_both)

lemma output_string_0: "output_string 0 flags format_num s out = Inr (out @ justified flags format_num s)"
  by (simp add: output_string_def justified_def)

lemma convert_bounded:
  assumes "convert 0 c flags format_num ap out = Some (r, ap', st)" and len: "length out + 1 < len"
  shows "\<exists>t. r = Inr (out @ t) \<and> convert len c flags format_num ap out = Some (bounded len (out @ t), ap', st)"
proof -
  have keep: "Inr out = bounded len (out @ [])" using len by (simp add: bounded_def)
  have pre: "(case output_chars len prefix out of Inl out' \<Rightarrow> Inl out' | Inr out' \<Rightarrow> output_string len flags format_num s out') =
      bounded len (out @ prefix @ justified flags format_num s)" for prefix s
  proof (cases "length (out @ prefix) + 1 < len")
    case True
    then show ?thesis
      using output_chars_bounded [OF len, of prefix] output_string_bounded [of "out @ prefix" len] by (simp add: bounded_def)
  next
    case False
    then show ?thesis using output_chars_bounded [OF len, of prefix] by (simp add: bounded_def)
  qed
  consider "c = CHR ''%''" | "c = CHR ''c''" | "c = CHR ''n''" | "c \<notin> {CHR ''%'', CHR ''c'', CHR ''n''}" by blast
  then show ?thesis
  proof cases
    case 4
    show ?thesis
    proof (cases "format_arg c flags ap")
      case None
      then show ?thesis using 4 assms(1) output_chars_bounded [OF len, of "[CHR ''%'', c]"] by (auto simp: convert_def)
    next
      case (Some f)
      then obtain prefix s where "f = Some (prefix, s, ap')" "r = Inr (out @ prefix @ justified flags format_num s)" "st = []"
        using 4 assms(1) by (auto simp: convert_def output_string_0 bind_eq_Some_conv)
      then show ?thesis using Some 4 pre by (auto simp: convert_def)
    qed
  qed (use assms(1) output_char_bounded [OF len] keep in \<open>auto simp: convert_def split: list.splits va.splits\<close>)
qed

lemma vsn_loop_extends: "vsn_loop 0 fmt ap out st = Some (u, st') \<Longrightarrow> \<exists>t. u = out @ t"
proof (induction "0 :: nat" fmt ap out st rule: vsn_loop.induct)
  case (2 c fmt ap out st)
  show ?case
  proof (cases "c = CHR ''%''")
    case False
    then show ?thesis using 2(1) [OF False] 2(3) by auto
  next
    case True
    show ?thesis
    proof (cases "next_format fmt 0 0")
      case None
      then show ?thesis using True 2(3) by simp
    next
      case (Some q)
      obtain c' fmt' flags n where q: "q = (c', fmt', flags, n)" by (cases q)
      obtain r ap' st1 where cv: "convert 0 c' flags n ap out = Some (r, ap', st1)"
        using True Some q 2(3) by (auto split: option.splits)
      obtain t where t: "r = Inr (out @ t)" using convert_bounded [OF cv, of "length out + 2"] by auto
      then have "vsn_loop 0 fmt' ap' (out @ t) (st @ st1) = Some (u, st')" using True Some q cv 2(3) by simp
      moreover have "\<not> c \<noteq> CHR ''%''" using True by simp
      ultimately show ?thesis using 2(2) [OF _ Some [unfolded q] refl refl refl cv refl] t by fastforce
    qed
  qed
qed simp

lemma vsn_loop_bounded:
  assumes "vsn_loop 0 fmt ap out st = Some (u, st0)" and "length out + 1 < len"
  shows "\<exists>st1. vsn_loop len fmt ap out st = Some (take (len - 1) u, st1)"
  using assms
proof (induction len fmt ap out st rule: vsn_loop.induct)
  case (2 len c fmt ap out st)
  show ?case
  proof (cases "c = CHR ''%''")
    case False
    then have step: "vsn_loop 0 fmt ap (out @ [c]) st = Some (u, st0)" using 2(3) by simp
    then obtain t where t: "u = out @ [c] @ t" using vsn_loop_extends by fastforce
    show ?thesis
    proof (cases "length (out @ [c]) + 1 < len")
      case True
      then have oc: "output_char len c out = Inr (out @ [c])" using output_char_bounded [OF 2(4)] by (simp add: bounded_def)
      then show ?thesis using 2(1) [OF False oc step True] False by simp
    next
      case full: False
      then have "output_char len c out = Inl (take (len - 1) (out @ [c]))" using output_char_bounded [OF 2(4)] by (simp add: bounded_def)
      moreover have "take (len - 1) u = take (len - 1) (out @ [c])" using take_full [OF full, of t] t by simp
      ultimately show ?thesis using False by simp
    qed
  next
    case True
    then have np: "\<not> c \<noteq> CHR ''%''" by simp
    show ?thesis
    proof (cases "next_format fmt 0 0")
      case None
      then show ?thesis using True 2(3,4) by simp
    next
      case (Some q)
      obtain c' fmt' flags n where q: "q = (c', fmt', flags, n)" by (cases q)
      obtain r ap' st1 where cv0: "convert 0 c' flags n ap out = Some (r, ap', st1)"
        using True Some q 2(3) by (auto split: option.splits)
      obtain t where t: "r = Inr (out @ t)" and cv: "convert len c' flags n ap out = Some (bounded len (out @ t), ap', st1)"
        using convert_bounded [OF cv0 2(4)] by blast
      have step: "vsn_loop 0 fmt' ap' (out @ t) (st @ st1) = Some (u, st0)" using True Some q cv0 t 2(3) by simp
      then obtain t' where t': "u = (out @ t) @ t'" using vsn_loop_extends by blast
      show ?thesis
      proof (cases "length (out @ t) + 1 < len")
        case fits: True
        then have cv': "convert len c' flags n ap out = Some (Inr (out @ t), ap', st1)" using cv by (simp add: bounded_def)
        then show ?thesis using 2(2) [OF np Some [unfolded q] refl refl refl cv' refl refl refl step fits] True Some q by simp
      next
        case False
        then have "convert len c' flags n ap out = Some (Inl (take (len - 1) (out @ t)), ap', st1)" using cv by (simp add: bounded_def)
        then show ?thesis using True Some q t' False by simp
      qed
    qed
  qed
qed simp

subsection \<open>Properties\<close>

text \<open>
  (C21) \<open>vsnprintf\<close> to a buffer of at least two bytes returns and writes the first \<open>len - 1\<close> characters
  of the complete output and the final 0, so it never writes past the buffer. The test of the length
  comes after the character is stored and asks for equality, so that for a size of 0 or 1 there is no
  bound: the complete output is written.
\<close>

theorem vsnprintf_bounded:
  assumes "vsnprintf 0 fmt ap = Some (u, st)"
  shows "(2 \<le> len \<longrightarrow> (\<exists>st'. vsnprintf len fmt ap = Some (take (len - 1) u, st') \<and> length (take (len - 1) u) + 1 \<le> len)) \<and>
    vsnprintf 1 fmt ap = Some (u, st)"
proof
  show "2 \<le> len \<longrightarrow> (\<exists>st'. vsnprintf len fmt ap = Some (take (len - 1) u, st') \<and> length (take (len - 1) u) + 1 \<le> len)"
    using vsn_loop_bounded [of fmt ap "[]" "[]" u st len] assms by (auto simp: vsnprintf_def)
  have oc: "output_char 1 = output_char 0" by (intro ext) (simp add: output_char_def)
  have ocs: "output_chars 1 cs out = output_chars 0 cs out" for cs out by (induction cs arbitrary: out) (simp_all add: oc [unfolded One_nat_def])
  have cv: "convert 1 = convert 0" by (intro ext) (simp only: convert_def oc ocs output_string_def)
  have "vsn_loop 1 fmt ap out st0 = vsn_loop 0 fmt ap out st0" for out st0
  proof (induction "0 :: nat" fmt ap out st0 rule: vsn_loop.induct)
    case (2 c fmt ap out st0)
    show ?case
    proof (cases "c = CHR ''%''")
      case True
      then have np: "\<not> c \<noteq> CHR ''%''" by simp
      show ?thesis
      proof (cases "next_format fmt 0 0")
        case (Some q)
        obtain c' fmt' flags n where q: "q = (c', fmt', flags, n)" by (cases q)
        show ?thesis
        proof (cases "convert 0 c' flags n ap out")
          case cvN: (Some x)
          obtain r ap' st1 where x: "x = (r, ap', st1)" by (cases x)
          show ?thesis
          proof (cases r)
            case (Inr out')
            then show ?thesis
              using 2(2) [OF np Some [unfolded q] refl refl refl cvN [unfolded x Inr] refl refl refl] True Some q cvN x cv by simp
          qed (use True Some q cvN x cv in simp)
        qed (use True Some q cv in simp)
      qed (use True in simp)
    next
      case False
      then show ?thesis using 2(1) [OF False] oc by simp
    qed
  qed simp
  then show "vsnprintf 1 fmt ap = Some (u, st)" using assms by (simp add: vsnprintf_def)
qed

theorem vsnprintf_bounded_witness:
  "vsnprintf 0 ''%s'' [VStr (Some ''abcdef'')] = Some (''abcdef'', []) \<and>
   (\<exists>st'. vsnprintf 4 ''%s'' [VStr (Some ''abcdef'')] = Some (''abc'', st')) \<and>
   vsnprintf 1 ''%s'' [VStr (Some ''abcdef'')] = Some (''abcdef'', [])"
proof -
  have u: "vsnprintf 0 ''%s'' [VStr (Some ''abcdef'')] = Some (''abcdef'', [])"
    by (simp add: vsnprintf_def format_flag_def convert_def format_arg_def output_string_0 justified_def flag_set_def)
  then show ?thesis using vsnprintf_bounded [OF u, of 4] by auto
qed

lemma dec_not_hex:
  assumes "\<forall>c\<in>set s. isdigit (ord c)"
  shows "\<not> starts_hex s" and "\<not> starts_hex (CHR ''-'' # s)" and "s \<noteq> [] \<Longrightarrow> hd s \<noteq> CHR ''-''"
proof -
  show "\<not> starts_hex s" using assms by (cases s rule: starts_hex.cases) (auto simp: isdigit_def)
  show "\<not> starts_hex (CHR ''-'' # s)" by (cases s) simp_all
  show "hd s \<noteq> CHR ''-''" if "s \<noteq> []" using assms that by (cases s) (auto simp: isdigit_def)
qed

lemma ucast_neg_scast: "(ucast (- (scast x :: u64)) :: u32) = - x" "(ucast (scast x :: u64) :: u32) = x" for x :: u32
proof -
  show e: "(ucast (scast x :: u64) :: u32) = x" by (rule bit_word_eqI) (auto simp: bit_simps)
  have "(ucast (- y) :: u32) = - ucast y" for y :: u64
  proof -
    have "(ucast (- y) :: u32) = word_of_int (uint (- y))" by simp
    also have "uint (- y) = take_bit 64 (- uint y)" by (simp add: uint_word_ariths take_bit_eq_mod)
    also have "word_of_int (take_bit 64 (- uint y)) = (word_of_int (- uint y) :: u32)"
      by (subst word_of_int_eq_iff) simp
    also have "\<dots> = - ucast y" by simp
    finally show ?thesis .
  qed
  then show "(ucast (- (scast x :: u64)) :: u32) = - x" using e by simp
qed


text \<open>
  The texts of numbers fit the buffer of 32 bytes of \<open>vsnprintf\<close> with the final 0: at most 20
  digits and a sign, or 16 hexadecimal digits.
\<close>

theorem number_text_fits:
  "length (longlong_to_string n flags) \<le> 21 \<and> length (longlong_to_hexstring n flags) \<le> 16"
proof
  have lt: "unat m < 10 ^ Suc 19" for m :: u64
    by (rule less_le_trans [of _ "2 ^ 64"]) (use unsigned_less [of m] in simp_all)
  show "length (longlong_to_string n flags) \<le> 21"
    using length_dec_digits [OF lt [of n], of "[]"] length_dec_digits [OF lt [of "- n"], of "[]"]
    by (auto simp: longlong_to_string_def Let_def)
  have "unat n < 16 ^ Suc 15" by (rule less_le_trans [of _ "2 ^ 64"]) (use unsigned_less [of n] in simp_all)
  from length_hex_digits [OF this, of _ "[]"] show "length (longlong_to_hexstring n flags) \<le> 16"
    by (auto simp: longlong_to_hexstring_def)
qed

end
