(* ===== verification/LK_Partition.thy ===== *)
theory LK_Partition
  imports LK_Bio_Refs LK_Printf
begin

text \<open>
  Partition tables on block devices (\<^verbatim>\<open>lib/partition/partition.c\<close>): the four entries of a master boot
  record are validated and published as subdevices. The memory for the subdevices comes from
  \<open>malloc\<close>, a function of the state; \<open>stack\<close> is what the buffer on the stack holds before the read.
\<close>

record chs =
  chs_c :: u8
  chs_h :: u8
  chs_s :: u8

record mbr_part =
  mp_status :: u8
  mp_start :: chs
  mp_type :: u8
  mp_end :: chs
  mp_lba_start :: u32
  mp_lba_length :: u32

text \<open>The packed structure is read from the bytes of the sector, numbers with the low byte first.\<close>

definition mbr_part_of :: "u8 list \<Rightarrow> mbr_part" where
  "mbr_part_of b =
     \<lparr>mp_status = b ! 0, mp_start = \<lparr>chs_c = b ! 1, chs_h = b ! 2, chs_s = b ! 3\<rparr>, mp_type = b ! 4,
      mp_end = \<lparr>chs_c = b ! 5, chs_h = b ! 6, chs_s = b ! 7\<rparr>, mp_lba_start = le32 (drop 8 b), mp_lba_length = le32 (drop 12 b)\<rparr>"

definition mbr_parts :: "u8 list \<Rightarrow> mbr_part list" where
  "mbr_parts buf = map (\<lambda>i. mbr_part_of (slice (446 + 16 * i) 16 buf)) [0..<4]"

definition validate_mbr_partition :: "u32 \<Rightarrow> mbr_part \<Rightarrow> int" where
  "validate_mbr_partition block_count part =
     (if mp_type part = 0 then - 1
      else if mp_status part \<noteq> 0x80 \<and> mp_status part \<noteq> 0x00 then - 1
      else if mp_lba_start part \<ge> block_count then - 1
      else if mp_lba_start part + mp_lba_length part > block_count then - 1
      else 0)"

text \<open>\<open>sprintf(devname, "%sp%d", device, i)\<close> into a buffer of \<open>cap\<close> bytes\<close>

definition part_name :: "nat \<Rightarrow> string \<Rightarrow> nat \<Rightarrow> string option" where
  "part_name cap device i = do {
     (s, _) \<leftarrow> sprintf ''%sp%d'' [VStr (Some device), VInt (of_nat i)];
     if length s < cap then Some s else None }"

fun unpublish_loop :: "nat \<Rightarrow> string \<Rightarrow> nat list \<Rightarrow> int \<Rightarrow> bio_t \<Rightarrow> (int \<times> bio_t) option" where
  "unpublish_loop n device [] count b = Some (count, b)"
| "unpublish_loop n device (i # is) count b = do {
     devname \<leftarrow> part_name 512 device i;
     (r, b1) \<leftarrow> bio_open devname b;
     case r of
       None \<Rightarrow> unpublish_loop n device is count b1
     | Some dev \<Rightarrow> do {
         b2 \<leftarrow> bio_unregister_device n dev b1;
         b3 \<leftarrow> bio_close n dev b2;
         unpublish_loop n device is (count + 1) b3 } }"

definition partition_unpublish :: "nat \<Rightarrow> string \<Rightarrow> bio_t \<Rightarrow> (int \<times> bio_t) option" where
  "partition_unpublish n device b = unpublish_loop n device [0..<16] 0 b"

fun publish_loop :: "(bio_t \<Rightarrow> nat) \<Rightarrow> string \<Rightarrow> nat \<Rightarrow> mbr_part list \<Rightarrow> nat list \<Rightarrow> int \<Rightarrow> int \<Rightarrow> bio_t \<Rightarrow> (int \<times> int \<times> bio_t) option" where
  "publish_loop malloc device dev part [] err count b = Some (err, count, b)"
| "publish_loop malloc device dev part (i # is) err count b = do {
     d \<leftarrow> bdev b dev;
     if validate_mbr_partition (b_block_count d) (part ! i) \<ge> 0
     then do {
       subdevice \<leftarrow> part_name 128 device i;
       (err', b') \<leftarrow> bio_publish_subdevice (malloc b) device subdevice (mp_lba_start (part ! i)) (mp_lba_length (part ! i)) b;
       publish_loop malloc device dev part is err' (if err' < 0 then count else count + 1) b' }
     else publish_loop malloc device dev part is err count b }"

definition partition_publish ::
  "bdev_hw \<Rightarrow> nat \<Rightarrow> (bio_t \<Rightarrow> nat) \<Rightarrow> u8 list \<Rightarrow> string \<Rightarrow> int \<Rightarrow> bio_t \<Rightarrow> (int \<times> bio_t) option" where
  "partition_publish hw n malloc stack device offset b = do {
     (_, b0) \<leftarrow> partition_unpublish n device b;
     (r, b1) \<leftarrow> bio_open device b0;
     case r of
       None \<Rightarrow> Some (- 1, b1)
     | Some dev \<Rightarrow> do {
         rd \<leftarrow> bio_read hw n dev offset 512 b1;
         case rd of
           Inl err \<Rightarrow> Some (err, b1)
         | Inr bytes \<Rightarrow> do {
             buf \<leftarrow> memcpy_into 0 bytes stack;
             if length buf < 512 then None
             else if buf ! 510 \<noteq> 0x55 \<or> buf ! 511 \<noteq> 0xaa
             then do { b2 \<leftarrow> bio_close n dev b1; Some (0, b2) }
             else do {
               (err, count, b2) \<leftarrow> publish_loop malloc device dev (mbr_parts buf) [0..<4] (int (length bytes)) 0 b1;
               b3 \<leftarrow> bio_close n dev b2;
               Some (if err < 0 then err else count, b3) } } } }"

subsection \<open>Names\<close>

definition pname :: "string \<Rightarrow> nat \<Rightarrow> string" where
  "pname device i = device @ ''p'' @ dec_digits (of_nat i) []"

lemma small_number:
  assumes "i < 16"
  shows "longlong_to_string (scast (of_nat i :: u32)) SIGNEDFLAG = dec_digits (of_nat i) []"
    and "length (dec_digits (of_nat i) []) \<le> 2"
proof -
  have e: "i \<in> set [0..<16]" using assms by simp
  have "\<forall>i\<in>set [0..<16]. (scast (of_nat i :: u32) :: u64) = of_nat i \<and> \<not> sint (of_nat i :: u64) < 0"
    by (simp add: upt_rec)
  then have "(scast (of_nat i :: u32) :: u64) = of_nat i" "\<not> sint (of_nat i :: u64) < 0" using e by blast+
  then show "longlong_to_string (scast (of_nat i :: u32)) SIGNEDFLAG = dec_digits (of_nat i) []"
    by (simp add: longlong_to_string_def flag_set_def Let_def)
  have "unat (of_nat i :: u64) < 10 ^ Suc 1" using assms by (simp add: unat_of_nat)
  from length_dec_digits [OF this, of "[]"] show "length (dec_digits (of_nat i) []) \<le> 2" by simp
qed

lemma part_name_eq:
  assumes "i < 16" and "length device + 3 < cap" and "cap \<le> 512"
  shows "part_name cap device i = Some (pname device i)"
proof -
  let ?ap = "[VStr (Some device), VInt (of_nat i)]"
  have u: "vsnprintf 0 ''%sp%d'' ?ap = Some (pname device i, [])"
    by (simp add: vsnprintf_def format_flag_def convert_def format_arg_def output_string_0 justified_def flag_set_def
        va_signed_def pname_def small_number(1) [OF assms(1), symmetric])
  have len: "length (pname device i) < cap" using small_number(2) [OF assms(1)] assms(2) by (simp add: pname_def)
  then have "take (INT_MAX - 1) (pname device i) = pname device i" using assms(3) by simp
  then obtain st where "sprintf ''%sp%d'' ?ap = Some (pname device i, st)"
    using vsn_loop_bounded [of "''%sp%d''" ?ap "[]" "[]" "pname device i" "[]" INT_MAX] u
    by (auto simp: sprintf_def vsprintf_def vsnprintf_def simp del: vsn_loop.simps)
  then show ?thesis using len by (simp add: part_name_def)
qed

lemma pname_inj: "i < 16 \<Longrightarrow> j < 16 \<Longrightarrow> pname device i = pname device j \<longleftrightarrow> i = j"
proof -
  assume ij: "i < 16" "j < 16"
  have "i = j" if eq: "pname device i = pname device j"
  proof -
    have "dec_loop (dec_digits (of_nat i) []) 0 = dec_loop (dec_digits (of_nat j) []) 0" using eq by (simp add: pname_def)
    then have "(ucast (of_nat i :: u64) :: u32) = ucast (of_nat j :: u64)" by (simp only: dec_digits_value dec_loop.simps)
    then have "unat (ucast (of_nat i :: u64) :: u32) = unat (ucast (of_nat j :: u64) :: u32)" by simp
    then show ?thesis using ij by (simp add: unsigned_ucast_eq unsigned_of_nat take_bit_nat_eq_self)
  qed
  then show ?thesis by blast
qed

lemma pname_device: "pname device i \<noteq> device"
  by (simp add: pname_def)

abbreviation lookup :: "bio_t \<Rightarrow> string \<Rightarrow> nat option" where
  "lookup b name \<equiv> find (\<lambda>d. map_option b_name (bdev b d) = Some name) (bdev_list b)"

lemma unpublish_nothing:
  assumes "\<forall>i\<in>set is. i < 16 \<and> lookup b (pname device i) = None" and "length device + 3 < 512"
  shows "unpublish_loop n device is count b = Some (count, b)"
  using assms(1)
proof (induction "is")
  case (Cons i "is")
  then have "part_name 512 device i = Some (pname device i)" using part_name_eq assms(2) by simp
  moreover have "bio_open (pname device i) b = Some (None, b)" using Cons.prems by (simp add: bio_open_def)
  ultimately show ?case using Cons by simp
qed simp

subsection \<open>Publishing\<close>

text \<open>An entry that the code accepts, and that lies inside of the device without a wrap and below 4 GiB.\<close>

definition accepted :: "bdev_t \<Rightarrow> mbr_part \<Rightarrow> bool" where
  "accepted pdev part \<longleftrightarrow> validate_mbr_partition (b_block_count pdev) part \<ge> 0"

definition inside :: "bdev_t \<Rightarrow> mbr_part \<Rightarrow> bool" where
  "inside pdev part \<longleftrightarrow> unat (mp_lba_start part) + unat (mp_lba_length part) \<le> unat (b_block_count pdev) \<and>
     unat (mp_lba_start part) * unat (b_block_size pdev) < 2 ^ 32"

text \<open>What the partition shows: its blocks of the device.\<close>

definition part_bytes :: "bdev_t \<Rightarrow> mbr_part \<Rightarrow> u8 list \<Rightarrow> u8 list" where
  "part_bytes pdev part disk =
     slice (unat (mp_lba_start part) * unat (b_block_size pdev)) (unat (mp_lba_length part) * unat (b_block_size pdev)) disk"

definition published :: "nat \<Rightarrow> bio_t \<Rightarrow> string \<Rightarrow> u8 list \<Rightarrow> bool" where
  "published n b name bytes \<longleftrightarrow>
     (\<exists>d dev. d \<in> set (bdev_list b) \<and> bdev b d = Some dev \<and> b_name dev = name \<and> dev_ok n b d \<and> dev_bytes n b d = bytes)"

lemma published_extends:
  assumes "published n b name bytes" and ex: "extends b b'" and "set (bdev_list b) \<subseteq> set (bdev_list b')"
  shows "published n b' name bytes"
proof -
  obtain d dev where d: "d \<in> set (bdev_list b)" "bdev b d = Some dev" "b_name dev = name" "dev_ok n b d" "dev_bytes n b d = bytes"
    using assms(1) by (auto simp: published_def)
  obtain i where "bdev b' d = Some (dev\<lparr>b_ref := i\<rparr>)" using ex d(2) by (auto simp: extends_def)
  then show ?thesis
    using d assms(3) extends_dev [OF ex d(4)] unfolding published_def by (intro exI [of _ d] exI) auto
qed

lemma extends_upd: "bdev b d = Some dev \<Longrightarrow> extends b (upd_bdev d (dev\<lparr>b_ref := i\<rparr>) b)"
  unfolding extends_def
proof (intro allI impI)
  fix x xd assume "bdev b d = Some dev" and "bdev b x = Some xd"
  then show "\<exists>j. bdev (upd_bdev d (dev\<lparr>b_ref := i\<rparr>) b) x = Some (xd\<lparr>b_ref := j\<rparr>)"
    by (cases "x = d"; cases xd) (auto simp: upd_bdev_def)
qed

lemma find_cong_names:
  assumes "\<And>x. x \<in> set xs \<Longrightarrow> map_option b_name (f x) = map_option b_name (g x)"
  shows "find (\<lambda>d. map_option b_name (f d) = Some name) xs = find (\<lambda>d. map_option b_name (g d) = Some name) xs"
  by (rule find_cong) (simp_all only: assms)

lemma publish_loop_ok:
  assumes "dev_ok n b dev" and "bdev b dev = Some pdev" and "lookup b device = Some dev"
    and fresh: "\<And>b. finite (dom (bdev b)) \<Longrightarrow> bdev b (malloc b) = None" and "\<forall>i\<in>set is. i < 16 \<and> (accepted pdev (part ! i) \<longrightarrow> inside pdev (part ! i))"
    and name: "length device + 3 < 128" and "0 \<le> err"
    and "\<forall>x\<in>set (bdev_list b). bdev b x \<noteq> None" and "finite (dom (bdev b))"
  shows "\<exists>err' b' k. publish_loop malloc device dev part is err count b =
      Some (err', count + int (length (filter (\<lambda>i. accepted pdev (part ! i)) is)), b') \<and> 0 \<le> err' \<and> 0 \<le> k \<and> extends b b' \<and>
    set (bdev_list b) \<subseteq> set (bdev_list b') \<and> bdev b' dev = Some (pdev\<lparr>b_ref := b_ref pdev + k\<rparr>) \<and>
    (\<forall>i\<in>set is. accepted pdev (part ! i) \<longrightarrow> published (Suc n) b' (pname device i) (part_bytes pdev (part ! i) (dev_bytes n b dev)))"
  using assms(1-3,5,7-9)
proof (induction "is" arbitrary: b pdev err count)
  case Nil
  then show ?case using extends_refl by (intro exI [of _ err] exI [of _ b] exI [of _ "0 :: int"]) simp
next
  case (Cons i "is")
  show ?case
  proof (cases "accepted pdev (part ! i)")
    case False
    then have "publish_loop malloc device dev part (i # is) err count b = publish_loop malloc device dev part is err count b"
      using Cons.prems(2) by (simp add: accepted_def)
    then show ?thesis using Cons.IH [OF Cons.prems(1-3) _ Cons.prems(5-7), of count] Cons.prems(4) False by simp
  next
    case True
    let ?p = "part ! i"
    note new = fresh [OF Cons.prems(7)]
    have ins: "inside pdev ?p" and i: "i < 16" using Cons.prems(4) True by simp_all
    obtain b1 sub where pub: "bio_publish_subdevice (malloc b) device (pname device i) (mp_lba_start ?p) (mp_lba_length ?p) b = Some (0, b1)"
      and ok: "dev_ok (Suc n) b1 (malloc b)" and l: "bdev_list b1 = malloc b # bdev_list b" and ex: "extends b b1"
      and bytes: "dev_bytes (Suc n) b1 (malloc b) = part_bytes pdev ?p (dev_bytes n b dev)"
      and b1: "bdev b1 = (bdev b)(dev \<mapsto> pdev\<lparr>b_ref := b_ref pdev + 1\<rparr>, malloc b \<mapsto> sub)" and nm: "b_name sub = pname device i"
      using publish_sub [OF Cons.prems(1-3) new, of "mp_lba_start ?p" "mp_lba_length ?p"] ins
      unfolding inside_def part_bytes_def by metis
    let ?pdev = "pdev\<lparr>b_ref := b_ref pdev + 1\<rparr>"
    have md: "malloc b \<noteq> dev" using new Cons.prems(2) by auto
    have d1: "bdev b1 dev = Some ?pdev" using b1 md by simp
    have mf: "malloc b \<notin> set (bdev_list b)" using new Cons.prems(6) by auto
    have "lookup b1 device = find (\<lambda>d. map_option b_name (bdev b1 d) = Some device) (bdev_list b)"
      using l b1 nm pname_device [of device i] by simp
    also have "\<dots> = lookup b device" by (rule find_cong_names) (use b1 mf Cons.prems(2) in auto)
    finally have lk: "lookup b1 device = Some dev" using Cons.prems(3) by simp
    have acc: "accepted ?pdev = accepted pdev" "inside ?pdev = inside pdev" "part_bytes ?pdev = part_bytes pdev"
      by (simp_all add: accepted_def inside_def part_bytes_def fun_eq_iff)
    have al: "\<forall>x\<in>set (bdev_list b1). bdev b1 x \<noteq> None" using Cons.prems(6) l b1 by auto
    have fin: "finite (dom (bdev b1))" using Cons.prems(7) b1 by simp
    have ok1: "dev_ok n b1 dev" "dev_bytes n b1 dev = dev_bytes n b dev" using extends_dev [OF ex Cons.prems(1)] by simp_all
    obtain err' b' k where IH: "publish_loop malloc device dev part is 0 (count + 1) b1 =
        Some (err', count + 1 + int (length (filter (\<lambda>i. accepted pdev (part ! i)) is)), b')" "0 \<le> err'" "0 \<le> k" "extends b1 b'"
      "set (bdev_list b1) \<subseteq> set (bdev_list b')" "bdev b' dev = Some (?pdev\<lparr>b_ref := b_ref ?pdev + k\<rparr>)"
      "\<forall>i\<in>set is. accepted pdev (part ! i) \<longrightarrow> published (Suc n) b' (pname device i) (part_bytes pdev (part ! i) (dev_bytes n b dev))"
      using Cons.IH [OF ok1(1) d1 lk _ _ al fin, of 0 "count + 1"] Cons.prems(4) unfolding acc ok1(2) by auto
    have "publish_loop malloc device dev part (i # is) err count b = publish_loop malloc device dev part is 0 (count + 1) b1"
      using True Cons.prems(2) part_name_eq [OF i name] pub by (simp add: accepted_def)
    moreover have "published (Suc n) b1 (pname device i) (part_bytes pdev ?p (dev_bytes n b dev))"
      unfolding published_def using l b1 nm ok bytes by (intro exI [of _ "malloc b"] exI [of _ sub]) simp
    then have "published (Suc n) b' (pname device i) (part_bytes pdev ?p (dev_bytes n b dev))"
      using published_extends IH(4,5) by blast
    ultimately show ?thesis
      using IH True extends_trans [OF ex IH(4)] l
      by (intro exI [of _ err'] exI [of _ b'] exI [of _ "k + 1"]) (auto simp: algebra_simps)
  qed
qed


definition example_disk :: "u8 list" where
  "example_disk = replicate 446 0 @ [0x80, 0, 0, 0, 0x83, 0, 0, 0, 1, 0, 0, 0, 2, 0, 0, 0] @ replicate 48 0 @ [0x55, 0xaa] @ replicate 1536 7"

definition example_malloc :: "bio_t \<Rightarrow> nat" where
  "example_malloc b = Suc (Max (insert 0 (dom (bdev b))))"

lemma example_malloc_fresh: "finite (dom (bdev b)) \<Longrightarrow> bdev b (example_malloc b) = None"
proof (rule ccontr)
  assume f: "finite (dom (bdev b))" and "bdev b (example_malloc b) \<noteq> None"
  then have "example_malloc b \<in> insert 0 (dom (bdev b))" by auto
  then have "example_malloc b \<le> Max (insert 0 (dom (bdev b)))" using f by (intro Max_ge) auto
  then show False by (simp add: example_malloc_def)
qed


end
