(* ===== verification/LK_Bcache.thy ===== *)
theory LK_Bcache
  imports LK_Bio_View
begin

text \<open>
  The block cache (\<^verbatim>\<open>lib/bcache/bcache.c\<close>). A cache block is selected by its index in the array of
  blocks; the two lists of the cache are lists of indices. The device is a parameter: the functions
  that stand for \<open>bio_read(cache->dev, ...)\<close> and \<open>bio_write(cache->dev, ...)\<close> and its state; the cache
  is proved correct for every device that transfers bytes, and the block devices of \<^verbatim>\<open>lib/bio\<close> are
  shown to be such devices. \<open>None\<close> is the access through a null pointer.
\<close>

subsection \<open>The cache\<close>

record bcache_block =
  bb_blocknum :: u32
  bb_ref_count :: int
  bb_is_dirty :: bool
  bb_ptr :: "u8 list"

record bcache_stats =
  st_hits :: u32
  st_depth :: u32
  st_misses :: u32
  st_reads :: u32
  st_writes :: u32

text \<open>
  \<open>bc_linked\<close> is false once a node has been added to a list while it was on another one; the links of
  the lists are then broken, and no list of the cache can be walked any more.
\<close>

record bcache =
  bc_block_size :: nat
  bc_count :: nat
  bc_stats :: bcache_stats
  bc_free_list :: "nat list"
  bc_lru_list :: "nat list"
  bc_blocks :: "bcache_block list"
  bc_linked :: bool

record 's bdev_io =
  io_read :: "int \<Rightarrow> nat \<Rightarrow> 's \<Rightarrow> u8 list xfer"
  io_write :: "u8 list \<Rightarrow> int \<Rightarrow> 's \<Rightarrow> ((int + nat) \<times> 's) option"

definition upd_block :: "nat \<Rightarrow> (bcache_block \<Rightarrow> bcache_block) \<Rightarrow> bcache \<Rightarrow> bcache" where
  "upd_block i f c = c\<lparr>bc_blocks := (bc_blocks c)[i := f (bc_blocks c ! i)]\<rparr>"

text \<open>\<open>bufs\<close> are the buffers \<open>malloc\<close> returns for the blocks, the first one for block 0.\<close>

definition bcache_create :: "nat \<Rightarrow> u8 list list \<Rightarrow> u32 list \<Rightarrow> bcache" where
  "bcache_create block_size bufs nums =
     \<lparr>bc_block_size = block_size, bc_count = length bufs,
      bc_stats = \<lparr>st_hits = 0, st_depth = 0, st_misses = 0, st_reads = 0, st_writes = 0\<rparr>,
      bc_free_list = rev [0..<length bufs], bc_lru_list = [],
      bc_blocks = map (\<lambda>(buf, num). \<lparr>bb_blocknum = num, bb_ref_count = 0, bb_is_dirty = False, bb_ptr = buf\<rparr>) (zip bufs nums),
      bc_linked = True\<rparr>"

definition block_offset :: "bcache \<Rightarrow> u32 \<Rightarrow> int" where
  "block_offset c blocknum = uint blocknum * int (bc_block_size c)"

definition flush_block :: "'s bdev_io \<Rightarrow> nat \<Rightarrow> bcache \<times> 's \<Rightarrow> (int \<times> bcache \<times> 's) option" where
  "flush_block io i = (\<lambda>(c, s). do {
     let block = bc_blocks c ! i;
     (rc, s') \<leftarrow> io_write io (bb_ptr block) (block_offset c (bb_blocknum block)) s;
     case rc of
       Inl err \<Rightarrow> Some (err, c, s')
     | Inr _ \<Rightarrow>
         Some (0, (upd_block i (\<lambda>b. b\<lparr>bb_is_dirty := False\<rparr>) c)
                    \<lparr>bc_stats := (bc_stats c)\<lparr>st_writes := st_writes (bc_stats c) + 1\<rparr>\<rparr>, s') })"

text \<open>\<open>find_block\<close> returns a block by its number and moves it to the end of the list.\<close>

fun find_pos :: "(nat \<Rightarrow> bool) \<Rightarrow> nat list \<Rightarrow> nat \<Rightarrow> (nat \<times> nat) option" where
  "find_pos p [] depth = None"
| "find_pos p (i # is) depth = (if p i then Some (i, depth + 1) else find_pos p is (depth + 1))"

definition find_block :: "u32 \<Rightarrow> bcache \<Rightarrow> (nat option \<times> bcache) option" where
  "find_block blocknum c =
     (if \<not> bc_linked c then None
      else case find_pos (\<lambda>i. bb_blocknum (bc_blocks c ! i) = blocknum) (bc_lru_list c) 0 of
        Some (i, depth) \<Rightarrow>
          Some (Some i, c\<lparr>bc_lru_list := remove1 i (bc_lru_list c) @ [i],
                          bc_stats := (bc_stats c)\<lparr>st_hits := st_hits (bc_stats c) + 1,
                                                  st_depth := st_depth (bc_stats c) + of_nat depth\<rparr>\<rparr>)
      | None \<Rightarrow> Some (None, c\<lparr>bc_stats := (bc_stats c)\<lparr>st_misses := st_misses (bc_stats c) + 1\<rparr>\<rparr>))"

definition alloc_block :: "'s bdev_io \<Rightarrow> bcache \<times> 's \<Rightarrow> (nat option \<times> bcache \<times> 's) option" where
  "alloc_block io = (\<lambda>(c, s).
     if \<not> bc_linked c then None
     else case bc_free_list c of
       i # free \<Rightarrow>
         Some (Some i, (upd_block i (\<lambda>b. b\<lparr>bb_ref_count := 0\<rparr>) c)\<lparr>bc_free_list := free, bc_lru_list := bc_lru_list c @ [i]\<rparr>, s)
     | [] \<Rightarrow>
         (case find (\<lambda>i. bb_ref_count (bc_blocks c ! i) = 0) (bc_lru_list c) of
            None \<Rightarrow> Some (None, c, s)
          | Some i \<Rightarrow> do {
              (err, c', s') \<leftarrow> (if bb_is_dirty (bc_blocks c ! i) then flush_block io i (c, s) else Some (0, c, s));
              if err \<noteq> 0 then Some (None, c', s')
              else Some (Some i, c'\<lparr>bc_lru_list := remove1 i (bc_lru_list c') @ [i]\<rparr>, s') }))"

text \<open>
  \<open>find_or_fill_block\<close>: the result of \<open>alloc_block\<close> is used without a test. A failed read puts the
  block on the free list while it is on the other list.
\<close>

definition find_or_fill_block :: "'s bdev_io \<Rightarrow> u32 \<Rightarrow> bcache \<times> 's \<Rightarrow> (nat option \<times> bcache \<times> 's) option" where
  "find_or_fill_block io blocknum = (\<lambda>(c, s). do {
     (r, c1) \<leftarrow> find_block blocknum c;
     case r of
       Some i \<Rightarrow> Some (Some i, c1, s)
     | None \<Rightarrow> do {
         (r2, c2, s2) \<leftarrow> alloc_block io (c1, s);
         i \<leftarrow> r2;
         let c3 = upd_block i (\<lambda>b. b\<lparr>bb_blocknum := blocknum\<rparr>) c2;
         rd \<leftarrow> io_read io (block_offset c3 blocknum) (bc_block_size c3) s2;
         case rd of
           Inl err \<Rightarrow> Some (None, c3\<lparr>bc_free_list := bc_free_list c3 @ [i], bc_linked := False\<rparr>, s2)
         | Inr bytes \<Rightarrow> do {
             ptr \<leftarrow> memcpy_into 0 bytes (bb_ptr (bc_blocks c3 ! i));
             let c4 = upd_block i (\<lambda>b. b\<lparr>bb_ptr := ptr\<rparr>) c3;
             Some (Some i, c4\<lparr>bc_stats := (bc_stats c4)\<lparr>st_reads := st_reads (bc_stats c4) + 1\<rparr>\<rparr>, s2) } } })"

definition bcache_read_block :: "'s bdev_io \<Rightarrow> u32 \<Rightarrow> bcache \<times> 's \<Rightarrow> ((int + u8 list) \<times> bcache \<times> 's) option" where
  "bcache_read_block io blocknum = (\<lambda>(c, s). do {
     (r, c', s') \<leftarrow> find_or_fill_block io blocknum (c, s);
     case r of
       None \<Rightarrow> Some (Inl (- 1), c', s')
     | Some i \<Rightarrow> do { buf \<leftarrow> copy_out 0 (bc_block_size c') (bb_ptr (bc_blocks c' ! i)); Some (Inr buf, c', s') } })"

text \<open>\<open>bcache_get_block\<close> hands out the buffer of a block: its index stands for the pointer.\<close>

definition bcache_get_block :: "'s bdev_io \<Rightarrow> u32 \<Rightarrow> bcache \<times> 's \<Rightarrow> ((int + nat) \<times> bcache \<times> 's) option" where
  "bcache_get_block io blocknum = (\<lambda>(c, s). do {
     (r, c', s') \<leftarrow> find_or_fill_block io blocknum (c, s);
     case r of
       None \<Rightarrow> Some (Inl (- 1), c', s')
     | Some i \<Rightarrow> Some (Inr i, upd_block i (\<lambda>b. b\<lparr>bb_ref_count := bb_ref_count b + 1\<rparr>) c', s') })"

definition bcache_put_block :: "u32 \<Rightarrow> bcache \<Rightarrow> (int \<times> bcache) option" where
  "bcache_put_block blocknum c = do {
     (r, c') \<leftarrow> find_block blocknum c;
     i \<leftarrow> r;
     Some (0, upd_block i (\<lambda>b. b\<lparr>bb_ref_count := bb_ref_count b - 1\<rparr>) c') }"

definition bcache_mark_block_dirty :: "u32 \<Rightarrow> bcache \<Rightarrow> (int \<times> bcache) option" where
  "bcache_mark_block_dirty blocknum c = do {
     (r, c') \<leftarrow> find_block blocknum c;
     case r of
       None \<Rightarrow> Some (- 1, c')
     | Some i \<Rightarrow> Some (0, upd_block i (\<lambda>b. b\<lparr>bb_is_dirty := True\<rparr>) c') }"

definition bcache_zero_block :: "'s bdev_io \<Rightarrow> u32 \<Rightarrow> bcache \<times> 's \<Rightarrow> (int \<times> bcache \<times> 's) option" where
  "bcache_zero_block io blocknum = (\<lambda>(c, s). do {
     (r, c1) \<leftarrow> find_block blocknum c;
     (r2, c2, s2) \<leftarrow> (case r of
        Some i \<Rightarrow> Some (Some i, c1, s)
      | None \<Rightarrow> do {
          (r', c', s') \<leftarrow> alloc_block io (c1, s);
          Some (case r' of
            None \<Rightarrow> (None, c', s')
          | Some i \<Rightarrow> (Some i, upd_block i (\<lambda>b. b\<lparr>bb_blocknum := blocknum\<rparr>) c', s')) });
     case r2 of
       None \<Rightarrow> Some (- 1, c2, s2)
     | Some i \<Rightarrow> Some (0, upd_block i (\<lambda>b. b\<lparr>bb_ptr := replicate (bc_block_size c2) 0 @ drop (bc_block_size c2) (bb_ptr b),
                                              bb_is_dirty := True\<rparr>) c2, s2) })"

fun flush_loop :: "'s bdev_io \<Rightarrow> nat list \<Rightarrow> bcache \<times> 's \<Rightarrow> (int \<times> bcache \<times> 's) option" where
  "flush_loop io [] (c, s) = Some (0, c, s)"
| "flush_loop io (i # is) (c, s) =
     (if bb_is_dirty (bc_blocks c ! i)
      then do {
        (err, c', s') \<leftarrow> flush_block io i (c, s);
        if err \<noteq> 0 then Some (err, c', s') else flush_loop io is (c', s') }
      else flush_loop io is (c, s))"

definition bcache_flush :: "'s bdev_io \<Rightarrow> bcache \<times> 's \<Rightarrow> (int \<times> bcache \<times> 's) option" where
  "bcache_flush io = (\<lambda>(c, s). if \<not> bc_linked c then None else flush_loop io (bc_lru_list c) (c, s))"

text \<open>\<open>bcache_destroy\<close> frees the blocks; it warns of those that are lost.\<close>

definition bcache_destroy :: "bcache \<Rightarrow> u32 list" where
  "bcache_destroy c = map bb_blocknum (filter bb_is_dirty (bc_blocks c))"

subsection \<open>The invariant and the view of the cache\<close>

text \<open>
  What block \<open>k\<close> is for a client: the buffer of a cache block that holds it, or else the bytes of the
  device. \<open>xs\<close> are the indices of the blocks that hold something.
\<close>

definition on_disk :: "nat \<Rightarrow> u8 list \<Rightarrow> u32 \<Rightarrow> u8 list" where
  "on_disk bs disk k = slice (unat k * bs) bs disk"

definition view_of :: "nat list \<Rightarrow> bcache \<Rightarrow> u8 list \<Rightarrow> u32 \<Rightarrow> u8 list" where
  "view_of xs c disk k =
     (case find (\<lambda>i. bb_blocknum (bc_blocks c ! i) = k) xs of
        Some i \<Rightarrow> bb_ptr (bc_blocks c ! i)
      | None \<Rightarrow> on_disk (bc_block_size c) disk k)"

abbreviation view :: "bcache \<Rightarrow> u8 list \<Rightarrow> u32 \<Rightarrow> u8 list" where
  "view c disk \<equiv> view_of (bc_lru_list c) c disk"

definition in_dev :: "nat \<Rightarrow> u8 list \<Rightarrow> u32 \<Rightarrow> bool" where
  "in_dev bs disk k \<longleftrightarrow> (unat k + 1) * bs \<le> length disk"

text \<open>
  Every block is on exactly one list; the blocks of \<open>xs\<close> hold distinct blocks of the device, and those
  that are not dirty hold what the device holds.
\<close>

definition lists_ok :: "bcache \<Rightarrow> bool" where
  "lists_ok c \<longleftrightarrow> bc_linked c \<and> length (bc_blocks c) = bc_count c \<and> distinct (bc_free_list c @ bc_lru_list c) \<and>
     set (bc_free_list c @ bc_lru_list c) = {..<bc_count c} \<and> (\<forall>i < bc_count c. length (bb_ptr (bc_blocks c ! i)) = bc_block_size c)"

definition holds_ok :: "nat list \<Rightarrow> bcache \<Rightarrow> u8 list \<Rightarrow> bool" where
  "holds_ok xs c disk \<longleftrightarrow> inj_on (\<lambda>i. bb_blocknum (bc_blocks c ! i)) (set xs) \<and>
     (\<forall>i\<in>set xs. in_dev (bc_block_size c) disk (bb_blocknum (bc_blocks c ! i)) \<and>
        (\<not> bb_is_dirty (bc_blocks c ! i) \<longrightarrow> bb_ptr (bc_blocks c ! i) = on_disk (bc_block_size c) disk (bb_blocknum (bc_blocks c ! i))))"

definition bc_ok :: "bcache \<Rightarrow> u8 list \<Rightarrow> bool" where
  "bc_ok c disk \<longleftrightarrow> lists_ok c \<and> holds_ok (bc_lru_list c) c disk"

subsection \<open>Lemmas on the view\<close>

lemma view_hit:
  assumes "inj_on (\<lambda>i. bb_blocknum (bc_blocks c ! i)) (set xs)" and "i \<in> set xs" and "bb_blocknum (bc_blocks c ! i) = k"
  shows "view_of xs c disk k = bb_ptr (bc_blocks c ! i)"
proof -
  obtain j where j: "find (\<lambda>i. bb_blocknum (bc_blocks c ! i) = k) xs = Some j"
    using assms(2,3) by (cases "find (\<lambda>i. bb_blocknum (bc_blocks c ! i) = k) xs") (auto simp: find_None_iff)
  then have "j \<in> set xs" "bb_blocknum (bc_blocks c ! j) = k" by (auto simp: find_Some_iff)
  then have "j = i" using assms by (metis (mono_tags, lifting) inj_onD)
  then show ?thesis using j by (simp add: view_of_def)
qed

lemma view_miss: "\<forall>i\<in>set xs. bb_blocknum (bc_blocks c ! i) \<noteq> k \<Longrightarrow> view_of xs c disk k = on_disk (bc_block_size c) disk k"
  by (simp add: view_of_def) (metis (mono_tags, lifting) find_None_iff option.simps(4))

lemma view_cong:
  assumes "inj_on (\<lambda>i. bb_blocknum (bc_blocks c ! i)) (set xs)" and "set ys = set xs"
    and "\<And>i. i \<in> set xs \<Longrightarrow> bb_blocknum (bc_blocks c' ! i) = bb_blocknum (bc_blocks c ! i) \<and> bb_ptr (bc_blocks c' ! i) = bb_ptr (bc_blocks c ! i)"
    and "bc_block_size c' = bc_block_size c"
    and "\<forall>i\<in>set xs. bb_blocknum (bc_blocks c ! i) \<noteq> k \<Longrightarrow> on_disk (bc_block_size c) disk' k = on_disk (bc_block_size c) disk k"
  shows "view_of ys c' disk' k = view_of xs c disk k"
proof (cases "\<exists>i\<in>set xs. bb_blocknum (bc_blocks c ! i) = k")
  case True
  then obtain i where i: "i \<in> set xs" "bb_blocknum (bc_blocks c ! i) = k" by blast
  have "inj_on (\<lambda>i. bb_blocknum (bc_blocks c' ! i)) (set ys)"
    using assms(1-3) by (simp add: inj_on_def)
  then show ?thesis using view_hit [OF assms(1) i] view_hit [of c' ys i k disk'] i assms(2,3) by simp
next
  case False
  then show ?thesis using view_miss [of xs c k disk] view_miss [of ys c' k disk'] assms(2-5) by simp
qed

lemma holds_okD:
  assumes "holds_ok xs c disk"
  shows "inj_on (\<lambda>i. bb_blocknum (bc_blocks c ! i)) (set xs)"
    and "i \<in> set xs \<Longrightarrow> in_dev (bc_block_size c) disk (bb_blocknum (bc_blocks c ! i))"
    and "i \<in> set xs \<Longrightarrow> \<not> bb_is_dirty (bc_blocks c ! i) \<Longrightarrow>
      bb_ptr (bc_blocks c ! i) = on_disk (bc_block_size c) disk (bb_blocknum (bc_blocks c ! i))"
  using assms by (auto simp: holds_ok_def)

lemma holds_ok_subset: "holds_ok xs c disk \<Longrightarrow> set ys \<subseteq> set xs \<Longrightarrow> holds_ok ys c disk"
  by (auto simp: holds_ok_def intro: inj_on_subset)

lemma lists_okD:
  assumes "lists_ok c"
  shows "bc_linked c" and "length (bc_blocks c) = bc_count c" and "distinct (bc_free_list c)" and "distinct (bc_lru_list c)"
    and "set (bc_free_list c) \<inter> set (bc_lru_list c) = {}" and "set (bc_free_list c) \<union> set (bc_lru_list c) = {..<bc_count c}"
    and "i < bc_count c \<Longrightarrow> length (bb_ptr (bc_blocks c ! i)) = bc_block_size c"
  using assms by (auto simp: lists_ok_def)

lemma lru_index: "lists_ok c \<Longrightarrow> i \<in> set (bc_lru_list c) \<Longrightarrow> i < length (bc_blocks c)"
  using lists_okD(2,6) by auto

lemma find_pos_SomeD: "find_pos p xs d = Some (i, e) \<Longrightarrow> i \<in> set xs \<and> p i"
  by (induction xs arbitrary: d) (auto split: if_splits)

lemma find_pos_None: "find_pos p xs d = None \<longleftrightarrow> (\<forall>i\<in>set xs. \<not> p i)"
  by (induction xs arbitrary: d) auto

text \<open>Different blocks do not overlap on the device.\<close>

lemma on_disk_blit:
  assumes "in_dev bs disk j" and "length buf = bs"
  shows "on_disk bs (blit (unat j * bs) buf disk) k = (if k = j then buf else on_disk bs disk k)"
proof -
  have le: "unat j * bs + length buf \<le> length disk" using assms by (simp add: in_dev_def)
  show ?thesis
  proof (cases "k = j")
    case True
    then show ?thesis using slice_blit [OF le] assms(2) by (simp add: on_disk_def)
  next
    case False
    then have "unat k \<noteq> unat j" by (simp add: word_unat_eq_iff)
    then have "unat k + 1 \<le> unat j \<or> unat j + 1 \<le> unat k" by linarith
    then have "(unat k + 1) * bs \<le> unat j * bs \<or> (unat j + 1) * bs \<le> unat k * bs" using mult_le_mono1 by blast
    then show ?thesis using slice_blit_other [OF le, of "unat k * bs" bs] assms(2) False by (auto simp: on_disk_def)
  qed
qed

lemma find_block_hit:
  assumes ok: "bc_ok c disk" and hit: "\<exists>i\<in>set (bc_lru_list c). bb_blocknum (bc_blocks c ! i) = k"
  obtains i c' where "find_block k c = Some (Some i, c')" and "i \<in> set (bc_lru_list c')" and "bb_blocknum (bc_blocks c' ! i) = k"
    and "bc_blocks c' = bc_blocks c" and "bc_ok c' disk" and "bc_block_size c' = bc_block_size c" and "\<And>j. view c' disk j = view c disk j"
    and "bc_free_list c' = bc_free_list c" and "set (bc_lru_list c') = set (bc_lru_list c)"
proof -
  have l: "lists_ok c" and h: "holds_ok (bc_lru_list c) c disk" using ok by (simp_all add: bc_ok_def)
  let ?p = "\<lambda>i. bb_blocknum (bc_blocks c ! i) = k"
  obtain i d where f: "find_pos ?p (bc_lru_list c) 0 = Some (i, d)"
    using hit find_pos_None [of ?p "bc_lru_list c" 0] by (cases "find_pos ?p (bc_lru_list c) 0") auto
  then have i: "i \<in> set (bc_lru_list c)" "bb_blocknum (bc_blocks c ! i) = k" using find_pos_SomeD by fastforce+
  define c' where "c' = c\<lparr>bc_lru_list := remove1 i (bc_lru_list c) @ [i],
    bc_stats := (bc_stats c)\<lparr>st_hits := st_hits (bc_stats c) + 1, st_depth := st_depth (bc_stats c) + of_nat d\<rparr>\<rparr>"
  have fb: "find_block k c = Some (Some i, c')" using f lists_okD(1) [OF l] by (simp add: find_block_def c'_def)
  have sel: "bc_blocks c' = bc_blocks c" "bc_block_size c' = bc_block_size c" "bc_free_list c' = bc_free_list c" "bc_count c' = bc_count c"
    "bc_linked c' = bc_linked c" "bc_lru_list c' = remove1 i (bc_lru_list c) @ [i]" by (simp_all add: c'_def)
  have st: "set (bc_lru_list c') = set (bc_lru_list c)" "distinct (bc_lru_list c')"
    using i lists_okD(4) [OF l] by (auto simp: sel(6) set_remove1_eq)
  have "lists_ok c'" using l st i unfolding lists_ok_def distinct_append set_append sel(1-5) by blast
  moreover have "holds_ok (bc_lru_list c') c' disk" using h by (simp add: holds_ok_def st(1) sel(1,2))
  ultimately have ok': "bc_ok c' disk" by (simp add: bc_ok_def)
  have "view c' disk j = view c disk j" for j
    by (rule view_cong [OF holds_okD(1) [OF h] st(1)]) (simp_all add: sel)
  then show thesis using that [OF fb _ _ sel(1) ok' sel(2) _ sel(3) st(1)] i st(1) sel(1) by simp
qed

lemma find_block_miss:
  assumes "lists_ok c" and "\<forall>i\<in>set (bc_lru_list c). bb_blocknum (bc_blocks c ! i) \<noteq> k"
  shows "find_block k c = Some (None, c\<lparr>bc_stats := (bc_stats c)\<lparr>st_misses := st_misses (bc_stats c) + 1\<rparr>\<rparr>)"
proof -
  have "find_pos (\<lambda>i. bb_blocknum (bc_blocks c ! i) = k) (bc_lru_list c) 0 = None"
    using assms(2) by (simp add: find_pos_None)
  then show ?thesis using lists_okD(1) [OF assms(1)] by (simp add: find_block_def)
qed

text \<open>Putting a block of the device into the last block of the list.\<close>

lemma install:
  assumes l: "lists_ok c" and lru: "bc_lru_list c = xs @ [i]" and h: "holds_ok xs c disk"
    and k: "in_dev (bc_block_size c) disk k" "\<forall>j\<in>set xs. bb_blocknum (bc_blocks c ! j) \<noteq> k"
    and blk: "bb_blocknum blk = k" "length (bb_ptr blk) = bc_block_size c"
      "bb_is_dirty blk \<or> bb_ptr blk = on_disk (bc_block_size c) disk k"
    and c': "bc_blocks c' = (bc_blocks c)[i := blk]" "bc_lru_list c' = bc_lru_list c" "bc_free_list c' = bc_free_list c"
      "bc_count c' = bc_count c" "bc_linked c' = bc_linked c" "bc_block_size c' = bc_block_size c"
  shows "bc_ok c' disk" and "view c' disk j = (if j = k then bb_ptr blk else view_of xs c disk j)"
proof -
  have d: "distinct (xs @ [i])" using lists_okD(4) [OF l] lru by simp
  have il: "i < length (bc_blocks c)" using lru_index [OF l, of i] lru by simp
  have at: "bc_blocks c' ! i = blk" "\<And>x. x \<in> set xs \<Longrightarrow> bc_blocks c' ! x = bc_blocks c ! x"
    using d il by (auto simp: c'(1) nth_list_update)
  have "lists_ok c'" using l blk(2) il unfolding lists_ok_def c'(2-6) by (auto simp: c'(1) nth_list_update)
  moreover have inj: "inj_on (\<lambda>x. bb_blocknum (bc_blocks c' ! x)) (set (xs @ [i]))"
    using holds_okD(1) [OF h] at k(2) blk(1) by (auto simp: inj_on_def)
  moreover have "holds_ok (bc_lru_list c') c' disk"
    unfolding holds_ok_def c'(2,6) lru using inj h at k(1) blk by (auto simp: holds_ok_def)
  ultimately show "bc_ok c' disk" by (simp add: bc_ok_def)
  show "view c' disk j = (if j = k then bb_ptr blk else view_of xs c disk j)"
  proof (cases "j = k")
    case True
    then show ?thesis using view_hit [OF inj, of i k disk] at(1) blk(1) c'(2) lru by simp
  next
    case False
    then have "find (\<lambda>x. bb_blocknum (bc_blocks c' ! x) = j) (xs @ [i]) = find (\<lambda>x. bb_blocknum (bc_blocks c' ! x) = j) xs"
      using at(1) blk(1) by (induction xs) auto
    also have "\<dots> = find (\<lambda>x. bb_blocknum (bc_blocks c ! x) = j) xs" by (rule find_cong) (simp_all add: at(2))
    finally have f: "find (\<lambda>x. bb_blocknum (bc_blocks c' ! x) = j) (xs @ [i]) = find (\<lambda>x. bb_blocknum (bc_blocks c ! x) = j) xs" .
    show ?thesis
    proof (cases "find (\<lambda>x. bb_blocknum (bc_blocks c ! x) = j) xs")
      case (Some x)
      then have "x \<in> set xs" by (auto simp: find_Some_iff)
      then show ?thesis using False f Some at(2) c'(2) lru by (simp add: view_of_def)
    qed (use False f c'(2,6) lru in \<open>simp add: view_of_def\<close>)
  qed
qed

lemma modify_ok:
  assumes ok: "bc_ok c disk" and i: "i \<in> set (bc_lru_list c)"
    and f: "bb_blocknum (f (bc_blocks c ! i)) = bb_blocknum (bc_blocks c ! i)" "length (bb_ptr (f (bc_blocks c ! i))) = bc_block_size c"
      "bb_is_dirty (f (bc_blocks c ! i)) \<or> \<not> bb_is_dirty (bc_blocks c ! i) \<and> bb_ptr (f (bc_blocks c ! i)) = bb_ptr (bc_blocks c ! i)"
  shows "bc_ok (upd_block i f c) disk"
    and "view (upd_block i f c) disk j = (if j = bb_blocknum (bc_blocks c ! i) then bb_ptr (f (bc_blocks c ! i)) else view c disk j)"
proof -
  have l: "lists_ok c" and h: "holds_ok (bc_lru_list c) c disk" using ok by (simp_all add: bc_ok_def)
  have il: "i < length (bc_blocks c)" by (rule lru_index [OF l i])
  let ?c = "upd_block i f c"
  have sel: "bc_lru_list ?c = bc_lru_list c" "bc_free_list ?c = bc_free_list c" "bc_count ?c = bc_count c" "bc_linked ?c = bc_linked c"
    "bc_block_size ?c = bc_block_size c" by (simp_all add: upd_block_def)
  have at: "bc_blocks ?c ! x = (if x = i then f (bc_blocks c ! i) else bc_blocks c ! x)" for x
    using il by (simp add: upd_block_def nth_list_update)
  have num: "bb_blocknum (bc_blocks ?c ! x) = bb_blocknum (bc_blocks c ! x)" for x using f(1) by (simp add: at)
  have "lists_ok ?c" using l f(2) unfolding lists_ok_def sel by (auto simp: at) (simp add: upd_block_def)
  moreover have "holds_ok (bc_lru_list c) ?c disk"
    using h f unfolding holds_ok_def sel num by (auto simp: at split: if_splits)
  ultimately show "bc_ok ?c disk" by (simp add: bc_ok_def sel)
  have inj: "inj_on (\<lambda>x. bb_blocknum (bc_blocks ?c ! x)) (set (bc_lru_list c))" using holds_okD(1) [OF h] unfolding num .
  show "view ?c disk j = (if j = bb_blocknum (bc_blocks c ! i) then bb_ptr (f (bc_blocks c ! i)) else view c disk j)"
  proof (cases "\<exists>x\<in>set (bc_lru_list c). bb_blocknum (bc_blocks c ! x) = j")
    case True
    then obtain x where x: "x \<in> set (bc_lru_list c)" "bb_blocknum (bc_blocks c ! x) = j" by blast
    have "x = i" if "j = bb_blocknum (bc_blocks c ! i)" using that x i holds_okD(1) [OF h] by (auto dest: inj_onD)
    then show ?thesis
      using view_hit [OF inj x(1), of j disk] view_hit [OF holds_okD(1) [OF h] x, of disk] x(2) num by (auto simp: sel at)
  next
    case False
    then have "j \<noteq> bb_blocknum (bc_blocks c ! i)" using i by blast
    then show ?thesis using False view_miss [of "bc_lru_list c" ?c j disk] view_miss [of "bc_lru_list c" c j disk] num by (simp add: sel)
  qed
qed

lemma upd_block_upd_block: "i < length (bc_blocks c) \<Longrightarrow> upd_block i g (upd_block i f c) = upd_block i (\<lambda>b. g (f b)) c"
  by (simp add: upd_block_def)

lemma find_block_upd:
  assumes "i < length (bc_blocks c)" and "bb_blocknum (f (bc_blocks c ! i)) = bb_blocknum (bc_blocks c ! i)"
  shows "find_block k (upd_block i f c) = map_option (\<lambda>(r, c'). (r, upd_block i f c')) (find_block k c)"
proof -
  have "bb_blocknum (bc_blocks (upd_block i f c) ! x) = bb_blocknum (bc_blocks c ! x)" for x
    using assms by (auto simp: upd_block_def nth_list_update)
  moreover have "bc_lru_list (upd_block i f c) = bc_lru_list c" "bc_linked (upd_block i f c) = bc_linked c"
    "bc_stats (upd_block i f c) = bc_stats c" by (simp_all add: upd_block_def)
  ultimately show ?thesis by (simp add: find_block_def split: option.split) (simp add: upd_block_def)
qed

subsection \<open>The cache on a device that transfers bytes\<close>

text \<open>A block that can be had without taking it from a client.\<close>

definition room :: "bcache \<Rightarrow> bool" where
  "room c \<longleftrightarrow> bc_free_list c \<noteq> [] \<or> (\<exists>i\<in>set (bc_lru_list c). bb_ref_count (bc_blocks c ! i) = 0)"

definition cache_ok :: "('s \<Rightarrow> bool) \<Rightarrow> ('s \<Rightarrow> u8 list) \<Rightarrow> bcache \<times> 's \<Rightarrow> bool" where
  "cache_ok valid disk = (\<lambda>(c, s). valid s \<and> bc_ok c (disk s) \<and> bc_block_size c < 2 ^ 32)"

text \<open>The outcome of an operation that makes the view \<open>f\<close>.\<close>

definition step_ok :: "('s \<Rightarrow> bool) \<Rightarrow> ('s \<Rightarrow> u8 list) \<Rightarrow> (u32 \<Rightarrow> u8 list) \<Rightarrow> bcache \<times> 's \<Rightarrow> bcache \<times> 's \<Rightarrow> bool" where
  "step_ok valid disk f cs cs' \<longleftrightarrow> cache_ok valid disk cs' \<and> bc_block_size (fst cs') = bc_block_size (fst cs) \<and>
     length (disk (snd cs')) = length (disk (snd cs)) \<and> (\<forall>j. view (fst cs') (disk (snd cs')) j = f j)"

text \<open>No block is referenced, as it is between the calls of clients that put back what they get.\<close>

definition idle :: "bcache \<Rightarrow> bool" where
  "idle c \<longleftrightarrow> 0 < bc_count c \<and> (\<forall>b\<in>set (bc_blocks c). bb_ref_count b = 0)"

lemma idle_room: "bc_ok c disk \<Longrightarrow> idle c \<Longrightarrow> room c"
proof -
  assume "bc_ok c disk" and id: "idle c"
  then have l: "lists_ok c" by (simp add: bc_ok_def)
  then have "0 \<in> set (bc_free_list c @ bc_lru_list c)" using id by (auto simp: lists_ok_def idle_def)
  then show "room c" using id l by (auto simp: room_def idle_def lists_ok_def intro!: bexI [of _ 0])
qed

lemma idle_upd:
  assumes "idle c" and "\<And>b. bb_ref_count b = 0 \<Longrightarrow> bb_ref_count (f b) = 0"
  shows "idle (upd_block i f c)"
proof (cases "i < length (bc_blocks c)")
  case True
  then show ?thesis using assms set_update_subset_insert [of "bc_blocks c" i "f (bc_blocks c ! i)"]
    by (auto simp: idle_def upd_block_def)
next
  case False
  then show ?thesis using assms(1) by (simp add: idle_def upd_block_def list_update_beyond)
qed

lemma idle_cong: "bc_count c' = bc_count c \<Longrightarrow> bc_blocks c' = bc_blocks c \<Longrightarrow> idle c' = idle c"
  by (simp add: idle_def)

lemma find_block_count: "find_block k c = Some (r, c') \<Longrightarrow> bc_count c' = bc_count c"
  by (auto simp: find_block_def split: if_splits option.splits prod.splits)

lemma idle_find: "find_block k c = Some (r, c') \<Longrightarrow> idle c' = idle c"
  by (rule idle_cong) (auto simp: find_block_def split: if_splits option.splits prod.splits)

lemma idle_flush: "flush_block io i (c, s) = Some (e, c', s') \<Longrightarrow> idle c \<Longrightarrow> idle c'"
proof -
  assume f: "flush_block io i (c, s) = Some (e, c', s')" and "idle c"
  moreover have "idle (upd_block i (\<lambda>b. b\<lparr>bb_is_dirty := False\<rparr>) c)" by (rule idle_upd) (use \<open>idle c\<close> in auto)
  ultimately show "idle c'"
    by (auto simp: flush_block_def Let_def idle_def upd_block_def split: sum.splits Option.bind_splits)
qed

lemma idle_alloc:
  assumes "alloc_block io (c, s) = Some (r, c', s')" and "idle c"
  shows "idle c'"
proof (cases "bc_free_list c")
  case (Cons i free)
  have "idle (upd_block i (\<lambda>b. b\<lparr>bb_ref_count := 0\<rparr>) c)" by (rule idle_upd [OF assms(2)]) simp
  then show ?thesis using assms(1) Cons by (auto simp: alloc_block_def idle_def split: if_splits)
next
  case Nil
  then show ?thesis using assms idle_flush [where c = c and s = s]
    by (auto simp: alloc_block_def split: if_splits option.splits Option.bind_splits) (auto simp: idle_def)
qed

lemma idle_fill:
  assumes "find_or_fill_block io k (c, s) = Some (r, c', s')" and "idle c"
  shows "idle c'"
proof -
  obtain r1 c1 where f: "find_block k c = Some (r1, c1)" using assms(1) by (auto simp: find_or_fill_block_def split: Option.bind_splits)
  then have i1: "idle c1" using idle_find assms(2) by blast
  show ?thesis
  proof (cases r1)
    case (Some i)
    then show ?thesis using assms(1) f i1 by (simp add: find_or_fill_block_def)
  next
    case None
    then obtain i c2 s2 where a: "alloc_block io (c1, s) = Some (Some i, c2, s2)"
      using assms(1) f by (auto simp: find_or_fill_block_def split: Option.bind_splits)
    define c3 where "c3 = upd_block i (\<lambda>b. b\<lparr>bb_blocknum := k\<rparr>) c2"
    have i3: "idle c3" unfolding c3_def by (rule idle_upd [OF idle_alloc [OF a i1]]) simp
    have "idle (upd_block i (\<lambda>b. b\<lparr>bb_ptr := p\<rparr>) c3)" for p by (rule idle_upd [OF i3]) simp
    then show ?thesis using assms(1) f None a i3
      by (auto simp: find_or_fill_block_def Let_def c3_def [symmetric] idle_def split: Option.bind_splits sum.splits)
  qed
qed

lemma idle_read: "bcache_read_block io k (c, s) = Some (r, c', s') \<Longrightarrow> idle c \<Longrightarrow> idle c'"
  by (auto simp: bcache_read_block_def split: Option.bind_splits option.splits dest: idle_fill)

lemma idle_zero:
  assumes "bcache_zero_block io k (c, s) = Some (r, c', s')" and "idle c"
  shows "idle c'"
proof -
  obtain r1 c1 where f: "find_block k c = Some (r1, c1)" using assms(1) by (auto simp: bcache_zero_block_def split: Option.bind_splits)
  then have i1: "idle c1" using idle_find assms(2) by blast
  show ?thesis
  proof (cases r1)
    case (Some i)
    then show ?thesis using assms(1) f by (auto simp: bcache_zero_block_def intro!: idle_upd [OF i1])
  next
    case None
    then obtain r2 c2 s2 where a: "alloc_block io (c1, s) = Some (r2, c2, s2)"
      using assms(1) f by (auto simp: bcache_zero_block_def split: Option.bind_splits)
    then show ?thesis using assms(1) f None idle_alloc [OF a i1]
      by (cases r2) (auto simp: bcache_zero_block_def intro!: idle_upd)
  qed
qed

lemma idle_flush_loop: "flush_loop io is (c, s) = Some (r, c', s') \<Longrightarrow> idle c \<Longrightarrow> idle c'"
proof (induction "is" arbitrary: c s)
  case (Cons i "is")
  then show ?case using idle_flush [where c = c and s = s]
    by (auto split: if_splits Option.bind_splits)
qed simp

text \<open>
  How a client changes a block: it gets the buffer, stores through the pointer, marks the block dirty
  and puts it back.
\<close>

definition client_write :: "nat \<Rightarrow> u8 list \<Rightarrow> bcache \<Rightarrow> bcache" where
  "client_write i data c = upd_block i (\<lambda>b. b\<lparr>bb_ptr := data\<rparr>) c"

definition client_update :: "'s bdev_io \<Rightarrow> u32 \<Rightarrow> u8 list \<Rightarrow> bcache \<times> 's \<Rightarrow> (int \<times> bcache \<times> 's) option" where
  "client_update io k data cs = do {
     (r, c1, s1) \<leftarrow> bcache_get_block io k cs;
     case r of
       Inl err \<Rightarrow> Some (err, c1, s1)
     | Inr i \<Rightarrow> do {
         (_, c2) \<leftarrow> bcache_mark_block_dirty k (client_write i data c1);
         (_, c3) \<leftarrow> bcache_put_block k c2;
         Some (0, c3, s1) } }"

text \<open>Sequences of calls, and what they do to an array of blocks without any cache.\<close>

datatype cache_op = Read u32 | Update u32 "u8 list" | Zero u32 | Flush

fun run_op :: "'s bdev_io \<Rightarrow> cache_op \<Rightarrow> bcache \<times> 's \<Rightarrow> ((int + u8 list) \<times> bcache \<times> 's) option" where
  "run_op io (Read k) cs = bcache_read_block io k cs"
| "run_op io (Update k data) cs = map_option (\<lambda>(e, cs'). (Inl e, cs')) (client_update io k data cs)"
| "run_op io (Zero k) cs = map_option (\<lambda>(e, cs'). (Inl e, cs')) (bcache_zero_block io k cs)"
| "run_op io Flush cs = map_option (\<lambda>(e, cs'). (Inl e, cs')) (bcache_flush io cs)"

fun run_ops :: "'s bdev_io \<Rightarrow> cache_op list \<Rightarrow> bcache \<times> 's \<Rightarrow> ((int + u8 list) list \<times> bcache \<times> 's) option" where
  "run_ops io [] cs = Some ([], cs)"
| "run_ops io (op # ops) cs = do {
     (r, cs1) \<leftarrow> run_op io op cs;
     (rs, cs2) \<leftarrow> run_ops io ops cs1;
     Some (r # rs, cs2) }"

fun spec_op :: "nat \<Rightarrow> cache_op \<Rightarrow> (u32 \<Rightarrow> u8 list) \<Rightarrow> (int + u8 list) \<times> (u32 \<Rightarrow> u8 list)" where
  "spec_op bs (Read k) f = (Inr (f k), f)"
| "spec_op bs (Update k data) f = (Inl 0, f(k := data))"
| "spec_op bs (Zero k) f = (Inl 0, f(k := replicate bs 0))"
| "spec_op bs Flush f = (Inl 0, f)"

fun spec_ops :: "nat \<Rightarrow> cache_op list \<Rightarrow> (u32 \<Rightarrow> u8 list) \<Rightarrow> (int + u8 list) list \<times> (u32 \<Rightarrow> u8 list)" where
  "spec_ops bs [] f = ([], f)"
| "spec_ops bs (op # ops) f =
     (let (r, f1) = spec_op bs op f; (rs, f2) = spec_ops bs ops f1 in (r # rs, f2))"

fun legal_op :: "nat \<Rightarrow> nat \<Rightarrow> cache_op \<Rightarrow> bool" where
  "legal_op bs n (Read k) \<longleftrightarrow> (unat k + 1) * bs \<le> n"
| "legal_op bs n (Update k data) \<longleftrightarrow> (unat k + 1) * bs \<le> n \<and> length data = bs"
| "legal_op bs n (Zero k) \<longleftrightarrow> (unat k + 1) * bs \<le> n"
| "legal_op bs n Flush \<longleftrightarrow> True"

lemma bcache_create_ok:
  assumes "valid s" and "bs < 2 ^ 32" and "\<forall>buf\<in>set bufs. length buf = bs" and "length nums = length bufs" and "bufs \<noteq> []"
  shows "cache_ok valid disk (bcache_create bs bufs nums, s)" and "idle (bcache_create bs bufs nums)"
    and "view (bcache_create bs bufs nums) d = on_disk bs d"
  using assms by (auto simp: cache_ok_def bc_ok_def lists_ok_def holds_ok_def bcache_create_def idle_def view_of_def set_zip)

locale byte_device =
  fixes io :: "'s bdev_io" and valid :: "'s \<Rightarrow> bool" and disk :: "'s \<Rightarrow> u8 list"
  assumes read_law: "valid s \<Longrightarrow> 0 \<le> off \<Longrightarrow> nat off + len \<le> length (disk s) \<Longrightarrow> len < 2 ^ 32 \<Longrightarrow>
      io_read io off len s = Some (Inr (slice (nat off) len (disk s)))"
    and write_law: "valid s \<Longrightarrow> 0 \<le> off \<Longrightarrow> nat off + length buf \<le> length (disk s) \<Longrightarrow> length buf < 2 ^ 32 \<Longrightarrow>
      \<exists>s'. io_write io buf off s = Some (Inr (length buf), s') \<and> valid s' \<and> disk s' = blit (nat off) buf (disk s)"
begin

lemma offset_nat: "nat (block_offset c k) = unat k * bc_block_size c"
  by (simp add: block_offset_def nat_mult_distrib)

lemma offset_nonneg: "0 \<le> block_offset c k"
  by (simp add: block_offset_def)

lemma flush_block_ok:
  assumes v: "valid s" and l: "lists_ok c" and h: "holds_ok (bc_lru_list c) c (disk s)" and i: "i \<in> set (bc_lru_list c)"
    and sz: "bc_block_size c < 2 ^ 32"
  obtains c' s' where "flush_block io i (c, s) = Some (0, c', s')" and "valid s'" and "lists_ok c'" and "holds_ok (bc_lru_list c) c' (disk s')"
    and "bc_blocks c' = (bc_blocks c)[i := (bc_blocks c ! i)\<lparr>bb_is_dirty := False\<rparr>]"
    and "bc_lru_list c' = bc_lru_list c" and "bc_free_list c' = bc_free_list c" and "bc_block_size c' = bc_block_size c"
    and "length (disk s') = length (disk s)" and "\<And>k. view c' (disk s') k = view c (disk s) k"
    and "on_disk (bc_block_size c) (disk s') (bb_blocknum (bc_blocks c ! i)) = bb_ptr (bc_blocks c ! i)"
    and "\<And>k. k \<noteq> bb_blocknum (bc_blocks c ! i) \<Longrightarrow> on_disk (bc_block_size c) (disk s') k = on_disk (bc_block_size c) (disk s) k"
proof -
  let ?b = "bc_blocks c ! i" and ?bs = "bc_block_size c"
  have il: "i < length (bc_blocks c)" by (rule lru_index [OF l i])
  then have pl: "length (bb_ptr ?b) = ?bs" using lists_okD(2,7) [OF l] by simp
  have dev: "in_dev ?bs (disk s) (bb_blocknum ?b)" by (rule holds_okD(2) [OF h i])
  then have fit: "nat (block_offset c (bb_blocknum ?b)) + length (bb_ptr ?b) \<le> length (disk s)"
    by (simp add: offset_nat pl in_dev_def)
  obtain s' where s': "io_write io (bb_ptr ?b) (block_offset c (bb_blocknum ?b)) s = Some (Inr ?bs, s')" "valid s'"
    "disk s' = blit (unat (bb_blocknum ?b) * ?bs) (bb_ptr ?b) (disk s)"
    using write_law [OF v offset_nonneg fit] sz pl unfolding offset_nat by auto
  define c' where "c' = (upd_block i (\<lambda>b. b\<lparr>bb_is_dirty := False\<rparr>) c)\<lparr>bc_stats := (bc_stats c)\<lparr>st_writes := st_writes (bc_stats c) + 1\<rparr>\<rparr>"
  have sel: "bc_blocks c' = (bc_blocks c)[i := ?b\<lparr>bb_is_dirty := False\<rparr>]" "bc_lru_list c' = bc_lru_list c" "bc_free_list c' = bc_free_list c"
    "bc_block_size c' = ?bs" "bc_count c' = bc_count c" "bc_linked c' = bc_linked c" by (simp_all add: c'_def upd_block_def)
  have fl: "flush_block io i (c, s) = Some (0, c', s')" using s'(1) by (simp add: flush_block_def c'_def)
  have le: "unat (bb_blocknum ?b) * ?bs + length (bb_ptr ?b) \<le> length (disk s)" using fit by (simp add: offset_nat)
  have ln: "length (disk s') = length (disk s)" unfolding s'(3) by (rule length_blit [OF le])
  have od: "on_disk ?bs (disk s') k = (if k = bb_blocknum ?b then bb_ptr ?b else on_disk ?bs (disk s) k)" for k
    unfolding s'(3) by (rule on_disk_blit [OF dev pl])
  have num: "bb_blocknum (bc_blocks c' ! j) = bb_blocknum (bc_blocks c ! j)" "bb_ptr (bc_blocks c' ! j) = bb_ptr (bc_blocks c ! j)"
    "bb_is_dirty (bc_blocks c' ! j) \<longleftrightarrow> j \<noteq> i \<and> bb_is_dirty (bc_blocks c ! j)" for j
    using il by (auto simp: sel(1) nth_list_update)
  have "lists_ok c'" using l unfolding lists_ok_def sel(2-6) num by (simp add: sel(1))
  moreover have "holds_ok (bc_lru_list c) c' (disk s')"
    unfolding holds_ok_def sel(4) num od using h i
    by (auto simp: holds_ok_def in_dev_def ln inj_on_def)
  moreover have "view c' (disk s') k = view c (disk s) k" for k
    by (rule view_cong [OF holds_okD(1) [OF h]]) (use sel num od i in auto)
  ultimately show thesis using that [OF fl s'(2) _ _ sel(1-4) ln] od by simp
qed

lemma alloc_ok:
  assumes ok: "cache_ok valid disk (c, s)" and rm: "room c"
  obtains i xs c' s' where "alloc_block io (c, s) = Some (Some i, c', s')" and "valid s'" and "lists_ok c'"
    and "bc_lru_list c' = xs @ [i]" and "holds_ok xs c' (disk s')" and "bc_block_size c' = bc_block_size c"
    and "length (disk s') = length (disk s)" and "\<And>k. view_of xs c' (disk s') k = view c (disk s) k"
    and "\<And>j. j \<in> set xs \<Longrightarrow> j \<in> set (bc_lru_list c) \<and> bb_blocknum (bc_blocks c' ! j) = bb_blocknum (bc_blocks c ! j)"
proof -
  have v: "valid s" and l: "lists_ok c" and h: "holds_ok (bc_lru_list c) c (disk s)" and sz: "bc_block_size c < 2 ^ 32"
    using ok by (simp_all add: cache_ok_def bc_ok_def)
  note inj = holds_okD(1) [OF h]
  show thesis
  proof (cases "bc_free_list c")
    case (Cons i free)
    define c' where "c' = (upd_block i (\<lambda>b. b\<lparr>bb_ref_count := 0\<rparr>) c)\<lparr>bc_free_list := free, bc_lru_list := bc_lru_list c @ [i]\<rparr>"
    have a: "alloc_block io (c, s) = Some (Some i, c', s)" using Cons lists_okD(1) [OF l] by (simp add: alloc_block_def c'_def)
    have "i < length (bc_blocks c)" using lists_okD(2,6) [OF l] Cons by auto
    then have num: "bb_blocknum (bc_blocks c' ! j) = bb_blocknum (bc_blocks c ! j)" "bb_ptr (bc_blocks c' ! j) = bb_ptr (bc_blocks c ! j)"
      "bb_is_dirty (bc_blocks c' ! j) = bb_is_dirty (bc_blocks c ! j)" for j
      by (auto simp: c'_def upd_block_def nth_list_update)
    have sel: "bc_lru_list c' = bc_lru_list c @ [i]" "bc_free_list c' = free" "bc_block_size c' = bc_block_size c" "bc_count c' = bc_count c"
      "bc_linked c' = bc_linked c" "length (bc_blocks c') = length (bc_blocks c)" by (simp_all add: c'_def upd_block_def)
    have "lists_ok c'" using l Cons unfolding lists_ok_def sel num by auto
    moreover have "holds_ok (bc_lru_list c) c' (disk s)" using h unfolding holds_ok_def sel num .
    moreover have "view_of (bc_lru_list c) c' (disk s) k = view c (disk s) k" for k
      by (rule view_cong [OF inj]) (use num sel in auto)
    ultimately show thesis using that [OF a v _ sel(1) _ sel(3)] num(1) by simp
  next
    case Nil
    let ?p = "\<lambda>i. bb_ref_count (bc_blocks c ! i) = 0"
    obtain i where f: "find ?p (bc_lru_list c) = Some i"
      using rm Nil by (cases "find ?p (bc_lru_list c)") (auto simp: room_def find_None_iff)
    then have i: "i \<in> set (bc_lru_list c)" by (auto simp: find_Some_iff)
    let ?xs = "remove1 i (bc_lru_list c)"
    have xs: "set ?xs = set (bc_lru_list c) - {i}" "i \<notin> set ?xs" using lists_okD(4) [OF l] by (simp_all add: set_remove1_eq)
    obtain c1 s1 where fl: "(if bb_is_dirty (bc_blocks c ! i) then flush_block io i (c, s) else Some (0, c, s)) = Some (0, c1, s1)"
      and f1: "valid s1" "lists_ok c1" "holds_ok (bc_lru_list c) c1 (disk s1)" "bc_lru_list c1 = bc_lru_list c"
        "bc_block_size c1 = bc_block_size c" "length (disk s1) = length (disk s)" "\<And>k. view c1 (disk s1) k = view c (disk s) k"
      and clean: "bb_ptr (bc_blocks c1 ! i) = on_disk (bc_block_size c1) (disk s1) (bb_blocknum (bc_blocks c1 ! i))"
      and num1: "\<And>j. bb_blocknum (bc_blocks c1 ! j) = bb_blocknum (bc_blocks c ! j)"
    proof (cases "bb_is_dirty (bc_blocks c ! i)")
      case True
      have il: "i < length (bc_blocks c)" by (rule lru_index [OF l i])
      obtain c2 s2 where f2: "flush_block io i (c, s) = Some (0, c2, s2)" "valid s2" "lists_ok c2" "holds_ok (bc_lru_list c) c2 (disk s2)"
        "bc_blocks c2 = (bc_blocks c)[i := (bc_blocks c ! i)\<lparr>bb_is_dirty := False\<rparr>]" "bc_lru_list c2 = bc_lru_list c"
        "bc_block_size c2 = bc_block_size c" "length (disk s2) = length (disk s)" "\<And>k. view c2 (disk s2) k = view c (disk s) k"
        "on_disk (bc_block_size c) (disk s2) (bb_blocknum (bc_blocks c ! i)) = bb_ptr (bc_blocks c ! i)"
        using flush_block_ok [OF v l h i sz] by metis
      have num2: "bb_blocknum (bc_blocks c2 ! j) = bb_blocknum (bc_blocks c ! j)" "bb_ptr (bc_blocks c2 ! j) = bb_ptr (bc_blocks c ! j)" for j
        using il by (auto simp: f2(5) nth_list_update)
      show thesis by (rule that [OF _ f2(2-4,6-9)]) (use True f2(1,7,10) num2 in simp_all)
    next
      case False
      then show thesis using that [of c s] v l h holds_okD(3) [OF h i False] by simp
    qed
    define c' where "c' = c1\<lparr>bc_lru_list := ?xs @ [i]\<rparr>"
    have a: "alloc_block io (c, s) = Some (Some i, c', s1)"
      using Nil lists_okD(1) [OF l] f fl f1(4) by (simp add: alloc_block_def c'_def)
    have sel: "bc_blocks c' = bc_blocks c1" "bc_block_size c' = bc_block_size c1" "bc_lru_list c' = ?xs @ [i]" by (simp_all add: c'_def)
    have "lists_ok c'"
      using f1(2) lists_okD(4) [OF l] xs i unfolding lists_ok_def c'_def by (auto simp: f1(4))
    moreover have hx: "holds_ok ?xs c' (disk s1)"
      using holds_ok_subset [OF f1(3), of ?xs] xs(1) by (auto simp: holds_ok_def sel(1,2))
    moreover have "view_of ?xs c' (disk s1) k = view c (disk s) k" for k
    proof (cases "k = bb_blocknum (bc_blocks c1 ! i)")
      case True
      have inj1: "inj_on (\<lambda>i. bb_blocknum (bc_blocks c1 ! i)) (set (bc_lru_list c))" by (rule holds_okD(1) [OF f1(3)])
      then have "\<forall>j\<in>set ?xs. bb_blocknum (bc_blocks c' ! j) \<noteq> k" using True xs i unfolding sel(1) by (auto dest: inj_onD)
      then have "view_of ?xs c' (disk s1) k = bb_ptr (bc_blocks c1 ! i)" using view_miss clean True by (simp add: sel(1,2))
      also have "\<dots> = view c1 (disk s1) k" using view_hit [OF inj1 i] True f1(4) by simp
      finally show ?thesis using f1(7) by simp
    next
      case False
      have "find (\<lambda>j. bb_blocknum (bc_blocks c1 ! j) = k) (remove1 i ys) = find (\<lambda>j. bb_blocknum (bc_blocks c1 ! j) = k) ys" for ys
        using False by (induction ys) auto
      then have "view_of ?xs c' (disk s1) k = view c1 (disk s1) k" unfolding view_of_def sel f1(4) by simp
      then show ?thesis using f1(7) by simp
    qed
    ultimately show thesis using that [OF a f1(1) _ sel(3)] sel f1(5,6) num1 xs by auto
  qed
qed

lemma find_or_fill_ok:
  assumes ok: "cache_ok valid disk (c, s)" and k: "in_dev (bc_block_size c) (disk s) k"
    and rm: "room c \<or> (\<exists>i\<in>set (bc_lru_list c). bb_blocknum (bc_blocks c ! i) = k)"
  obtains i c' s' where "find_or_fill_block io k (c, s) = Some (Some i, c', s')" and "step_ok valid disk (view c (disk s)) (c, s) (c', s')"
    and "i \<in> set (bc_lru_list c')" and "bb_blocknum (bc_blocks c' ! i) = k"
proof (cases "\<exists>i\<in>set (bc_lru_list c). bb_blocknum (bc_blocks c ! i) = k")
  case True
  have ok': "bc_ok c (disk s)" "valid s" "bc_block_size c < 2 ^ 32" using ok by (simp_all add: cache_ok_def)
  obtain i c' where f: "find_block k c = Some (Some i, c')" "i \<in> set (bc_lru_list c')" "bb_blocknum (bc_blocks c' ! i) = k"
    "bc_ok c' (disk s)" "bc_block_size c' = bc_block_size c" "\<And>j. view c' (disk s) j = view c (disk s) j"
    using find_block_hit [OF ok'(1) True] by metis
  show thesis
    by (rule that [of i c' s]) (use f ok' in \<open>simp_all add: find_or_fill_block_def step_ok_def cache_ok_def\<close>)
next
  case False
  have l: "lists_ok c" using ok by (simp add: cache_ok_def bc_ok_def)
  define c1 where "c1 = c\<lparr>bc_stats := (bc_stats c)\<lparr>st_misses := st_misses (bc_stats c) + 1\<rparr>\<rparr>"
  have f: "find_block k c = Some (None, c1)" unfolding c1_def by (rule find_block_miss [OF l]) (use False in blast)
  have sel1: "bc_lru_list c1 = bc_lru_list c" "bc_free_list c1 = bc_free_list c" "bc_blocks c1 = bc_blocks c" "bc_block_size c1 = bc_block_size c"
    "bc_count c1 = bc_count c" "bc_linked c1 = bc_linked c" by (simp_all add: c1_def)
  have v1: "view_of ys c1 d = view_of ys c d" for ys d by (rule ext) (simp only: view_of_def sel1)
  have ok1: "cache_ok valid disk (c1, s)" and rm1: "room c1"
    using ok rm False by (simp_all add: cache_ok_def bc_ok_def lists_ok_def holds_ok_def room_def sel1)
  obtain i xs c2 s2 where a: "alloc_block io (c1, s) = Some (Some i, c2, s2)" "valid s2" "lists_ok c2" "bc_lru_list c2 = xs @ [i]"
    "holds_ok xs c2 (disk s2)" "bc_block_size c2 = bc_block_size c" "length (disk s2) = length (disk s)"
    "\<And>j. view_of xs c2 (disk s2) j = view c (disk s) j"
    "\<And>j. j \<in> set xs \<Longrightarrow> j \<in> set (bc_lru_list c) \<and> bb_blocknum (bc_blocks c2 ! j) = bb_blocknum (bc_blocks c ! j)"
    by (rule alloc_ok [OF ok1 rm1, unfolded v1 sel1]) (rule that)
  have il: "i < length (bc_blocks c2)" using lru_index [OF a(3), of i] a(4) by simp
  have pl: "length (bb_ptr (bc_blocks c2 ! i)) = bc_block_size c2" using il lists_okD(2,7) [OF a(3)] by simp
  define c3 where "c3 = upd_block i (\<lambda>b. b\<lparr>bb_blocknum := k\<rparr>) c2"
  have sz: "bc_block_size c < 2 ^ 32" using ok by (simp add: cache_ok_def)
  let ?data = "on_disk (bc_block_size c) (disk s2) k"
  have dl: "length ?data = bc_block_size c" using k a(7) by (simp add: on_disk_def in_dev_def)
  have "nat (block_offset c3 k) + bc_block_size c3 \<le> length (disk s2)"
    using k a(6,7) unfolding offset_nat by (simp add: c3_def upd_block_def in_dev_def)
  then have rd: "io_read io (block_offset c3 k) (bc_block_size c3) s2 = Some (Inr ?data)"
    using read_law [OF a(2) offset_nonneg] sz a(6) unfolding offset_nat by (simp add: on_disk_def c3_def upd_block_def)
  have mc: "memcpy_into 0 ?data (bb_ptr (bc_blocks c3 ! i)) = Some ?data"
    using dl pl il a(6) by (simp add: c3_def upd_block_def memcpy_into_Some blit_def)
  define c4 where "c4 = upd_block i (\<lambda>b. b\<lparr>bb_ptr := ?data\<rparr>) c3"
  define c5 where "c5 = c4\<lparr>bc_stats := (bc_stats c4)\<lparr>st_reads := st_reads (bc_stats c4) + 1\<rparr>\<rparr>"
  have ff: "find_or_fill_block io k (c, s) = Some (Some i, c5, s2)"
    using f a(1) rd mc by (simp add: find_or_fill_block_def c3_def [symmetric] c4_def [symmetric] c5_def [symmetric] Let_def)
  define blk where "blk = (bc_blocks c2 ! i)\<lparr>bb_blocknum := k, bb_ptr := ?data\<rparr>"
  have sel5: "bc_blocks c5 = (bc_blocks c2)[i := blk]" "bc_lru_list c5 = bc_lru_list c2" "bc_free_list c5 = bc_free_list c2"
    "bc_count c5 = bc_count c2" "bc_linked c5 = bc_linked c2" "bc_block_size c5 = bc_block_size c2"
    using il by (simp_all add: c5_def c4_def c3_def upd_block_def blk_def)
  have miss: "\<forall>j\<in>set xs. bb_blocknum (bc_blocks c2 ! j) \<noteq> k" using a(9) False by metis
  have dev2: "in_dev (bc_block_size c2) (disk s2) k" using k a(6,7) by (simp add: in_dev_def)
  note ins = install [OF a(3-5) dev2 miss _ _ _ sel5]
  have b: "bb_blocknum blk = k" "length (bb_ptr blk) = bc_block_size c2" "bb_is_dirty blk \<or> bb_ptr blk = on_disk (bc_block_size c2) (disk s2) k"
    using dl a(6) by (simp_all add: blk_def)
  have "view c5 (disk s2) j = view c (disk s) j" for j
    using ins(2) [OF b, of j] a(8) view_miss [OF miss, of "disk s2"] a(6) by (cases "j = k") (simp_all add: blk_def)
  then have "step_ok valid disk (view c (disk s)) (c, s) (c5, s2)"
    using ins(1) [OF b] a(2,6,7) sz sel5(6) by (simp add: step_ok_def cache_ok_def)
  then show thesis using that [OF ff] a(4) sel5 il b(1) by simp
qed

lemma read_ok:
  assumes "cache_ok valid disk (c, s)" and "in_dev (bc_block_size c) (disk s) k"
    and "room c \<or> (\<exists>i\<in>set (bc_lru_list c). bb_blocknum (bc_blocks c ! i) = k)"
  shows "\<exists>cs'. bcache_read_block io k (c, s) = Some (Inr (view c (disk s) k), cs') \<and> step_ok valid disk (view c (disk s)) (c, s) cs'"
proof -
  obtain i c' s' where f: "find_or_fill_block io k (c, s) = Some (Some i, c', s')" "step_ok valid disk (view c (disk s)) (c, s) (c', s')"
    "i \<in> set (bc_lru_list c')" "bb_blocknum (bc_blocks c' ! i) = k" using find_or_fill_ok [OF assms] by metis
  have ok: "lists_ok c'" "holds_ok (bc_lru_list c') c' (disk s')" using f(2) by (simp_all add: step_ok_def cache_ok_def bc_ok_def)
  have "length (bb_ptr (bc_blocks c' ! i)) = bc_block_size c'" using lists_okD(2,7) [OF ok(1)] lru_index [OF ok(1) f(3)] by simp
  moreover have "bb_ptr (bc_blocks c' ! i) = view c (disk s) k"
    using view_hit [OF holds_okD(1) [OF ok(2)] f(3,4), of "disk s'"] f(2) by (simp add: step_ok_def)
  ultimately show ?thesis using f(1,2) by (auto simp: bcache_read_block_def copy_out_def slice_def)
qed

lemma update_ok:
  assumes "cache_ok valid disk (c, s)" and "in_dev (bc_block_size c) (disk s) k" and "length data = bc_block_size c"
    and "room c \<or> (\<exists>i\<in>set (bc_lru_list c). bb_blocknum (bc_blocks c ! i) = k)"
  shows "\<exists>cs'. client_update io k data (c, s) = Some (0, cs') \<and> step_ok valid disk ((view c (disk s))(k := data)) (c, s) cs' \<and>
    (idle c \<longrightarrow> idle (fst cs'))"
proof -
  obtain i c1 s1 where f: "find_or_fill_block io k (c, s) = Some (Some i, c1, s1)" "step_ok valid disk (view c (disk s)) (c, s) (c1, s1)"
    "i \<in> set (bc_lru_list c1)" "bb_blocknum (bc_blocks c1 ! i) = k" by (rule find_or_fill_ok [OF assms(1,2,4)])
  have ok1: "bc_ok c1 (disk s1)" and vd: "valid s1" and sz: "bc_block_size c1 = bc_block_size c" "bc_block_size c < 2 ^ 32"
    and ln: "length (disk s1) = length (disk s)" and v1: "\<And>j. view c1 (disk s1) j = view c (disk s) j"
    using f(2) by (auto simp: step_ok_def cache_ok_def)
  have l1: "lists_ok c1" using ok1 by (simp add: bc_ok_def)
  have il: "i < length (bc_blocks c1)" by (rule lru_index [OF l1 f(3)])
  let ?w = "\<lambda>b. b\<lparr>bb_ref_count := bb_ref_count b + 1, bb_ptr := data\<rparr>"
  let ?d = "\<lambda>b. b\<lparr>bb_ref_count := bb_ref_count b + 1, bb_ptr := data, bb_is_dirty := True\<rparr>"
  have get: "bcache_get_block io k (c, s) = Some (Inr i, upd_block i (\<lambda>b. b\<lparr>bb_ref_count := bb_ref_count b + 1\<rparr>) c1, s1)"
    using f(1) by (simp add: bcache_get_block_def)
  have wr: "client_write i data (upd_block i (\<lambda>b. b\<lparr>bb_ref_count := bb_ref_count b + 1\<rparr>) c1) = upd_block i ?w c1"
    unfolding client_write_def by (rule upd_block_upd_block [OF il])
  obtain i2 c2 where f2: "find_block k c1 = Some (Some i2, c2)" "i2 \<in> set (bc_lru_list c2)" "bb_blocknum (bc_blocks c2 ! i2) = k"
    "bc_blocks c2 = bc_blocks c1" "bc_ok c2 (disk s1)" "bc_block_size c2 = bc_block_size c1" "\<And>j. view c2 (disk s1) j = view c1 (disk s1) j"
    "bc_free_list c2 = bc_free_list c1" "set (bc_lru_list c2) = set (bc_lru_list c1)"
    by (rule find_block_hit [OF ok1]) (use f(3,4) in auto)
  have i2: "i2 = i"
    using f2(2-4,9) f(3,4) holds_okD(1) [of "bc_lru_list c1" c1 "disk s1"] ok1 by (auto simp: bc_ok_def dest: inj_onD)
  have il2: "i < length (bc_blocks c2)" using il f2(4) by simp
  have md: "bcache_mark_block_dirty k (upd_block i ?w c1) = Some (0, upd_block i ?d c2)"
    using find_block_upd [OF il, of ?w k] f2(1) i2 upd_block_upd_block [OF il2, of "\<lambda>b. b\<lparr>bb_is_dirty := True\<rparr>" ?w]
    by (simp add: bcache_mark_block_dirty_def)
  have i2l: "i \<in> set (bc_lru_list c2)" "bb_blocknum (bc_blocks c2 ! i) = k" using f2(2,3) i2 by simp_all
  have m: "bc_ok (upd_block i ?d c2) (disk s1)"
    "\<And>j. view (upd_block i ?d c2) (disk s1) j = (if j = k then data else view c2 (disk s1) j)"
    using modify_ok [OF f2(5) i2l(1), of ?d] i2l(2) assms(3) f2(6) sz(1) by auto
  have e3: "\<exists>j\<in>set (bc_lru_list (upd_block i ?d c2)). bb_blocknum (bc_blocks (upd_block i ?d c2) ! j) = k"
    by (rule bexI [of _ i]) (use i2l il2 in \<open>simp_all add: upd_block_def\<close>)
  obtain i3 c3 where f3: "find_block k (upd_block i ?d c2) = Some (Some i3, c3)" "i3 \<in> set (bc_lru_list c3)"
    "bb_blocknum (bc_blocks c3 ! i3) = k" "bc_blocks c3 = bc_blocks (upd_block i ?d c2)" "bc_ok c3 (disk s1)"
    "bc_block_size c3 = bc_block_size (upd_block i ?d c2)" "\<And>j. view c3 (disk s1) j = view (upd_block i ?d c2) (disk s1) j"
    "bc_free_list c3 = bc_free_list (upd_block i ?d c2)" "set (bc_lru_list c3) = set (bc_lru_list (upd_block i ?d c2))"
    by (rule find_block_hit [OF m(1) e3]) (rule that)
  let ?r = "\<lambda>b. b\<lparr>bb_ref_count := bb_ref_count b - 1\<rparr>"
  have put: "bcache_put_block k (upd_block i ?d c2) = Some (0, upd_block i3 ?r c3)" using f3(1) by (simp add: bcache_put_block_def)
  have l3: "lists_ok c3" using f3(5) by (simp add: bc_ok_def)
  have "length (bb_ptr (bc_blocks c3 ! i3)) = bc_block_size c3" using lists_okD(2,7) [OF l3] lru_index [OF l3 f3(2)] by simp
  moreover have h3: "view c3 (disk s1) k = bb_ptr (bc_blocks c3 ! i3)"
    using f3(5) by (intro view_hit f3(2,3)) (simp add: bc_ok_def holds_ok_def)
  ultimately have fin: "bc_ok (upd_block i3 ?r c3) (disk s1)" "\<And>j. view (upd_block i3 ?r c3) (disk s1) j = view c3 (disk s1) j"
    using modify_ok [OF f3(5,2), of ?r] h3 f3(3) by auto
  have "client_update io k data (c, s) = Some (0, upd_block i3 ?r c3, s1)"
    using get wr md put by (simp add: client_update_def)
  moreover have "idle (upd_block i3 ?r c3)" if "idle c"
  proof -
    have num: "bb_blocknum (bc_blocks c3 ! x) = bb_blocknum (bc_blocks c2 ! x)" for x
      using il2 by (auto simp: f3(4) upd_block_def nth_list_update)
    have "inj_on (\<lambda>j. bb_blocknum (bc_blocks c2 ! j)) (set (bc_lru_list c2))" using f2(5) by (simp add: bc_ok_def holds_ok_def)
    moreover have "i3 \<in> set (bc_lru_list c2)" using f3(2,9) by (simp add: upd_block_def)
    ultimately have "i3 = i" using i2l f3(3) num by (metis (mono_tags, lifting) inj_onD)
    moreover have "idle c2" using idle_fill [OF f(1) that] idle_find [OF f2(1)] by simp
    then have "idle (upd_block i (\<lambda>b. ?r (?d b)) c2)" by (rule idle_upd) simp
    ultimately show ?thesis
      using f3(4) il2 find_block_count [OF f3(1)] by (simp add: upd_block_def idle_def)
  qed
  moreover have "bc_block_size (upd_block i3 ?r c3) = bc_block_size c" using f3(6) f2(6) sz(1) by (simp add: upd_block_def)
  ultimately show ?thesis using fin f3(7) m(2) f2(7) v1 vd sz ln by (auto simp: step_ok_def cache_ok_def)
qed

lemma zero_ok:
  assumes ok: "cache_ok valid disk (c, s)" and k: "in_dev (bc_block_size c) (disk s) k"
    and rm: "room c \<or> (\<exists>i\<in>set (bc_lru_list c). bb_blocknum (bc_blocks c ! i) = k)"
  shows "\<exists>cs'. bcache_zero_block io k (c, s) = Some (0, cs') \<and>
    step_ok valid disk ((view c (disk s))(k := replicate (bc_block_size c) 0)) (c, s) cs'"
proof -
  have ok': "bc_ok c (disk s)" "valid s" "bc_block_size c < 2 ^ 32" "lists_ok c" using ok by (simp_all add: cache_ok_def bc_ok_def)
  let ?z = "\<lambda>n b. b\<lparr>bb_ptr := replicate n 0 @ drop n (bb_ptr b), bb_is_dirty := True\<rparr>"
  show ?thesis
  proof (cases "\<exists>i\<in>set (bc_lru_list c). bb_blocknum (bc_blocks c ! i) = k")
    case True
    obtain i c1 where f: "find_block k c = Some (Some i, c1)" "i \<in> set (bc_lru_list c1)" "bb_blocknum (bc_blocks c1 ! i) = k"
      "bc_blocks c1 = bc_blocks c" "bc_ok c1 (disk s)" "bc_block_size c1 = bc_block_size c" "\<And>j. view c1 (disk s) j = view c (disk s) j"
      "bc_free_list c1 = bc_free_list c" "set (bc_lru_list c1) = set (bc_lru_list c)"
      by (rule find_block_hit [OF ok'(1) True]) (rule that)
    have l1: "lists_ok c1" using f(5) by (simp add: bc_ok_def)
    have pl: "length (bb_ptr (bc_blocks c1 ! i)) = bc_block_size c" using lists_okD(2,7) [OF l1] lru_index [OF l1 f(2)] f(6) by simp
    let ?c = "upd_block i (?z (bc_block_size c1)) c1"
    have "bcache_zero_block io k (c, s) = Some (0, ?c, s)" using f(1) by (simp add: bcache_zero_block_def)
    moreover have "bc_ok ?c (disk s)" "\<And>j. view ?c (disk s) j = (if j = k then replicate (bc_block_size c) 0 else view c1 (disk s) j)"
      using modify_ok [OF f(5,2), of "?z (bc_block_size c1)"] pl f(3,6) by auto
    moreover have "bc_block_size ?c = bc_block_size c" using f(6) by (simp add: upd_block_def)
    ultimately show ?thesis using ok' f(7) by (auto simp: step_ok_def cache_ok_def)
  next
    case False
    define c1 where "c1 = c\<lparr>bc_stats := (bc_stats c)\<lparr>st_misses := st_misses (bc_stats c) + 1\<rparr>\<rparr>"
    have f: "find_block k c = Some (None, c1)" unfolding c1_def by (rule find_block_miss [OF ok'(4)]) (use False in blast)
    have sel1: "bc_lru_list c1 = bc_lru_list c" "bc_free_list c1 = bc_free_list c" "bc_blocks c1 = bc_blocks c" "bc_block_size c1 = bc_block_size c"
      "bc_count c1 = bc_count c" "bc_linked c1 = bc_linked c" by (simp_all add: c1_def)
    have v1: "view_of ys c1 d = view_of ys c d" for ys d by (rule ext) (simp only: view_of_def sel1)
    have ok1: "cache_ok valid disk (c1, s)" and rm1: "room c1"
      using ok rm False by (simp_all add: cache_ok_def bc_ok_def lists_ok_def holds_ok_def room_def sel1)
    obtain i xs c2 s2 where a: "alloc_block io (c1, s) = Some (Some i, c2, s2)" "valid s2" "lists_ok c2" "bc_lru_list c2 = xs @ [i]"
      "holds_ok xs c2 (disk s2)" "bc_block_size c2 = bc_block_size c" "length (disk s2) = length (disk s)"
      "\<And>j. view_of xs c2 (disk s2) j = view c (disk s) j"
      "\<And>j. j \<in> set xs \<Longrightarrow> j \<in> set (bc_lru_list c) \<and> bb_blocknum (bc_blocks c2 ! j) = bb_blocknum (bc_blocks c ! j)"
      by (rule alloc_ok [OF ok1 rm1, unfolded v1 sel1]) (rule that)
    have il: "i < length (bc_blocks c2)" using lru_index [OF a(3), of i] a(4) by simp
    have pl: "length (bb_ptr (bc_blocks c2 ! i)) = bc_block_size c2" using il lists_okD(2,7) [OF a(3)] by simp
    define c3 where "c3 = upd_block i (\<lambda>b. b\<lparr>bb_blocknum := k\<rparr>) c2"
    define c4 where "c4 = upd_block i (?z (bc_block_size c3)) c3"
    have z: "bcache_zero_block io k (c, s) = Some (0, c4, s2)"
      using f a(1) by (simp add: bcache_zero_block_def c4_def c3_def)
    define blk where "blk = (bc_blocks c2 ! i)\<lparr>bb_blocknum := k, bb_ptr := replicate (bc_block_size c) 0, bb_is_dirty := True\<rparr>"
    have sel: "bc_blocks c4 = (bc_blocks c2)[i := blk]" "bc_lru_list c4 = bc_lru_list c2" "bc_free_list c4 = bc_free_list c2"
      "bc_count c4 = bc_count c2" "bc_linked c4 = bc_linked c2" "bc_block_size c4 = bc_block_size c2"
      using il pl a(6) by (simp_all add: c4_def c3_def upd_block_def blk_def)
    have miss: "\<forall>j\<in>set xs. bb_blocknum (bc_blocks c2 ! j) \<noteq> k" using a(9) False by metis
    have dev2: "in_dev (bc_block_size c2) (disk s2) k" using k a(6,7) by (simp add: in_dev_def)
    have b: "bb_blocknum blk = k" "length (bb_ptr blk) = bc_block_size c2" "bb_is_dirty blk \<or> bb_ptr blk = on_disk (bc_block_size c2) (disk s2) k"
      using a(6) by (simp_all add: blk_def)
    note ins = install [OF a(3-5) dev2 miss b sel]
    show ?thesis
      using z ins a(2,6,7,8) ok'(3) sel(6) by (auto simp: step_ok_def cache_ok_def blk_def)
  qed
qed

lemma flush_loop_ok:
  assumes "cache_ok valid disk (c, s)" and "set is \<subseteq> set (bc_lru_list c)"
  shows "\<exists>c' s'. flush_loop io is (c, s) = Some (0, c', s') \<and> step_ok valid disk (view c (disk s)) (c, s) (c', s') \<and>
    bc_lru_list c' = bc_lru_list c \<and>
    (\<forall>i\<in>set (bc_lru_list c). bb_is_dirty (bc_blocks c' ! i) \<longrightarrow> bb_is_dirty (bc_blocks c ! i) \<and> i \<notin> set is)"
  using assms
proof (induction "is" arbitrary: c s)
  case Nil
  then show ?case by (simp add: step_ok_def)
next
  case (Cons i "is")
  have i: "i \<in> set (bc_lru_list c)" and sub: "set is \<subseteq> set (bc_lru_list c)" using Cons.prems(2) by auto
  have ok: "valid s" "lists_ok c" "holds_ok (bc_lru_list c) c (disk s)" "bc_block_size c < 2 ^ 32"
    using Cons.prems(1) by (simp_all add: cache_ok_def bc_ok_def)
  show ?case
  proof (cases "bb_is_dirty (bc_blocks c ! i)")
    case False
    then have "flush_loop io (i # is) (c, s) = flush_loop io is (c, s)" by simp
    then show ?thesis using Cons.IH [OF Cons.prems(1) sub] False by auto
  next
    case True
    obtain c1 s1 where f: "flush_block io i (c, s) = Some (0, c1, s1)" "valid s1" "lists_ok c1" "holds_ok (bc_lru_list c) c1 (disk s1)"
      "bc_blocks c1 = (bc_blocks c)[i := (bc_blocks c ! i)\<lparr>bb_is_dirty := False\<rparr>]"
      "bc_lru_list c1 = bc_lru_list c" "bc_free_list c1 = bc_free_list c" "bc_block_size c1 = bc_block_size c"
      "length (disk s1) = length (disk s)" "\<And>k. view c1 (disk s1) k = view c (disk s) k"
      by (rule flush_block_ok [OF ok(1-3) i ok(4)]) (rule that)
    have il: "i < length (bc_blocks c)" by (rule lru_index [OF ok(2) i])
    have dirty: "bb_is_dirty (bc_blocks c1 ! j) \<longleftrightarrow> j \<noteq> i \<and> bb_is_dirty (bc_blocks c ! j)" for j
      using il by (auto simp: f(5) nth_list_update)
    have ok1: "cache_ok valid disk (c1, s1)" using f ok(4) by (simp add: cache_ok_def bc_ok_def)
    obtain c2 s2 where r: "flush_loop io is (c1, s1) = Some (0, c2, s2)" "step_ok valid disk (view c1 (disk s1)) (c1, s1) (c2, s2)"
      "bc_lru_list c2 = bc_lru_list c1"
      "\<forall>j\<in>set (bc_lru_list c1). bb_is_dirty (bc_blocks c2 ! j) \<longrightarrow> bb_is_dirty (bc_blocks c1 ! j) \<and> j \<notin> set is"
      using Cons.IH [OF ok1] sub f(6) by auto
    have "flush_loop io (i # is) (c, s) = Some (0, c2, s2)" using True f(1) r(1) by simp
    moreover have "step_ok valid disk (view c (disk s)) (c, s) (c2, s2)" using r(2) f(8-10) by (simp add: step_ok_def)
    ultimately show ?thesis using r(3,4) f(6) dirty by auto
  qed
qed

lemma flush_ok:
  assumes "cache_ok valid disk (c, s)"
  shows "\<exists>c' s'. bcache_flush io (c, s) = Some (0, c', s') \<and> step_ok valid disk (view c (disk s)) (c, s) (c', s') \<and>
    (\<forall>k. on_disk (bc_block_size c) (disk s') k = view c (disk s) k)"
proof -
  obtain c' s' where f: "flush_loop io (bc_lru_list c) (c, s) = Some (0, c', s')" "step_ok valid disk (view c (disk s)) (c, s) (c', s')"
    "bc_lru_list c' = bc_lru_list c" "\<forall>i\<in>set (bc_lru_list c). \<not> bb_is_dirty (bc_blocks c' ! i)"
    using flush_loop_ok [OF assms, of "bc_lru_list c"] by auto
  have h: "holds_ok (bc_lru_list c') c' (disk s')" and sz: "bc_block_size c' = bc_block_size c"
    and v: "\<And>k. view c' (disk s') k = view c (disk s) k"
    using f(2) by (auto simp: step_ok_def cache_ok_def bc_ok_def)
  have "view c' (disk s') k = on_disk (bc_block_size c) (disk s') k" for k
  proof (cases "\<exists>i\<in>set (bc_lru_list c'). bb_blocknum (bc_blocks c' ! i) = k")
    case True
    then obtain i where i: "i \<in> set (bc_lru_list c')" "bb_blocknum (bc_blocks c' ! i) = k" by blast
    then show ?thesis using view_hit [OF holds_okD(1) [OF h] i] holds_okD(3) [OF h i(1)] f(3,4) sz by simp
  next
    case False
    then show ?thesis using view_miss [of "bc_lru_list c'" c' k "disk s'"] sz by simp
  qed
  moreover have "bc_linked c" using assms by (simp add: cache_ok_def bc_ok_def lists_ok_def)
  ultimately show ?thesis using f(1,2) v by (auto simp: bcache_flush_def)
qed

lemma run_op_ok:
  assumes ok: "cache_ok valid disk (c, s)" "idle c" and leg: "legal_op (bc_block_size c) (length (disk s)) op"
  obtains c' s' where "run_op io op (c, s) = Some (fst (spec_op (bc_block_size c) op (view c (disk s))), c', s')"
    and "step_ok valid disk (snd (spec_op (bc_block_size c) op (view c (disk s)))) (c, s) (c', s')" and "idle c'"
proof -
  have rm: "room c" using ok by (auto simp: cache_ok_def intro: idle_room)
  show thesis
  proof (cases op)
    case (Read k)
    then have "in_dev (bc_block_size c) (disk s) k" using leg by (simp add: in_dev_def)
    then show thesis using read_ok [OF ok(1)] rm Read that idle_read [OF _ ok(2)] by (force)
  next
    case (Update k data)
    then have "in_dev (bc_block_size c) (disk s) k" "length data = bc_block_size c" using leg by (simp_all add: in_dev_def)
    then show thesis using update_ok [OF ok(1)] rm Update that ok(2) by force
  next
    case (Zero k)
    then have "in_dev (bc_block_size c) (disk s) k" using leg by (simp add: in_dev_def)
    then show thesis using zero_ok [OF ok(1)] rm Zero that idle_zero [OF _ ok(2)] by force
  next
    case Flush
    obtain c' s' where f: "bcache_flush io (c, s) = Some (0, c', s')" "step_ok valid disk (view c (disk s)) (c, s) (c', s')"
      using flush_ok [OF ok(1)] by blast
    moreover have "idle c'" using f(1) idle_flush_loop [OF _ ok(2)] by (simp add: bcache_flush_def split: if_splits)
    ultimately show thesis using that Flush by simp
  qed
qed

lemma run_ops_ok:
  assumes "cache_ok valid disk (c, s)" and "idle c" and "list_all (legal_op (bc_block_size c) (length (disk s))) ops"
  shows "\<exists>c' s'. run_ops io ops (c, s) = Some (fst (spec_ops (bc_block_size c) ops (view c (disk s))), c', s') \<and>
    step_ok valid disk (snd (spec_ops (bc_block_size c) ops (view c (disk s)))) (c, s) (c', s') \<and> idle c'"
  using assms
proof (induction ops arbitrary: c s)
  case Nil
  then show ?case by (simp add: step_ok_def)
next
  case (Cons op ops)
  let ?f = "view c (disk s)"
  obtain c1 s1 where r: "run_op io op (c, s) = Some (fst (spec_op (bc_block_size c) op ?f), c1, s1)"
    "step_ok valid disk (snd (spec_op (bc_block_size c) op ?f)) (c, s) (c1, s1)" "idle c1"
    by (rule run_op_ok [OF Cons.prems(1,2)]) (use Cons.prems(3) in auto)
  have ok1: "cache_ok valid disk (c1, s1)" and sz: "bc_block_size c1 = bc_block_size c" "length (disk s1) = length (disk s)"
    and v1: "view c1 (disk s1) = snd (spec_op (bc_block_size c) op ?f)" using r(2) by (auto simp: step_ok_def)
  have "list_all (legal_op (bc_block_size c1) (length (disk s1))) ops" using Cons.prems(3) sz by simp
  from Cons.IH [OF ok1 r(3) this] obtain c2 s2 where r2:
    "run_ops io ops (c1, s1) = Some (fst (spec_ops (bc_block_size c) ops (snd (spec_op (bc_block_size c) op ?f))), c2, s2)"
    "step_ok valid disk (snd (spec_ops (bc_block_size c) ops (snd (spec_op (bc_block_size c) op ?f)))) (c1, s1) (c2, s2)" "idle c2"
    unfolding v1 sz by blast
  then show ?case using r(1) sz by (simp add: step_ok_def case_prod_beta Let_def)
qed

lemma run_ops_flush:
  assumes "cache_ok valid disk (c, s)" and "idle c" and "list_all (legal_op (bc_block_size c) (length (disk s))) ops"
  shows "\<exists>c1 s1 c2 s2. run_ops io ops (c, s) = Some (fst (spec_ops (bc_block_size c) ops (view c (disk s))), c1, s1) \<and>
    bcache_flush io (c1, s1) = Some (0, c2, s2) \<and> valid s2 \<and> length (disk s2) = length (disk s) \<and>
    (\<forall>k. on_disk (bc_block_size c) (disk s2) k = snd (spec_ops (bc_block_size c) ops (view c (disk s))) k)"
proof -
  obtain c1 s1 where r: "run_ops io ops (c, s) = Some (fst (spec_ops (bc_block_size c) ops (view c (disk s))), c1, s1)"
    "step_ok valid disk (snd (spec_ops (bc_block_size c) ops (view c (disk s)))) (c, s) (c1, s1)"
    using run_ops_ok [OF assms] by blast
  then have ok1: "cache_ok valid disk (c1, s1)" by (simp add: step_ok_def)
  show ?thesis using r flush_ok [OF ok1] by (auto simp: step_ok_def cache_ok_def)
qed

end

subsection \<open>The block devices\<close>

text \<open>\<open>bio_read(cache->dev, ...)\<close> and \<open>bio_write(cache->dev, ...)\<close> for the device \<open>d\<close>.\<close>

definition bio_io :: "bdev_hw \<Rightarrow> nat \<Rightarrow> nat \<Rightarrow> bio_t bdev_io" where
  "bio_io hw n d = \<lparr>io_read = bio_read hw n d, io_write = bio_write hw n d\<rparr>"

lemma slice_window_blit:
  assumes "off + length buf \<le> sz" and "start + sz \<le> length m"
  shows "slice start sz (blit (start + off) buf m) = blit off buf (slice start sz m)"
  by (rule nth_equalityI) (use assms in \<open>auto simp: nth_slice nth_blit\<close>)

interpretation bio_device: byte_device "bio_io hw n d" "\<lambda>b. hw_ok hw \<and> dev_ok n b d" "\<lambda>b. dev_bytes n b d"
proof unfold_locales
  fix s off len
  assume "hw_ok hw \<and> dev_ok n s d" "0 \<le> off" "nat off + len \<le> length (dev_bytes n s d)" "len < (2 :: nat) ^ 32"
  then show "io_read (bio_io hw n d) off len s = Some (Inr (slice (nat off) len (dev_bytes n s d)))"
    using bio_read_window [of hw n s d off len] by (simp add: bio_io_def)
next
  fix s off and buf :: "u8 list"
  assume v: "hw_ok hw \<and> dev_ok n s d" and off: "0 \<le> off" and le: "nat off + length buf \<le> length (dev_bytes n s d)"
    and sm: "length buf < 2 ^ 32"
  obtain r start where w: "window n s d = (r, start)" by (cases "window n s d")
  have ln: "length (dev_bytes n s d) = dev_size s d" using length_dev_bytes v by blast
  have st: "storage s r" "start + dev_size s d \<le> length (medium s r)" using window_fits [of n s d] v w by simp_all
  let ?m = "blit (start + nat off) buf (medium s r)"
  have "fitting (dev_size s d) off buf = length buf" using le ln by (simp add: fitting_def)
  then have "bio_write hw n d buf off s = Some (Inr (length buf), set_medium r ?m s)"
    using bio_write_window [of hw n s d off buf r start] v off sm w by (simp add: Let_def)
  moreover have "dev_ok n (set_medium r ?m s) d"
    using dev_ok_set_medium [of ?m s r n d] v length_blit [of "start + nat off" buf "medium s r"] le ln st(2) by simp
  moreover have "dev_bytes n (set_medium r ?m s) d = blit (nat off) buf (dev_bytes n s d)"
    using dev_bytes_set_medium [OF w st(1)] slice_window_blit [of "nat off" buf "dev_size s d" start "medium s r"] le ln st(2) w
    by (simp add: dev_bytes_def)
  ultimately show "\<exists>s'. io_write (bio_io hw n d) buf off s = Some (Inr (length buf), s') \<and> (hw_ok hw \<and> dev_ok n s' d) \<and>
      dev_bytes n s' d = blit (nat off) buf (dev_bytes n s d)"
    using v by (simp add: bio_io_def)
qed

text \<open>
  (C3) The cache is transparent: on any well formed block device, behind a new cache of any number of blocks, every
  sequence of reads, updates (get, store, mark dirty, put), zeroings and flushes returns what it would
  return on a plain array of blocks, whichever blocks are evicted in between; after a flush, reading the
  device itself delivers the blocks of that array.
\<close>

theorem bcache_transparent:
  assumes "hw_ok hw" and "dev_ok n b d" and "0 < bs" and "bs < 2 ^ 32"
    and "bufs \<noteq> []" and "\<forall>buf\<in>set bufs. length buf = bs" and "length nums = length bufs"
    and "list_all (legal_op bs (length (dev_bytes n b d))) ops" and "(unat k + 1) * bs \<le> length (dev_bytes n b d)"
  shows "\<exists>c1 b1 c2 b2.
    run_ops (bio_io hw n d) ops (bcache_create bs bufs nums, b) = Some (fst (spec_ops bs ops (on_disk bs (dev_bytes n b d))), c1, b1) \<and>
    bcache_flush (bio_io hw n d) (c1, b1) = Some (0, c2, b2) \<and>
    bio_read hw n d (uint k * int bs) bs b2 = Some (Inr (snd (spec_ops bs ops (on_disk bs (dev_bytes n b d))) k))"
proof -
  let ?c = "bcache_create bs bufs nums"
  have v: "hw_ok hw \<and> dev_ok n b d" using assms(1,2) by simp
  note cr = bcache_create_ok [where valid = "\<lambda>b. hw_ok hw \<and> dev_ok n b d", OF v assms(4,6,7,5)]
  have sz: "bc_block_size ?c = bs" by (simp add: bcache_create_def)
  obtain c1 s1 c2 s2 where r: "run_ops (bio_io hw n d) ops (?c, b) = Some (fst (spec_ops bs ops (on_disk bs (dev_bytes n b d))), c1, s1)"
    "bcache_flush (bio_io hw n d) (c1, s1) = Some (0, c2, s2)" "dev_ok n s2 d"
    "\<And>k. on_disk bs (dev_bytes n s2 d) k = snd (spec_ops bs ops (on_disk bs (dev_bytes n b d))) k"
    using bio_device.run_ops_flush [OF cr(1,2), unfolded sz, OF assms(8)] unfolding cr(3) by blast
  have "bio_read hw n d (uint k * int bs) bs s2 = Some (Inr (on_disk bs (dev_bytes n s2 d) k))"
    using bio_read_window [OF assms(1) r(3) _ assms(4), of "uint k * int bs"] by (simp add: on_disk_def nat_mult_distrib)
  then show ?thesis using r by auto
qed

lemma example_dev_bytes: "dev_bytes 2 example_bio 1 = replicate 1024 7"
proof -
  have "window (Suc (Suc 0)) example_bio 1 = (0, 512)" by (simp add: example_bio_eq)
  then have "window 2 example_bio 1 = (0, 512)" by (simp only: numeral_2_eq_2)
  then show ?thesis by (simp add: dev_bytes_def example_bio_eq slice_def medium_def)
qed

theorem bcache_transparent_witness:
  "\<exists>c1 b1 c2 b2.
    run_ops (bio_io example_hw 2 1) [Read 0, Update 1 [1, 2], Zero 2, Read 1, Read 2] (bcache_create (Suc 1) [[0, 0]] [9], example_bio) =
      Some ([Inr [7, 7], Inl 0, Inl 0, Inr [1, 2], Inr [0, 0]], c1, b1) \<and>
    bcache_flush (bio_io example_hw 2 1) (c1, b1) = Some (0, c2, b2) \<and> bio_read example_hw 2 1 2 (Suc 1) b2 = Some (Inr [1, 2])"
proof -
  have l: "list_all (legal_op (Suc 1) (length (dev_bytes 2 example_bio 1))) [Read 0, Update 1 [1, 2], Zero 2, Read 1, Read 2]"
    unfolding example_dev_bytes by simp
  have d: "on_disk (Suc (Suc 0)) (replicate 1024 7) 0 = [7, 7]"
    by (simp add: on_disk_def slice_def take_Suc)
  have sp: "fst (spec_ops (Suc 1) [Read 0, Update 1 [1, 2], Zero 2, Read 1, Read 2] (on_disk (Suc 1) (dev_bytes 2 example_bio 1))) =
      [Inr [7, 7], Inl 0, Inl 0, Inr [1, 2], Inr [0, 0]]"
    "snd (spec_ops (Suc 1) [Read 0, Update 1 [1, 2], Zero 2, Read 1, Read 2] (on_disk (Suc 1) (dev_bytes 2 example_bio 1))) 1 = [1, 2]"
    unfolding example_dev_bytes by (simp_all add: d)
  have off: "uint (1 :: u32) * int (Suc 1) = 2" by simp
  show ?thesis
    by (rule bcache_transparent [OF example_hw_ok example_dev_ok(1) _ _ _ _ _ l, of "[[0, 0]]" "[9]" 1, unfolded sp off])
      (unfold example_dev_bytes, simp_all)
qed

end
