(* ===== verification/LK_Libc_Str.thy ===== *)
theory LK_Libc_Str
  imports LK_Prelude
begin

text \<open>
  The string routines of the C library (\<^verbatim>\<open>lib/libc/string/str*.c\<close>). A pointer into a buffer is the list
  of the bytes from there to the end of the buffer; running over the end is \<open>None\<close>. A pointer result is
  the distance from the argument. \<open>cstr\<close> relates a buffer to the string it holds.
\<close>

subsection \<open>Lengths and searches\<close>

fun strlen :: "u8 list \<Rightarrow> nat option" where
  "strlen [] = None"
| "strlen (c # s) = (if c \<noteq> 0 then map_option Suc (strlen s) else Some 0)"

fun strnlen :: "u8 list \<Rightarrow> nat \<Rightarrow> nat option" where
  "strnlen s 0 = Some 0"
| "strnlen [] (Suc count) = None"
| "strnlen (c # s) (Suc count) = (if c \<noteq> 0 then map_option Suc (strnlen s count) else Some 0)"

fun strchr :: "u8 list \<Rightarrow> u8 \<Rightarrow> nat option option" where
  "strchr [] c = None"
| "strchr (x # s) c =
     (if x \<noteq> c then (if x = 0 then Some None else map_option (map_option Suc) (strchr s c)) else Some (Some 0))"

fun strrchr_loop :: "u8 list \<Rightarrow> u8 \<Rightarrow> nat \<Rightarrow> nat option \<Rightarrow> nat option option" where
  "strrchr_loop [] c i found = None"
| "strrchr_loop (x # s) c i found =
     (if x \<noteq> 0 then strrchr_loop s c (i + 1) (if x = c then Some i else found) else Some found)"

definition strrchr :: "u8 list \<Rightarrow> u8 \<Rightarrow> nat option option" where
  "strrchr s c = strrchr_loop s c 0 (if c \<noteq> 0 then None else Some 0)"

text \<open>The inner loop of \<open>strspn\<close> and \<open>strpbrk\<close>: does the second string have the character?\<close>

fun in_set :: "u8 \<Rightarrow> u8 list \<Rightarrow> bool option" where
  "in_set c [] = None"
| "in_set c (a # as) = (if a \<noteq> 0 then (if c = a then Some True else in_set c as) else Some False)"

fun strspn :: "u8 list \<Rightarrow> u8 list \<Rightarrow> nat option" where
  "strspn [] accept = None"
| "strspn (p # s) accept =
     (if p \<noteq> 0
      then do { hit \<leftarrow> in_set p accept; if hit then map_option Suc (strspn s accept) else Some 0 }
      else Some 0)"

fun strpbrk :: "u8 list \<Rightarrow> u8 list \<Rightarrow> nat option option" where
  "strpbrk [] ct = None"
| "strpbrk (c # cs) ct =
     (if c \<noteq> 0
      then do { hit \<leftarrow> in_set c ct; if hit then Some (Some 0) else map_option (map_option Suc) (strpbrk cs ct) }
      else Some None)"

subsection \<open>Comparisons\<close>

text \<open>The difference of two characters is kept in a \<open>signed char\<close>.\<close>

fun strcmp :: "u8 list \<Rightarrow> u8 list \<Rightarrow> int option" where
  "strcmp (c # cs) (t # ct) =
     (let res = c - t in if res \<noteq> 0 \<or> c = 0 then Some (sint res) else strcmp cs ct)"
| "strcmp _ _ = None"

definition strcoll :: "u8 list \<Rightarrow> u8 list \<Rightarrow> int option" where
  "strcoll s1 s2 = strcmp s1 s2"

fun strncmp :: "u8 list \<Rightarrow> u8 list \<Rightarrow> nat \<Rightarrow> int option" where
  "strncmp cs ct 0 = Some 0"
| "strncmp (c # cs) (t # ct) (Suc count) =
     (let res = c - t in if res \<noteq> 0 \<or> c = 0 then Some (sint res) else strncmp cs ct count)"
| "strncmp _ _ (Suc count) = None"

text \<open>\<open>memcmp\<close> on two buffers, as \<open>strstr\<close> uses it.\<close>

fun buf_memcmp :: "u8 list \<Rightarrow> u8 list \<Rightarrow> nat \<Rightarrow> int option" where
  "buf_memcmp cs ct 0 = Some 0"
| "buf_memcmp (c # cs) (t # ct) (Suc count) =
     (let res = c - t in if res \<noteq> 0 then Some (sint res) else buf_memcmp cs ct count)"
| "buf_memcmp _ _ (Suc count) = None"

definition tolower_u8 :: "u8 \<Rightarrow> u8" where
  "tolower_u8 c = (if c \<ge> 65 \<and> c \<le> 90 then c + 32 else c)"

fun strnicmp_loop :: "u8 list \<Rightarrow> u8 list \<Rightarrow> nat \<Rightarrow> u8 \<Rightarrow> u8 \<Rightarrow> int option" where
  "strnicmp_loop s1 s2 0 c1 c2 = Some (uint c1 - uint c2)"
| "strnicmp_loop (a # s1) (b # s2) (Suc len) c1 c2 =
     (if a = 0 \<or> b = 0 then Some (uint a - uint b)
      else if a = b then strnicmp_loop s1 s2 len a b
      else if tolower_u8 a \<noteq> tolower_u8 b then Some (uint (tolower_u8 a) - uint (tolower_u8 b))
      else strnicmp_loop s1 s2 len (tolower_u8 a) (tolower_u8 b))"
| "strnicmp_loop _ _ (Suc len) c1 c2 = None"

definition strnicmp :: "u8 list \<Rightarrow> u8 list \<Rightarrow> nat \<Rightarrow> int option" where
  "strnicmp s1 s2 len = strnicmp_loop s1 s2 len 0 0"

fun strstr_loop :: "nat \<Rightarrow> nat \<Rightarrow> u8 list \<Rightarrow> u8 list \<Rightarrow> nat option option" where
  "strstr_loop 0 l2 s1 s2 =
     (if 0 \<ge> l2 then do { r \<leftarrow> buf_memcmp s1 s2 l2; Some (if r = 0 then Some 0 else None) } else Some None)"
| "strstr_loop (Suc l1) l2 s1 s2 =
     (if Suc l1 \<ge> l2
      then do {
        r \<leftarrow> buf_memcmp s1 s2 l2;
        if r = 0 then Some (Some 0) else map_option (map_option Suc) (strstr_loop l1 l2 (tl s1) s2) }
      else Some None)"

definition strstr :: "u8 list \<Rightarrow> u8 list \<Rightarrow> nat option option" where
  "strstr s1 s2 = do {
     l2 \<leftarrow> strlen s2;
     if l2 = 0 then Some (Some 0)
     else do { l1 \<leftarrow> strlen s1; strstr_loop l1 l2 s1 s2 } }"

subsection \<open>Copies\<close>

text \<open>The destination is a buffer; the result is what the buffer holds afterwards.\<close>

fun strcpy :: "u8 list \<Rightarrow> u8 list \<Rightarrow> u8 list option" where
  "strcpy (d # dest) (c # src) = (if c \<noteq> 0 then map_option ((#) c) (strcpy dest src) else Some (c # dest))"
| "strcpy _ _ = None"

fun strncpy :: "u8 list \<Rightarrow> u8 list \<Rightarrow> nat \<Rightarrow> u8 list option" where
  "strncpy dest src 0 = Some dest"
| "strncpy (d # dest) (c # src) (Suc count) = (if c \<noteq> 0 then map_option ((#) c) (strncpy dest src count) else Some (c # dest))"
| "strncpy _ _ (Suc count) = None"

fun strcat :: "u8 list \<Rightarrow> u8 list \<Rightarrow> u8 list option" where
  "strcat [] src = None"
| "strcat (d # dest) src = (if d \<noteq> 0 then map_option ((#) d) (strcat dest src) else strcpy (d # dest) src)"

fun strncat_copy :: "u8 list \<Rightarrow> u8 list \<Rightarrow> nat \<Rightarrow> u8 list option" where
  "strncat_copy (d # dest) (c # src) count =
     (if c \<noteq> 0
      then (if count - 1 = 0
            then (case dest of [] \<Rightarrow> None | _ # dest' \<Rightarrow> Some (c # 0 # dest'))
            else map_option ((#) c) (strncat_copy dest src (count - 1)))
      else Some (c # dest))"
| "strncat_copy _ _ count = None"

fun strncat_end :: "u8 list \<Rightarrow> u8 list \<Rightarrow> nat \<Rightarrow> u8 list option" where
  "strncat_end [] src count = None"
| "strncat_end (d # dest) src count =
     (if d \<noteq> 0 then map_option ((#) d) (strncat_end dest src count) else strncat_copy (d # dest) src count)"

definition strncat :: "u8 list \<Rightarrow> u8 list \<Rightarrow> nat \<Rightarrow> u8 list option" where
  "strncat dest src count = (if count > 0 then strncat_end dest src count else Some dest)"

text \<open>The loop of \<open>strlcpy\<close> and of \<open>strlcat\<close>: at most \<open>n\<close> characters, and the 0; the count goes with the buffer.\<close>

fun copy_n :: "nat \<Rightarrow> u8 list \<Rightarrow> u8 list \<Rightarrow> (u8 list \<times> nat) option" where
  "copy_n 0 (d # dst) src = Some (0 # dst, 0)"
| "copy_n (Suc n) (d # dst) (c # src) =
     (if c \<noteq> 0 then map_option (\<lambda>(b, i). (c # b, Suc i)) (copy_n n dst src) else Some (0 # dst, 0))"
| "copy_n _ _ _ = None"

definition strlcpy :: "u8 list \<Rightarrow> u8 list \<Rightarrow> nat \<Rightarrow> (u8 list \<times> nat) option" where
  "strlcpy dst src s =
     (if s = 0 then map_option (Pair dst) (strlen src)
      else do {
        (dst', i) \<leftarrow> copy_n (s - 1) dst src;
        n \<leftarrow> strlen (drop i src);
        Some (dst', i + n) })"

definition strlcat :: "u8 list \<Rightarrow> u8 list \<Rightarrow> nat \<Rightarrow> (u8 list \<times> nat) option" where
  "strlcat dst src s = do {
     j \<leftarrow> strnlen dst s;
     if s = 0 then map_option (\<lambda>n. (dst, j + n)) (strlen src)
     else do {
       (dst', i) \<leftarrow> copy_n (s - 1) (drop j dst) src;
       n \<leftarrow> strlen (drop i src);
       Some (take j dst @ dst', j + i + n) } }"

definition strxfrm :: "u8 list \<Rightarrow> u8 list \<Rightarrow> nat \<Rightarrow> (u8 list \<times> nat) option" where
  "strxfrm dest src n = do {
     len \<leftarrow> strlen src;
     if n \<noteq> 0
     then do {
       let copy_len = (if len < n then len else n - 1);
       dest1 \<leftarrow> memcpy_into 0 (take copy_len src) dest;
       dest2 \<leftarrow> memcpy_into copy_len [0] dest1;
       Some (dest2, len) }
     else Some (dest, len) }"

text \<open>\<open>strdup\<close>: \<open>malloc\<close> returns a buffer of the size that is asked for, or nothing.\<close>

definition strdup :: "(nat \<Rightarrow> u8 list option) \<Rightarrow> u8 list \<Rightarrow> u8 list option option" where
  "strdup malloc str = do {
     n \<leftarrow> strlen str;
     let len = n + 1;
     case malloc len of
       None \<Rightarrow> Some None
     | Some copy \<Rightarrow> do { r \<leftarrow> memcpy_into 0 (take len str) copy; Some (Some r) } }"

definition strerror :: "int \<Rightarrow> string" where
  "strerror errnum = (if errnum < 0 then ''General Error'' else ''No Error'')"

subsection \<open>Tokens\<close>

text \<open>
  \<open>strtok\<close> works on one buffer; its static pointer is an index into it. A call with a string starts at
  index 0. The result is the index of the token.
\<close>

definition strtok :: "bool \<Rightarrow> u8 list \<Rightarrow> nat option \<times> u8 list \<Rightarrow> (nat option \<times> nat option \<times> u8 list) option" where
  "strtok fresh ct = (\<lambda>(saved, buf).
     case (if fresh then Some 0 else saved) of
       None \<Rightarrow> Some (None, saved, buf)
     | Some sbegin0 \<Rightarrow> do {
         k \<leftarrow> strspn (drop sbegin0 buf) ct;
         let sbegin = sbegin0 + k;
         if buf ! sbegin = 0 then Some (None, None, buf)
         else do {
           send \<leftarrow> strpbrk (drop sbegin buf) ct;
           case send of
             None \<Rightarrow> Some (Some sbegin, None, buf)
           | Some e \<Rightarrow> Some (Some sbegin, Some (sbegin + e + 1), buf[sbegin + e := 0]) } })"

subsection \<open>Strings in buffers\<close>

definition cstr :: "u8 list \<Rightarrow> u8 list \<Rightarrow> bool" where
  "cstr s buf \<longleftrightarrow> 0 \<notin> set s \<and> (\<exists>rest. buf = s @ 0 # rest)"

lemma cstrE:
  assumes "cstr s buf"
  obtains rest where "0 \<notin> set s" and "buf = s @ 0 # rest"
  using assms by (auto simp: cstr_def)

lemma strlen_cstr: "0 \<notin> set s \<Longrightarrow> strlen (s @ 0 # rest) = Some (length s)"
  by (induction s) auto

lemma strlen_drop: "0 \<notin> set s \<Longrightarrow> i \<le> length s \<Longrightarrow> strlen (drop i (s @ 0 # rest)) = Some (length s - i)"
  using strlen_cstr [of "drop i s" rest] by (simp add: drop_append) (metis in_set_dropD)

lemma copy_n_cstr:
  "0 \<notin> set s \<Longrightarrow> min n (length s) < length dst \<Longrightarrow>
   copy_n n dst (s @ 0 # rest) = Some (take n s @ 0 # drop (Suc (min n (length s))) dst, min n (length s))"
proof (induction n arbitrary: dst s)
  case 0
  then show ?case by (cases dst) auto
next
  case (Suc n)
  then obtain d dst' where dst: "dst = d # dst'" by (cases dst) auto
  show ?case
  proof (cases s)
    case (Cons c s')
    then show ?thesis using Suc.IH [of s' dst'] Suc.prems dst by auto
  qed (simp add: dst)
qed

lemma strlen_after: "0 \<notin> set s \<Longrightarrow> strlen (drop (min n (length s)) (s @ 0 # rest)) = Some (length s - min n (length s))"
  by (rule strlen_drop) simp_all

lemma strnlen_cstr: "0 \<notin> set s \<Longrightarrow> strnlen (s @ 0 # rest) n = Some (min n (length s))"
proof (induction n arbitrary: s)
  case (Suc n)
  then show ?case by (cases s) auto
qed simp

lemma copy_n_overrun: "0 \<notin> set s \<Longrightarrow> length dst \<le> min n (length s) \<Longrightarrow> copy_n n dst (s @ 0 # rest) = None"
proof (induction n arbitrary: dst s)
  case 0
  then show ?case by simp
next
  case (Suc n)
  then show ?case by (cases dst; cases s) auto
qed

subsection \<open>Properties of the copies\<close>

text \<open>
  \<open>strlcpy\<close> into a buffer of at least the size it is told: the buffer holds the first \<open>n - 1\<close>
  characters of the source and a 0, the bytes behind it are untouched, and the result is the length
  of the source, so that a caller can tell a truncation.
\<close>

theorem strlcpy_truncates:
  assumes "cstr s src" and "0 < n" and "n \<le> length dst"
  shows "strlcpy dst src n = Some (take (n - 1) s @ 0 # drop (Suc (min (n - 1) (length s))) dst, length s)"
proof -
  obtain rest where r: "0 \<notin> set s" "src = s @ 0 # rest" using assms(1) by (rule cstrE)
  show ?thesis
    using assms(2,3) copy_n_cstr [OF r(1), of "n - 1" dst rest] strlen_after [OF r(1), of "n - 1" rest]
    by (simp add: strlcpy_def r(2))
qed

theorem strlcpy_truncates_witness: "strlcpy [9, 9, 9, 9] [97, 98, 99, 100, 0] 3 = Some ([97, 98, 0, 9], length [97, 98, 99, 100 :: u8])"
  using strlcpy_truncates [of "[97, 98, 99, 100]" "[97, 98, 99, 100, 0]" 3 "[9, 9, 9, 9]"]
  by (simp add: cstr_def numeral_3_eq_3)



subsection \<open>Properties of the comparisons and of the tokens\<close>

lemma strcmp_cstr:
  "0 \<notin> set s \<Longrightarrow> 0 \<notin> set t \<Longrightarrow> \<exists>r. strcmp (s @ 0 # x) (t @ 0 # y) = Some r \<and> (r = 0 \<longleftrightarrow> s = t)"
proof (induction s arbitrary: t)
  case Nil
  then show ?case by (cases t) (auto simp: Let_def signed_eq_0_iff)
next
  case (Cons c s)
  show ?case
  proof (cases t)
    case Nil
    then show ?thesis using Cons.prems by (auto simp: Let_def signed_eq_0_iff)
  next
    case (Cons d t')
    then show ?thesis using Cons.IH [of t'] Cons.prems by (auto simp: Let_def signed_eq_0_iff)
  qed
qed

text \<open>
  \<open>strcmp\<close> of two strings returns, and it returns zero exactly when they are equal.
\<close>

theorem strcmp_equal:
  assumes "cstr s a" and "cstr t b"
  shows "\<exists>r. strcmp a b = Some r \<and> (r = 0 \<longleftrightarrow> s = t)"
  using assms strcmp_cstr by (metis cstrE)

theorem strcmp_equal_witness: "\<exists>r. strcmp [104, 105, 0, 1] [104, 105, 0, 2] = Some r \<and> (r = 0 \<longleftrightarrow> [104, 105 :: u8] = [104, 105])"
  by (rule strcmp_equal) (simp_all add: cstr_def)

text \<open>The tokens of a string: the maximal runs of characters that are no delimiters.\<close>

function tokens :: "'a set \<Rightarrow> 'a list \<Rightarrow> 'a list list" where
  "tokens D s =
     (let s' = dropWhile (\<lambda>c. c \<in> D) s in
      if s' = [] then [] else takeWhile (\<lambda>c. c \<notin> D) s' # tokens D (dropWhile (\<lambda>c. c \<notin> D) s'))"
  by pat_completeness auto
termination
proof (relation "measure (length \<circ> snd)", simp)
  fix D :: "'a set" and s x assume x: "x = dropWhile (\<lambda>c. c \<in> D) s" and ne: "x \<noteq> []"
  have "hd x \<notin> D" using hd_dropWhile [of "\<lambda>c. c \<in> D" s] ne x by simp
  then have "length (dropWhile (\<lambda>c. c \<notin> D) x) < length x"
    using ne by (cases x) (auto simp: le_imp_less_Suc length_dropWhile_le)
  also have "length x \<le> length s" unfolding x by (rule length_dropWhile_le)
  finally show "((D, dropWhile (\<lambda>c. c \<notin> D) x), D, s) \<in> measure (length \<circ> snd)" by simp
qed

declare tokens.simps [simp del]

lemma tokens_delim: "c \<in> D \<Longrightarrow> tokens D (c # s) = tokens D s"
  by (simp add: tokens.simps [of D "c # s"] tokens.simps [of D s])

lemma in_set_cstr: "0 \<notin> set D \<Longrightarrow> in_set c (D @ 0 # x) = Some (c \<in> set D)"
  by (induction D) auto

lemma strspn_cstr:
  "0 \<notin> set s \<Longrightarrow> 0 \<notin> set D \<Longrightarrow> strspn (s @ 0 # r) (D @ 0 # x) = Some (length (takeWhile (\<lambda>c. c \<in> set D) s))"
  by (induction s) (auto simp: in_set_cstr)

lemma strpbrk_cstr:
  "0 \<notin> set s \<Longrightarrow> 0 \<notin> set D \<Longrightarrow> strpbrk (s @ 0 # r) (D @ 0 # x) =
     Some (if set s \<inter> set D = {} then None else Some (length (takeWhile (\<lambda>c. c \<notin> set D) s)))"
  by (induction s) (auto simp: in_set_cstr)

text \<open>What is left for \<open>strtok\<close> to do: the string at its saved pointer, or nothing.\<close>

definition strtok_rest :: "nat option \<Rightarrow> u8 list \<Rightarrow> u8 list \<Rightarrow> bool" where
  "strtok_rest saved buf s \<longleftrightarrow> (case saved of None \<Rightarrow> s = [] | Some p \<Rightarrow> p \<le> length buf \<and> cstr s (drop p buf))"

text \<open>
  \<open>strtok\<close> delivers the tokens of a string one after the other: a call returns NULL when the rest of
  the string has none; otherwise it returns a pointer to the first token, as a string of its own, and
  the rest it keeps for the next call has the remaining tokens.
\<close>

theorem strtok_next:
  assumes "strtok_rest saved buf s" and "cstr D ct" and "D \<noteq> []"
  shows "\<exists>r saved' buf' s'. strtok False ct (saved, buf) = Some (r, saved', buf') \<and> length buf' = length buf \<and>
    strtok_rest saved' buf' s' \<and>
    (case r of
       None \<Rightarrow> tokens (set D) s = [] \<and> s' = []
     | Some i \<Rightarrow> \<exists>tok. tokens (set D) s = tok # tokens (set D) s' \<and> cstr tok (drop i buf') \<and> tok \<noteq> [])"
proof (cases saved)
  case None
  then show ?thesis using assms(1) by (auto simp: strtok_rest_def strtok_def tokens.simps)
next
  case (Some p)
  obtain x where D: "0 \<notin> set D" "ct = D @ 0 # x" using assms(2) by (rule cstrE)
  obtain rest where s: "0 \<notin> set s" "drop p buf = s @ 0 # rest" and p: "p \<le> length buf"
    using assms(1) Some by (auto simp: strtok_rest_def cstr_def)
  define u where "u = dropWhile (\<lambda>c. c \<in> set D) s"
  define k where "k = length (takeWhile (\<lambda>c. c \<in> set D) s)"
  have sk: "drop k s = u" "k \<le> length s" by (simp_all add: u_def k_def dropWhile_eq_drop length_takeWhile_le)
  have u0: "0 \<notin> set u" using s(1) set_dropWhileD unfolding u_def by fastforce
  have du: "drop (p + k) buf = u @ 0 # rest"
  proof -
    have "drop (p + k) buf = drop k (s @ 0 # rest)" by (simp add: s(2) [symmetric] add.commute)
    then show ?thesis using sk by simp
  qed
  have "p + k \<le> length buf" using arg_cong [OF s(2), of length] sk(2) p by simp
  then have at: "buf ! (p + k) = hd (u @ [0])"
    using nth_drop [of "p + k" buf 0] du by (cases u) simp_all
  have sp: "strspn (drop p buf) ct = Some k" using strspn_cstr [OF s(1) D(1)] s(2) D(2) by (simp add: k_def)
  show ?thesis
  proof (cases "u = []")
    case True
    then have "tokens (set D) s = []" by (simp add: tokens.simps u_def [symmetric])
    moreover have "strtok False ct (saved, buf) = Some (None, None, buf)" using Some sp at True by (simp add: strtok_def)
    ultimately show ?thesis by (simp add: strtok_rest_def)
  next
    case False
    define tok where "tok = takeWhile (\<lambda>c. c \<notin> set D) u"
    have hu: "hd u \<notin> set D" using False hd_dropWhile [of "\<lambda>c. c \<in> set D" s] by (simp add: u_def)
    then have tne: "tok \<noteq> []" using False by (cases u) (auto simp: tok_def)
    have tk: "tokens (set D) s = tok # tokens (set D) (dropWhile (\<lambda>c. c \<notin> set D) u)"
      using False by (subst tokens.simps) (simp add: u_def [symmetric] tok_def Let_def)
    have tok0: "0 \<notin> set tok" using u0 set_takeWhileD unfolding tok_def by fastforce
    have nz: "buf ! (p + k) \<noteq> 0" using at False u0 by (cases u) auto
    have pb: "strpbrk (drop (p + k) buf) ct = Some (if set u \<inter> set D = {} then None else Some (length tok))"
      using strpbrk_cstr [OF u0 D(1)] du D(2) by (simp add: tok_def)
    show ?thesis
    proof (cases "set u \<inter> set D = {}")
      case True
      then have all: "tok = u" "dropWhile (\<lambda>c. c \<notin> set D) u = []" by (auto simp: tok_def takeWhile_eq_all_conv dropWhile_eq_Nil_conv)
      have "tokens (set D) s = u # tokens (set D) []" using tk unfolding all .
      moreover have "cstr u (drop (p + k) buf)" using du u0 by (auto simp: cstr_def)
      moreover have "strtok False ct (saved, buf) = Some (Some (p + k), None, buf)" using Some sp nz pb True by (simp add: strtok_def)
      ultimately show ?thesis using False by (auto simp: strtok_rest_def)
    next
      case hit: False
      obtain c v where v: "dropWhile (\<lambda>c. c \<notin> set D) u = c # v" using hit by (cases "dropWhile (\<lambda>c. c \<notin> set D) u") (auto simp: dropWhile_eq_Nil_conv)
      have cD: "c \<in> set D" using hd_dropWhile [of "\<lambda>c. c \<notin> set D" u] v by simp
      have uv: "u = tok @ c # v" using takeWhile_dropWhile_id [of "\<lambda>c. c \<notin> set D" u] v by (simp add: tok_def)
      let ?e = "p + k + length tok"
      let ?buf = "buf[?e := 0]"
      have len: "?e < length buf" using arg_cong [OF du, of length] uv by simp
      have d1: "drop (p + k) ?buf = tok @ 0 # v @ 0 # rest"
        using du uv by (simp add: drop_update_swap list_update_append)
      then have "cstr tok (drop (p + k) ?buf)" using tok0 by (auto simp: cstr_def)
      moreover have "drop (?e + 1) ?buf = v @ 0 # rest"
        using arg_cong [OF d1, of "drop (length tok + 1)"] by (simp add: add.commute add.left_commute)
      then have "strtok_rest (Some (?e + 1)) ?buf v" using u0 uv len by (auto simp: strtok_rest_def cstr_def)
      moreover have "tokens (set D) s = tok # tokens (set D) v" using tk v tokens_delim [OF cD] by simp
      moreover have "strtok False ct (saved, buf) = Some (Some (p + k), Some (?e + 1), ?buf)"
        using Some sp nz pb hit by (simp add: strtok_def Let_def)
      ultimately show ?thesis using tne by auto
    qed
  qed
qed

theorem strtok_next_witness:
  "strtok_rest (Some 0) [32, 97, 32, 98, 0] [32, 97, 32, 98] \<and>
   (\<exists>r saved' buf'. strtok False [32, 0] (Some 0, [32, 97, 32, 98, 0]) = Some (r, saved', buf') \<and> length buf' = length [32, 97, 32, 98, 0 :: u8])"
proof -
  have r: "strtok_rest (Some 0) [32, 97, 32, 98, 0] [32, 97, 32, 98]" "cstr [32] [32, 0]" by (simp_all add: strtok_rest_def cstr_def)
  show ?thesis using strtok_next [OF r] r by blast
qed

end
