(* ===== verification/LK_Path.thy ===== *)
theory LK_Path
  imports LK_Libc_Str
begin

text \<open>
  The normal form of paths (\<open>fs_normalize_path\<close> of \<^verbatim>\<open>lib/fs/fs.c\<close>). The function rewrites a string in
  its buffer with an automaton: it reads at \<open>pos\<close> and writes at \<open>outpos\<close>. \<open>None\<close> is an access outside
  of the buffer. The automaton is compared with a definition on the fields of the path.
\<close>

subsection \<open>The function\<close>

datatype norm_state = INITIAL | FIELD_START | IN_FIELD | SEP | SEEN_SEP | DOT | SEEN_DOT | DOTDOT | SEEN_DOTDOT

abbreviation slash :: u8 where "slash \<equiv> 47"
abbreviation dot :: u8 where "dot \<equiv> 46"

definition poke :: "nat \<Rightarrow> u8 \<Rightarrow> u8 list \<Rightarrow> u8 list option" where
  "poke i c path = (if i < length path then Some (path[i := c]) else None)"

text \<open>\<open>..\<close> takes back the last field that has been written.\<close>

fun walk_back :: "u8 list \<Rightarrow> nat \<Rightarrow> nat" where
  "walk_back path 0 = 0"
| "walk_back path (Suc outpos) = (if path ! outpos = slash then Suc outpos else walk_back path outpos)"

text \<open>One turn of the loop with \<open>c = path[pos]\<close>: the new state, \<open>done\<close>, the buffer and the two positions.\<close>

definition norm_step :: "norm_state \<Rightarrow> u8 \<Rightarrow> u8 list \<Rightarrow> nat \<Rightarrow> nat \<Rightarrow> (norm_state \<times> bool \<times> u8 list \<times> nat \<times> nat) option" where
  "norm_step state c path pos outpos =
     (case state of
        INITIAL \<Rightarrow>
          Some (if c = slash then SEP else if c = dot then DOT else FIELD_START, False, path, pos, outpos)
      | FIELD_START \<Rightarrow>
          Some (if c = dot then (DOT, False, path, pos, outpos)
                else if c = 0 then (state, True, path, pos, outpos)
                else (IN_FIELD, False, path, pos, outpos))
      | IN_FIELD \<Rightarrow>
          (if c = slash then Some (SEP, False, path, pos, outpos)
           else if c = 0 then Some (state, True, path, pos, outpos)
           else do { path1 \<leftarrow> poke outpos c path; Some (state, False, path1, pos + 1, outpos + 1) })
      | SEP \<Rightarrow> do { path1 \<leftarrow> poke outpos slash path; Some (SEEN_SEP, False, path1, pos + 1, outpos + 1) }
      | SEEN_SEP \<Rightarrow>
          Some (if c = slash then (state, False, path, pos + 1, outpos)
                else if c = 0 then (state, True, path, pos, outpos)
                else (FIELD_START, False, path, pos, outpos))
      | DOT \<Rightarrow> Some (SEEN_DOT, False, path, pos + 1, outpos)
      | SEEN_DOT \<Rightarrow>
          (if c = dot then Some (DOTDOT, False, path, pos, outpos)
           else if c = slash then Some (SEEN_SEP, False, path, pos + 1, outpos)
           else if c = 0 then Some (state, True, path, pos, outpos)
           else do { path1 \<leftarrow> poke outpos dot path; Some (IN_FIELD, False, path1, pos, outpos + 1) })
      | DOTDOT \<Rightarrow> Some (SEEN_DOTDOT, False, path, pos + 1, outpos)
      | SEEN_DOTDOT \<Rightarrow>
          (if c = slash \<or> c = 0
           then Some (SEEN_SEP, c = 0, path, pos + 1, if outpos > 0 then walk_back path (outpos - 1) else outpos)
           else do {
             path1 \<leftarrow> poke outpos dot path;
             path2 \<leftarrow> poke (outpos + 1) dot path1;
             Some (IN_FIELD, False, path2, pos, outpos + 2) }))"

fun state_rank :: "norm_state \<Rightarrow> nat" where
  "state_rank INITIAL = 3"
| "state_rank SEEN_SEP = 3"
| "state_rank FIELD_START = 2"
| "state_rank SEEN_DOT = 2"
| "state_rank SEEN_DOTDOT = 2"
| "state_rank IN_FIELD = 1"
| "state_rank _ = 0"

lemma length_poke: "poke i c path = Some path1 \<Longrightarrow> length path1 = length path"
  by (auto simp: poke_def split: if_splits)

lemma norm_step_down:
  assumes "norm_step state c path pos outpos = Some (state', False, path', pos', outpos')" and "pos < length path"
  shows "5 * (length path' - pos') + state_rank state' < 5 * (length path - pos) + state_rank state"
    and "length path' = length path"
  using assms
  by (cases state; auto simp: norm_step_def dest!: length_poke split: if_splits Option.bind_splits)+

function norm_loop :: "norm_state \<Rightarrow> u8 list \<Rightarrow> nat \<Rightarrow> nat \<Rightarrow> (u8 list \<times> nat) option" where
  "norm_loop state path pos outpos =
     (if pos < length path
      then (case norm_step state (path ! pos) path pos outpos of
              None \<Rightarrow> None
            | Some (state', finished, path', pos', outpos') \<Rightarrow>
                if finished then Some (path', outpos') else norm_loop state' path' pos' outpos')
      else None)"
  by pat_completeness auto
termination
  by (relation "measure (\<lambda>(state, path, pos, outpos). 5 * (length path - pos) + state_rank state)")
    (auto dest: norm_step_down)

declare norm_loop.simps [simp del]

definition fs_normalize_path :: "u8 list \<Rightarrow> u8 list option" where
  "fs_normalize_path path = do {
     (path1, outpos) \<leftarrow> norm_loop INITIAL path 0 0;
     let outpos1 = (if outpos > 0 \<and> path1 ! (outpos - 1) = slash then outpos - 1 else outpos);
     poke outpos1 0 path1 }"

subsection \<open>The normal form\<close>

text \<open>The fields between the slashes.\<close>

fun fields :: "u8 list \<Rightarrow> u8 list list" where
  "fields [] = [[]]"
| "fields (c # cs) = (if c = slash then [] # fields cs else (case fields cs of f # fs \<Rightarrow> (c # f) # fs | [] \<Rightarrow> [[c]]))"

text \<open>
  Whether the path starts at the root, and its fields so far: empty fields and \<open>.\<close> are dropped, \<open>..\<close>
  takes back a field, and at the root it takes back the root.
\<close>

definition norm_field :: "u8 list \<Rightarrow> bool \<times> u8 list list \<Rightarrow> bool \<times> u8 list list" where
  "norm_field f = (\<lambda>(rooted, fs).
     if f = [] \<or> f = [dot] then (rooted, fs)
     else if f = [dot, dot] then (if fs = [] then (False, []) else (rooted, butlast fs))
     else (rooted, fs @ [f]))"

definition render :: "bool \<times> u8 list list \<Rightarrow> u8 list" where
  "render = (\<lambda>(rooted, fs). (if rooted then [slash] else []) @ concat (map (\<lambda>f. f @ [slash]) fs))"

definition normal_path :: "u8 list \<Rightarrow> u8 list" where
  "normal_path s = butlast (render (fold norm_field (fields s) (s \<noteq> [] \<and> hd s = slash, [])))"

subsection \<open>The automaton on lists\<close>

text \<open>The automaton with the text it has written and the text it has not read, between its transient states.\<close>

definition take_back :: "u8 list \<Rightarrow> u8 list" where
  "take_back out = rev (dropWhile (\<lambda>c. c \<noteq> slash) (rev (butlast out)))"

fun nauto :: "norm_state \<Rightarrow> u8 list \<Rightarrow> u8 list \<Rightarrow> u8 list" where
  "nauto IN_FIELD out [] = out"
| "nauto IN_FIELD out (c # t) = (if c = slash then nauto SEEN_SEP (out @ [slash]) t else nauto IN_FIELD (out @ [c]) t)"
| "nauto SEEN_DOT out [] = out"
| "nauto SEEN_DOT out (c # t) =
     (if c = dot then nauto SEEN_DOTDOT out t else if c = slash then nauto SEEN_SEP out t else nauto IN_FIELD (out @ [dot, c]) t)"
| "nauto SEEN_DOTDOT out [] = take_back out"
| "nauto SEEN_DOTDOT out (c # t) = (if c = slash then nauto SEEN_SEP (take_back out) t else nauto IN_FIELD (out @ [dot, dot, c]) t)"
| "nauto _ out [] = out"
| "nauto _ out (c # t) = (if c = slash then nauto SEEN_SEP out t else if c = dot then nauto SEEN_DOT out t else nauto IN_FIELD (out @ [c]) t)"

lemma walk_back_eq:
  assumes "n \<le> length path"
  shows "walk_back path n \<le> n" and "take (walk_back path n) path = rev (dropWhile (\<lambda>c. c \<noteq> slash) (rev (take n path)))"
  using assms by (induction n) (auto simp: take_Suc_conv_app_nth)

lemma walk_back_back:
  assumes "outpos \<le> length path" and "take outpos path = out"
  shows "(if outpos > 0 then walk_back path (outpos - 1) else outpos) = length (take_back out)"
    and "length (take_back out) \<le> outpos" and "take (length (take_back out)) path = take_back out"
proof -
  have "butlast out = take (outpos - 1) path" using assms by (simp add: butlast_conv_take [symmetric] flip: assms(2)) (simp add: butlast_take)
  then have "take (walk_back path (outpos - 1)) path = take_back out" "walk_back path (outpos - 1) \<le> outpos - 1"
    using walk_back_eq [of "outpos - 1" path] assms(1) by (simp_all add: take_back_def)
  moreover from this have "length (take_back out) = walk_back path (outpos - 1)"
    using assms(1) by (metis diff_le_self le_trans length_take min.absorb2)
  moreover have "take_back [] = []" by (simp add: take_back_def)
  ultimately show "(if outpos > 0 then walk_back path (outpos - 1) else outpos) = length (take_back out)"
    "length (take_back out) \<le> outpos" "take (length (take_back out)) path = take_back out"
    using assms by auto
qed

lemma take_poke: "i < length path \<Longrightarrow> take (Suc i) (path[i := c]) = take i path @ [c]"
  by (simp add: take_Suc_conv_app_nth)

lemma norm_loop_step:
  "pos < length path \<Longrightarrow> norm_step state (path ! pos) path pos outpos = Some (state', False, path', pos', outpos') \<Longrightarrow>
   norm_loop state path pos outpos = norm_loop state' path' pos' outpos'"
  by (subst norm_loop.simps) simp

lemma norm_loop_in_field:
  assumes "pos < length path" and "path ! pos = c" and "c \<noteq> 0" and "outpos \<le> pos"
  shows "norm_loop IN_FIELD path pos outpos =
    (if c = slash then norm_loop SEEN_SEP (path[outpos := slash]) (Suc pos) (Suc outpos)
     else norm_loop IN_FIELD (path[outpos := c]) (Suc pos) (Suc outpos))"
  using assms by (simp add: norm_loop_step norm_step_def poke_def)

lemma norm_loop_seen_sep:
  assumes "pos < length path" and "path ! pos = c" and "c \<noteq> 0" and "outpos \<le> pos"
  shows "norm_loop SEEN_SEP path pos outpos =
    (if c = slash then norm_loop SEEN_SEP path (Suc pos) outpos
     else if c = dot then norm_loop SEEN_DOT path (Suc pos) outpos
     else norm_loop IN_FIELD (path[outpos := c]) (Suc pos) (Suc outpos))"
  using assms by (simp add: norm_loop_step norm_step_def poke_def)

lemma norm_loop_seen_dot:
  assumes "pos < length path" and "path ! pos = c" and "c \<noteq> 0" and "outpos < pos"
  shows "norm_loop SEEN_DOT path pos outpos =
    (if c = dot then norm_loop SEEN_DOTDOT path (Suc pos) outpos
     else if c = slash then norm_loop SEEN_SEP path (Suc pos) outpos
     else norm_loop IN_FIELD (path[outpos := dot, Suc outpos := c]) (Suc pos) (Suc (Suc outpos)))"
  using assms by (simp add: norm_loop_step norm_step_def poke_def)

lemma norm_loop_seen_dotdot:
  assumes "pos < length path" and "path ! pos = c" and "c \<noteq> 0" and "Suc outpos < pos" and "take outpos path = out"
  shows "norm_loop SEEN_DOTDOT path pos outpos =
    (if c = slash then norm_loop SEEN_SEP path (Suc pos) (length (take_back out))
     else norm_loop IN_FIELD (path[outpos := dot, Suc outpos := dot, Suc (Suc outpos) := c]) (Suc pos) (Suc (Suc (Suc outpos))))"
  using assms walk_back_back(1) [of outpos path out] by (simp add: norm_loop_step norm_step_def poke_def)

lemmas norm_loop_cases = norm_loop_in_field norm_loop_seen_sep norm_loop_seen_dot norm_loop_seen_dotdot

fun pending :: "norm_state \<Rightarrow> nat" where
  "pending SEEN_DOT = 1"
| "pending SEEN_DOTDOT = 2"
| "pending _ = 0"

text \<open>The loop stays in the buffer, never writes on text it has still to read, and ends with what the automaton writes.\<close>

lemma norm_loop_nauto:
  assumes "0 \<notin> set t" and "drop pos path = t @ 0 # rest" and "take outpos path = out" and "outpos + pending state \<le> pos"
    and "state \<in> {SEEN_SEP, IN_FIELD, SEEN_DOT, SEEN_DOTDOT}"
  shows "\<exists>path'. norm_loop state path pos outpos = Some (path', length (nauto state out t)) \<and>
    take (length (nauto state out t)) path' = nauto state out t \<and> length path' = length path \<and> length (nauto state out t) < length path"
  using assms
proof (induction t arbitrary: state path pos outpos out)
  case Nil
  have pos: "pos < length path" using Nil.prems(2) by (cases "pos < length path") auto
  have c: "path ! pos = 0" using Nil.prems(2) hd_drop_conv_nth [OF pos] by simp
  have o: "length out = outpos" "outpos \<le> pos" using Nil.prems(3,4) pos by auto
  note wb = walk_back_back [of outpos path out, OF _ Nil.prems(3)]
  show ?case using Nil.prems(3,5) pos o wb c
    by (subst norm_loop.simps) (auto simp: norm_step_def)
next
  case (Cons c t)
  have pos: "pos < length path" using Cons.prems(2) by (cases "pos < length path") auto
  have c: "path ! pos = c" "c \<noteq> 0" "0 \<notin> set t" using Cons.prems(1,2) hd_drop_conv_nth [OF pos] by auto
  have rest: "drop (Suc pos) path = t @ 0 # rest" using Cons.prems(2) by (metis append_Cons drop_Suc list.sel(3) tl_drop)
  have o: "length out = outpos" "outpos \<le> pos" using Cons.prems(3,4) pos by auto
  have step: ?case if "norm_loop state path pos outpos = norm_loop state' path' (Suc pos) outpos'" "nauto state out (c # t) = nauto state' out' t"
    "drop (Suc pos) path' = drop (Suc pos) path" "take outpos' path' = out'" "outpos' + pending state' \<le> Suc pos"
    "length path' = length path" "state' \<in> {SEEN_SEP, IN_FIELD, SEEN_DOT, SEEN_DOTDOT}" for state' path' outpos' out'
    using Cons.IH [OF c(3), of "Suc pos" path' outpos' out' state'] that rest by simp
  consider "state = SEEN_SEP" | "state = IN_FIELD" | "state = SEEN_DOT" | "state = SEEN_DOTDOT" using Cons.prems(5) by blast
  then show ?case
  proof cases
    case 1
    have n: "norm_loop state path pos outpos =
      (if c = slash then norm_loop SEEN_SEP path (Suc pos) outpos
       else if c = dot then norm_loop SEEN_DOT path (Suc pos) outpos
       else norm_loop IN_FIELD (path[outpos := c]) (Suc pos) (Suc outpos))"
      unfolding 1 by (rule norm_loop_seen_sep [OF pos c(1,2) o(2)])
    have t1: "take (Suc outpos) (path[outpos := c]) = out @ [c]" using take_poke [of outpos path c] o(2) pos Cons.prems(3) by simp
    show ?thesis
      using n 1 o t1 Cons.prems(3) step [of SEEN_SEP path outpos out] step [of SEEN_DOT path outpos out]
        step [of IN_FIELD "path[outpos := c]" "Suc outpos" "out @ [c]"]
      by (cases "c = slash"; cases "c = dot") simp_all
  next
    case 2
    have n: "norm_loop state path pos outpos =
      (if c = slash then norm_loop SEEN_SEP (path[outpos := slash]) (Suc pos) (Suc outpos)
       else norm_loop IN_FIELD (path[outpos := c]) (Suc pos) (Suc outpos))"
      unfolding 2 by (rule norm_loop_in_field [OF pos c(1,2) o(2)])
    have t1: "take (Suc outpos) (path[outpos := c]) = out @ [c]" using take_poke [of outpos path c] o(2) pos Cons.prems(3) by simp
    show ?thesis
      using n 2 o t1 step [of SEEN_SEP "path[outpos := c]" "Suc outpos" "out @ [c]"]
        step [of IN_FIELD "path[outpos := c]" "Suc outpos" "out @ [c]"]
      by (cases "c = slash") simp_all
  next
    case 3
    then have lt: "outpos < pos" using Cons.prems(4) by simp
    have n: "norm_loop state path pos outpos =
      (if c = dot then norm_loop SEEN_DOTDOT path (Suc pos) outpos
       else if c = slash then norm_loop SEEN_SEP path (Suc pos) outpos
       else norm_loop IN_FIELD (path[outpos := dot, Suc outpos := c]) (Suc pos) (Suc (Suc outpos)))"
      unfolding 3 by (rule norm_loop_seen_dot [OF pos c(1,2) lt])
    have t2: "take (Suc (Suc outpos)) (path[outpos := dot, Suc outpos := c]) = out @ [dot, c]"
      using take_poke [of outpos path dot] take_poke [of "Suc outpos" "path[outpos := dot]" c] lt pos Cons.prems(3) by simp
    show ?thesis
      using n 3 lt t2 Cons.prems(3) step [of SEEN_SEP path outpos out] step [of SEEN_DOTDOT path outpos out]
        step [of IN_FIELD "path[outpos := dot, Suc outpos := c]" "Suc (Suc outpos)" "out @ [dot, c]"]
      by (cases "c = slash"; cases "c = dot") simp_all
  next
    case 4
    then have lt: "Suc outpos < pos" using Cons.prems(4) by simp
    have n: "norm_loop state path pos outpos =
      (if c = slash then norm_loop SEEN_SEP path (Suc pos) (length (take_back out))
       else norm_loop IN_FIELD (path[outpos := dot, Suc outpos := dot, Suc (Suc outpos) := c]) (Suc pos) (Suc (Suc (Suc outpos))))"
      unfolding 4 by (rule norm_loop_seen_dotdot [OF pos c(1,2) lt Cons.prems(3)])
    let ?p = "path[outpos := dot, Suc outpos := dot, Suc (Suc outpos) := c]"
    have t3: "take (Suc (Suc (Suc outpos))) ?p = out @ [dot, dot, c]"
      using take_poke [of outpos path dot] take_poke [of "Suc outpos" "path[outpos := dot]" dot]
        take_poke [of "Suc (Suc outpos)" "path[outpos := dot, Suc outpos := dot]" c] lt pos Cons.prems(3) by simp
    have "length (take_back out) \<le> pos" "take (length (take_back out)) path = take_back out"
      using walk_back_back(2,3) [of outpos path out] lt pos Cons.prems(3) by simp_all
    then show ?thesis
      using n 4 lt t3 step [of SEEN_SEP path "length (take_back out)" "take_back out"]
        step [of IN_FIELD ?p "Suc (Suc (Suc outpos))" "out @ [dot, dot, c]"]
      by (cases "c = slash") simp_all
  qed
qed

lemma norm_loop_initial:
  assumes "cstr s path"
  shows "\<exists>path' out. norm_loop INITIAL path 0 0 = Some (path', length out) \<and>
    out = (if s \<noteq> [] \<and> hd s = slash then nauto SEEN_SEP [slash] (tl s) else nauto SEEN_SEP [] s) \<and>
    take (length out) path' = out \<and> length path' = length path \<and> length out < length path"
proof -
  obtain rest where r: "0 \<notin> set s" "path = s @ 0 # rest" using assms by (rule cstrE)
  have pos: "0 < length path" using r by simp
  show ?thesis
  proof (cases s)
    case Nil
    then show ?thesis using pos r by (simp add: norm_loop_step norm_step_def) (subst norm_loop.simps, simp add: norm_step_def)
  next
    case (Cons c t)
    have c: "path ! 0 = c" "c \<noteq> 0" using r Cons by auto
    show ?thesis
    proof (cases "c = slash")
      case True
      have "norm_loop INITIAL path 0 0 = norm_loop SEEN_SEP path 1 1"
        using pos c True r Cons by (simp add: norm_loop_step norm_step_def poke_def)
      moreover have "take 1 path = [slash]" "drop 1 path = t @ 0 # rest" using r Cons True by simp_all
      ultimately show ?thesis
        using norm_loop_nauto [of t 1 path rest 1 "[slash]" SEEN_SEP] r Cons True by simp
    next
      case False
      have "norm_loop INITIAL path 0 0 = norm_loop SEEN_SEP path 0 0"
        using pos c False by (simp add: norm_loop_step norm_step_def)
      then show ?thesis using norm_loop_nauto [of s 0 path rest 0 "[]" SEEN_SEP] r Cons False by auto
    qed
  qed
qed

lemma set_take_back: "c \<notin> set out \<Longrightarrow> c \<notin> set (take_back out)"
  by (auto simp: take_back_def dest!: set_dropWhileD dest: in_set_butlastD)

lemma nauto_no_zero: "0 \<notin> set out \<Longrightarrow> 0 \<notin> set t \<Longrightarrow> 0 \<notin> set (nauto state out t)"
  by (induction state out t rule: nauto.induct) (simp_all add: set_take_back)

subsection \<open>The automaton computes the normal form\<close>

lemma fields_split:
  "slash \<notin> set f \<Longrightarrow> fields f = [f]"
  "slash \<notin> set f \<Longrightarrow> fields (f @ slash # t) = f # fields t"
  by (induction f) auto

lemma split_field:
  obtains "slash \<notin> set t" | f t' where "slash \<notin> set f" and "t = f @ slash # t'"
  using split_list_first [of slash t] by blast

lemma nauto_in_field:
  "slash \<notin> set f \<Longrightarrow> nauto IN_FIELD out f = out @ f"
  "slash \<notin> set f \<Longrightarrow> nauto IN_FIELD out (f @ slash # t) = nauto SEEN_SEP (out @ f @ [slash]) t"
  by (induction f arbitrary: out) auto

definition wf_fields :: "bool \<times> u8 list list \<Rightarrow> bool" where
  "wf_fields = (\<lambda>(rooted, fs). \<forall>f\<in>set fs. f \<noteq> [] \<and> slash \<notin> set f)"

lemma wf_norm_field: "wf_fields rf \<Longrightarrow> slash \<notin> set f \<Longrightarrow> wf_fields (norm_field f rf)"
  by (cases rf) (auto simp: wf_fields_def norm_field_def dest: in_set_butlastD)

lemma render_snoc: "render (r, fs @ [f]) = render (r, fs) @ f @ [slash]"
  by (simp add: render_def)

lemma render_ends: "render rf = [] \<or> last (render rf) = slash"
  by (cases rf, cases "snd rf" rule: rev_cases) (auto simp: render_def)

lemma take_back_render:
  assumes "wf_fields rf"
  shows "take_back (render rf) = render (norm_field [dot, dot] rf)"
proof (cases rf)
  case (Pair r fs)
  show ?thesis
  proof (cases fs rule: rev_cases)
    case Nil
    then show ?thesis using Pair by (simp add: take_back_def norm_field_def render_def)
  next
    case (snoc gs f)
    have f: "\<forall>c\<in>set (rev f). c \<noteq> slash" using assms Pair snoc by (auto simp: wf_fields_def)
    have "dropWhile (\<lambda>c. c \<noteq> slash) (rev f @ g) = dropWhile (\<lambda>c. c \<noteq> slash) g" for g
      by (rule dropWhile_append2) (use f in blast)
    then have "take_back (render rf) = rev (dropWhile (\<lambda>c. c \<noteq> slash) (rev (render (r, gs))))"
      using Pair snoc by (simp add: take_back_def render_snoc butlast_append)
    also have "\<dots> = render (r, gs)"
      using render_ends [of "(r, gs)"] by (cases "render (r, gs)" rule: rev_cases) auto
    finally show ?thesis using Pair snoc by (simp add: norm_field_def)
  qed
qed

definition strip_slash :: "u8 list \<Rightarrow> u8 list" where
  "strip_slash out = (if out \<noteq> [] \<and> last out = slash then butlast out else out)"

lemma strip_render: "strip_slash (render rf) = butlast (render rf)"
  using render_ends [of rf] by (auto simp: strip_slash_def)

text \<open>One field, when the text written so far is that of the fields before it.\<close>

lemma nauto_plain:
  assumes "slash \<notin> set f" and "f \<notin> {[], [dot], [dot, dot]}"
  shows "nauto SEEN_SEP out (f @ slash # t) = nauto SEEN_SEP (out @ f @ [slash]) t" and "nauto SEEN_SEP out f = out @ f"
proof -
  consider c g where "f = c # g" "c \<noteq> dot" | c g where "f = dot # c # g" "c \<noteq> dot" | c g where "f = dot # dot # c # g"
    using assms(2) by (metis insertCI list.exhaust)
  then have "nauto SEEN_SEP out (f @ slash # t) = nauto SEEN_SEP (out @ f @ [slash]) t \<and> nauto SEEN_SEP out f = out @ f"
    using assms(1) by cases (simp_all add: nauto_in_field)
  then show "nauto SEEN_SEP out (f @ slash # t) = nauto SEEN_SEP (out @ f @ [slash]) t" "nauto SEEN_SEP out f = out @ f" by simp_all
qed

lemma nauto_field:
  assumes "wf_fields rf" and "slash \<notin> set f"
  shows "nauto SEEN_SEP (render rf) (f @ slash # t) = nauto SEEN_SEP (render (norm_field f rf)) t"
    and "strip_slash (nauto SEEN_SEP (render rf) f) = butlast (render (norm_field f rf))"
proof -
  have "nauto SEEN_SEP (render rf) (f @ slash # t) = nauto SEEN_SEP (render (norm_field f rf)) t \<and>
    strip_slash (nauto SEEN_SEP (render rf) f) = butlast (render (norm_field f rf))"
  proof (cases "f \<in> {[], [dot], [dot, dot]}")
    case True
    then show ?thesis using take_back_render [OF assms(1)] by (auto simp: strip_render norm_field_def)
  next
    case False
    then have "render (norm_field f rf) = render rf @ f @ [slash]" by (cases rf) (simp add: norm_field_def render_snoc)
    moreover have "f \<noteq> []" "last f \<noteq> slash" using assms(2) False by auto (metis last_in_set)
    then have "strip_slash (render rf @ f) = render rf @ f" by (simp add: strip_slash_def)
    ultimately show ?thesis using nauto_plain [OF assms(2) False] by (simp add: butlast_append)
  qed
  then show "nauto SEEN_SEP (render rf) (f @ slash # t) = nauto SEEN_SEP (render (norm_field f rf)) t"
    "strip_slash (nauto SEEN_SEP (render rf) f) = butlast (render (norm_field f rf))" by simp_all
qed

lemma nauto_normal:
  "wf_fields rf \<Longrightarrow> strip_slash (nauto SEEN_SEP (render rf) t) = butlast (render (fold norm_field (fields t) rf))"
proof (induction "length t" arbitrary: t rf rule: less_induct)
  case less
  show ?case
  proof (cases t rule: split_field)
    case 1
    then show ?thesis using nauto_field(2) [OF less.prems] fields_split(1) by simp
  next
    case (2 f t')
    then show ?thesis
      using nauto_field(1) [OF less.prems 2(1), of t'] fields_split(2) [OF 2(1), of t'] less.hyps [of t'] wf_norm_field [OF less.prems 2(1)]
      by simp
  qed
qed

lemma nauto_path:
  "strip_slash (if s \<noteq> [] \<and> hd s = slash then nauto SEEN_SEP [slash] (tl s) else nauto SEEN_SEP [] s) = normal_path s"
proof (cases "s \<noteq> [] \<and> hd s = slash")
  case True
  then obtain t where s: "s = slash # t" by (cases s) auto
  then have "fold norm_field (fields s) (True, []) = fold norm_field (fields t) (True, [])" by (simp add: norm_field_def)
  then show ?thesis using True s nauto_normal [of "(True, [])" t] by (simp add: normal_path_def wf_fields_def render_def)
next
  case False
  then have f: "(s \<noteq> [] \<and> hd s = slash) = False" by simp
  show ?thesis unfolding normal_path_def f using nauto_normal [of "(False, [])" s] by (simp add: wf_fields_def render_def)
qed

lemma normalize_path_ok:
  assumes "cstr s path"
  shows "\<exists>path'. fs_normalize_path path = Some path' \<and> cstr (normal_path s) path' \<and> length path' = length path"
proof -
  obtain path' out where l: "norm_loop INITIAL path 0 0 = Some (path', length out)"
    "out = (if s \<noteq> [] \<and> hd s = slash then nauto SEEN_SEP [slash] (tl s) else nauto SEEN_SEP [] s)"
    "take (length out) path' = out" "length path' = length path" "length out < length path"
    using norm_loop_initial [OF assms] by blast
  have z: "0 \<notin> set out"
  proof -
    have "0 \<notin> set s" using assms by (simp add: cstr_def)
    moreover from this have "0 \<notin> set (tl s)" using list.set_sel(2) [of s] by fastforce
    ultimately show ?thesis unfolding l(2) using nauto_no_zero [of "[slash]" "tl s"] nauto_no_zero [of "[]" s] by simp
  qed
  have n: "strip_slash out = normal_path s" using nauto_path l(2) by simp
  have last: "path' ! (length out - 1) = last out" if "out \<noteq> []"
    using that l(3-5) by (metis diff_less last_conv_nth length_greater_0_conv less_one nth_take)
  define k where "k = length (strip_slash out)"
  have k: "k \<le> length out" by (simp add: k_def strip_slash_def)
  have "take k out = strip_slash out" by (simp add: k_def strip_slash_def butlast_conv_take)
  then have "take k path' = strip_slash out" using l(3) k by (metis min.absorb1 take_take)
  note k = k this
  have "fs_normalize_path path = poke k 0 path'"
    using l(1) last by (auto simp: fs_normalize_path_def k_def strip_slash_def)
  moreover have "poke k 0 path' = Some (strip_slash out @ 0 # drop (Suc k) path')"
    using k l(4,5) by (simp add: poke_def upd_conv_take_nth_drop)
  moreover have "0 \<notin> set (strip_slash out)" using z by (auto simp: strip_slash_def dest: in_set_butlastD)
  moreover have "length (strip_slash out) = k" by (simp add: k_def)
  ultimately show ?thesis using n k(1) l(4,5) by (auto simp: cstr_def)
qed

subsection \<open>Normal forms are normal\<close>

definition plain :: "u8 list \<Rightarrow> bool" where
  "plain f \<longleftrightarrow> slash \<notin> set f \<and> f \<notin> {[], [dot], [dot, dot]}"

lemma fields_no_slash: "f \<in> set (fields s) \<Longrightarrow> slash \<notin> set f"
  by (induction s arbitrary: f) (auto split: if_splits list.splits)

lemma fold_norm_plain:
  "\<forall>f\<in>set gs. slash \<notin> set f \<Longrightarrow> \<forall>f\<in>set (snd rf). plain f \<Longrightarrow> \<forall>f\<in>set (snd (fold norm_field gs rf)). plain f"
proof (induction gs arbitrary: rf)
  case (Cons g gs)
  have "\<forall>f\<in>set (snd (norm_field g rf)). plain f"
    using Cons.prems by (cases rf) (auto simp: norm_field_def plain_def dest: in_set_butlastD)
  then show ?case using Cons by simp
qed simp

lemma fold_plain: "\<forall>f\<in>set gs. plain f \<Longrightarrow> fold norm_field gs (r, fs) = (r, fs @ gs)"
  by (induction gs arbitrary: fs) (auto simp: norm_field_def plain_def)

lemma fields_join: "fs \<noteq> [] \<Longrightarrow> \<forall>f\<in>set fs. slash \<notin> set f \<Longrightarrow> fields (butlast (concat (map (\<lambda>f. f @ [slash]) fs))) = fs"
proof (induction fs)
  case (Cons f fs)
  show ?case
  proof (cases fs)
    case Nil
    then show ?thesis using Cons.prems by (simp add: fields_split)
  next
    case (Cons g gs)
    let ?t = "concat (map (\<lambda>f. f @ [slash]) fs)"
    have "?t \<noteq> []" using Cons by simp
    then have "butlast (concat (map (\<lambda>f. f @ [slash]) (f # fs))) = f @ slash # butlast ?t" by (simp add: butlast_append)
    then show ?thesis using Cons.IH Cons.prems Cons fields_split(2) [of f "butlast ?t"] by simp
  qed
qed simp

lemma normal_path_idem: "normal_path (normal_path s) = normal_path s"
proof -
  obtain r fs where rf: "fold norm_field (fields s) (s \<noteq> [] \<and> hd s = slash, []) = (r, fs)" by (cases "fold norm_field (fields s) (s \<noteq> [] \<and> hd s = slash, [])")
  then have pl: "\<forall>f\<in>set fs. plain f" using fold_norm_plain [of "fields s" "(s \<noteq> [] \<and> hd s = slash, [])"] fields_no_slash by fastforce
  have n: "normal_path s = butlast (render (r, fs))" by (simp add: normal_path_def rf)
  show ?thesis
  proof (cases fs)
    case Nil
    then have "normal_path s = []" by (simp add: n render_def)
    then show ?thesis by (simp add: normal_path_def norm_field_def render_def)
  next
    case (Cons f gs)
    let ?j = "butlast (concat (map (\<lambda>f. f @ [slash]) fs))"
    have j: "normal_path s = (if r then [slash] else []) @ ?j" using Cons by (simp add: n render_def)
    obtain c g where f: "f = c # g" "c \<noteq> slash" using Cons pl by (cases f) (auto simp: plain_def)
    have "?j = c # butlast (g @ slash # concat (map (\<lambda>f. f @ [slash]) gs))" using Cons f by simp
    then have hj: "?j \<noteq> []" "hd ?j \<noteq> slash" using f(2) by simp_all
    have fj: "fields ?j = fs" by (rule fields_join) (use Cons pl in \<open>auto simp: plain_def\<close>)
    have "fold norm_field (fields (normal_path s)) (r, []) = (r, fs)"
      unfolding j using fj fold_plain [OF pl, of _ "[]"] by (simp add: norm_field_def)
    moreover have "(normal_path s \<noteq> [] \<and> hd (normal_path s) = slash) = r" unfolding j using hj by simp
    ultimately have "normal_path (normal_path s) = butlast (render (r, fs))" unfolding normal_path_def [of "normal_path s"] by simp
    then show ?thesis using n by simp
  qed
qed

text \<open>
  (C12) \<open>fs_normalize_path\<close> on a buffer that holds a string: it ends, stays inside of the buffer, and the
  buffer then holds the normal form of the string, computed on the fields of the path: empty fields
  and \<open>.\<close> vanish, \<open>..\<close> removes the field before it (at the root it removes the root itself, so that
  \<open>/../foo\<close> becomes the relative path \<open>foo\<close>), and there is no slash at the end.
  A second call changes nothing.
\<close>

theorem normalize_path_spec:
  assumes "cstr s path"
  shows "\<exists>path' path''. fs_normalize_path path = Some path' \<and> cstr (normal_path s) path' \<and> length path' = length path \<and>
    fs_normalize_path path' = Some path'' \<and> cstr (normal_path s) path''"
proof -
  obtain path' where p: "fs_normalize_path path = Some path'" "cstr (normal_path s) path'" "length path' = length path"
    using normalize_path_ok [OF assms] by blast
  then show ?thesis using normalize_path_ok [OF p(2)] by (auto simp: normal_path_idem)
qed

theorem normalize_path_spec_witness:
  "\<exists>path'. fs_normalize_path [47, 97, 47, 46, 46, 47, 98, 47, 0] = Some path' \<and> cstr [47, 98] path'"
proof -
  have "cstr [47, 97, 47, 46, 46, 47, 98, 47] [47, 97, 47, 46, 46, 47, 98, 47, 0]" by (simp add: cstr_def)
  from normalize_path_spec [OF this] show ?thesis
    by (auto simp: normal_path_def norm_field_def render_def)
qed

end
