(* ===== verification/LK_Fs.thy ===== *)
theory LK_Fs
  imports LK_Path LK_Bio_Refs
begin

text \<open>
  The table of mounted file systems (\<^verbatim>\<open>lib/fs/fs.c\<close>). The file systems themselves (the entries of
  \<open>types\<close>, which the build configures in) are a parameter: a list of records of functions on a state of
  their own. The block devices are those of \<^verbatim>\<open>lib/bio\<close>. Addresses that \<open>malloc\<close> returns are arguments
  of the operations, \<open>tmp\<close> is what the path buffer on the stack holds, \<open>n\<close> bounds the chain of parents
  of a device that is closed. \<open>None\<close> is an access through a pointer that is null or has been freed.
\<close>

subsection \<open>Types\<close>

record file_stat =
  is_dir :: bool
  fsize :: int

record ('c, 'f, 'w) fs_type =
  t_name :: "u8 list"
  t_mount :: "nat \<Rightarrow> 'w \<Rightarrow> int \<times> 'c \<times> 'w"
  t_unmount :: "'c \<Rightarrow> 'w \<Rightarrow> 'w"
  t_open :: "'c \<Rightarrow> u8 list \<Rightarrow> 'w \<Rightarrow> int \<times> 'f \<times> 'w"
  t_create :: "('c \<Rightarrow> u8 list \<Rightarrow> 'w \<Rightarrow> int \<times> 'f \<times> 'w) option"
  t_mkdir :: "('c \<Rightarrow> u8 list \<Rightarrow> 'w \<Rightarrow> int \<times> 'w) option"
  t_stat :: "'f \<Rightarrow> file_stat \<Rightarrow> 'w \<Rightarrow> int \<times> file_stat \<times> 'w"
  t_read :: "'f \<Rightarrow> int \<Rightarrow> nat \<Rightarrow> 'w \<Rightarrow> (int + u8 list) \<times> 'w"
  t_write :: "('f \<Rightarrow> u8 list \<Rightarrow> int \<Rightarrow> 'w \<Rightarrow> int \<times> 'w) option"
  t_close :: "'f \<Rightarrow> 'w \<Rightarrow> int \<times> 'w"

record 'c fs_mount_t =
  fm_path :: "u8 list option"
  fm_dev :: nat
  fm_cookie :: 'c
  fm_refs :: int
  fm_type :: nat

record 'f fs_file =
  ff_cookie :: 'f
  ff_mount :: nat

record ('c, 'f, 'w) fs_state =
  mounts :: "nat list"
  mnt :: "nat \<rightharpoonup> 'c fs_mount_t"
  files :: "nat \<rightharpoonup> 'f fs_file"
  fs_bio :: bio_t
  drv :: 'w

definition fs_init :: "('c, 'f, 'w) fs_state \<Rightarrow> ('c, 'f, 'w) fs_state" where
  "fs_init st = st\<lparr>mounts := []\<rparr>"

subsection \<open>Mounts\<close>

text \<open>The result is the mount and the length of its path, where the trimmed path starts.\<close>

fun find_mount_loop :: "('c, 'f, 'w) fs_state \<Rightarrow> u8 list \<Rightarrow> nat \<Rightarrow> nat list \<Rightarrow> (nat \<times> nat) option option" where
  "find_mount_loop st path pathlen [] = Some None"
| "find_mount_loop st path pathlen (m # ms) = do {
     mount \<leftarrow> mnt st m;
     mpath \<leftarrow> fm_path mount;
     mountpathlen \<leftarrow> strlen mpath;
     if pathlen < mountpathlen then find_mount_loop st path pathlen ms
     else do {
       r \<leftarrow> buf_memcmp path mpath mountpathlen;
       if r = 0 then Some (Some (m, mountpathlen)) else find_mount_loop st path pathlen ms } }"

definition find_mount :: "u8 list \<Rightarrow> ('c, 'f, 'w) fs_state \<Rightarrow> (nat \<times> nat) option option" where
  "find_mount path st = do {
     pathlen \<leftarrow> strlen path;
     find_mount_loop st path pathlen (mounts st) }"

text \<open>The normalised copy of a path in the buffer of 512 bytes.\<close>

definition temp_path :: "u8 list \<Rightarrow> u8 list \<Rightarrow> u8 list option" where
  "temp_path tmp path = do {
     (buf, _) \<leftarrow> strlcpy tmp path 512;
     fs_normalize_path buf }"

definition mount_fs ::
  "('c, 'f, 'w) fs_type list \<Rightarrow> nat \<Rightarrow> (nat \<Rightarrow> u8 list option) \<Rightarrow> u8 list \<Rightarrow> nat \<Rightarrow> u8 list \<Rightarrow> string \<Rightarrow> nat \<Rightarrow>
   ('c, 'f, 'w) fs_state \<Rightarrow> (int \<times> ('c, 'f, 'w) fs_state) option" where
  "mount_fs types n alloc tmp m path device t st = do {
     temppath \<leftarrow> temp_path tmp path;
     if temppath ! 0 \<noteq> slash then Some (ERR_BAD_PATH, st)
     else do {
       found \<leftarrow> find_mount temppath st;
       if found \<noteq> None then Some (ERR_ALREADY_MOUNTED, st)
       else do {
         (r, b) \<leftarrow> bio_open device (fs_bio st);
         case r of
           None \<Rightarrow> Some (ERR_NOT_FOUND, st\<lparr>fs_bio := b\<rparr>)
         | Some dev \<Rightarrow>
             if length types \<le> t then None
             else (case t_mount (types ! t) dev (drv st) of
               (err, cookie, w) \<Rightarrow>
                 if err < 0 then do { b' \<leftarrow> bio_close n dev b; Some (err, st\<lparr>fs_bio := b', drv := w\<rparr>) }
                 else do {
                 copy \<leftarrow> strdup alloc temppath;
                 Some (0, st\<lparr>mounts := m # mounts st, fs_bio := b, drv := w,
                   mnt := (mnt st)(m \<mapsto> \<lparr>fm_path = copy, fm_dev = dev, fm_cookie = cookie, fm_refs = 1, fm_type = t\<rparr>)\<rparr>) }) } } }"

definition fs_mount ::
  "('c, 'f, 'w) fs_type list \<Rightarrow> nat \<Rightarrow> (nat \<Rightarrow> u8 list option) \<Rightarrow> u8 list \<Rightarrow> nat \<Rightarrow> u8 list \<Rightarrow> string \<Rightarrow>
   ('c, 'f, 'w) fs_state \<Rightarrow> (int \<times> ('c, 'f, 'w) fs_state) option" where
  "fs_mount types n alloc tmp m path device st = mount_fs types n alloc tmp m path device 0 st"

fun find_type :: "u8 list \<Rightarrow> ('c, 'f, 'w) fs_type list \<Rightarrow> nat \<Rightarrow> nat option option" where
  "find_type name [] i = Some None"
| "find_type name (ty # tys) i = do {
     r \<leftarrow> strcmp name (t_name ty);
     if r = 0 then Some (Some i) else find_type name tys (i + 1) }"

definition fs_mount_type ::
  "('c, 'f, 'w) fs_type list \<Rightarrow> nat \<Rightarrow> (nat \<Rightarrow> u8 list option) \<Rightarrow> u8 list \<Rightarrow> nat \<Rightarrow> u8 list \<Rightarrow> string \<Rightarrow> u8 list \<Rightarrow>
   ('c, 'f, 'w) fs_state \<Rightarrow> (int \<times> ('c, 'f, 'w) fs_state) option" where
  "fs_mount_type types n alloc tmp m path device name st = do {
     r \<leftarrow> find_type name types 0;
     case r of
       Some i \<Rightarrow> mount_fs types n alloc tmp m path device i st
     | None \<Rightarrow> Some (ERR_NOT_FOUND, st) }"

definition put_mount :: "('c, 'f, 'w) fs_type list \<Rightarrow> nat \<Rightarrow> nat \<Rightarrow> ('c, 'f, 'w) fs_state \<Rightarrow> ('c, 'f, 'w) fs_state option" where
  "put_mount types n m st = do {
     mount \<leftarrow> mnt st m;
     if fm_refs mount - 1 = 0
     then do {
       b \<leftarrow> bio_close n (fm_dev mount) (fs_bio st);
       Some (st\<lparr>mounts := remove1 m (mounts st), drv := t_unmount (types ! fm_type mount) (fm_cookie mount) (drv st),
                fs_bio := b, mnt := (mnt st)(m := None)\<rparr>) }
     else Some (st\<lparr>mnt := (mnt st)(m \<mapsto> mount\<lparr>fm_refs := fm_refs mount - 1\<rparr>)\<rparr>) }"

definition fs_unmount :: "('c, 'f, 'w) fs_type list \<Rightarrow> nat \<Rightarrow> u8 list \<Rightarrow> u8 list \<Rightarrow> ('c, 'f, 'w) fs_state \<Rightarrow> (int \<times> ('c, 'f, 'w) fs_state) option" where
  "fs_unmount types n tmp path st = do {
     temppath \<leftarrow> temp_path tmp path;
     found \<leftarrow> find_mount temppath st;
     case found of
       None \<Rightarrow> Some (ERR_NOT_FOUND, st)
     | Some (m, _) \<Rightarrow> do { st' \<leftarrow> put_mount types n m st; Some (0, st') } }"

subsection \<open>Files\<close>

text \<open>A new file holds a reference to its mount; \<open>f\<close> is the address of its structure.\<close>

definition new_file :: "nat \<Rightarrow> nat \<Rightarrow> 'f \<Rightarrow> ('c, 'f, 'w) fs_state \<Rightarrow> ('c, 'f, 'w) fs_state option" where
  "new_file f m cookie st = do {
     mount \<leftarrow> mnt st m;
     Some (st\<lparr>files := (files st)(f \<mapsto> \<lparr>ff_cookie = cookie, ff_mount = m\<rparr>),
              mnt := (mnt st)(m \<mapsto> mount\<lparr>fm_refs := fm_refs mount + 1\<rparr>)\<rparr>) }"

definition fs_open_file :: "('c, 'f, 'w) fs_type list \<Rightarrow> u8 list \<Rightarrow> nat \<Rightarrow> u8 list \<Rightarrow> ('c, 'f, 'w) fs_state \<Rightarrow> (int \<times> ('c, 'f, 'w) fs_state) option" where
  "fs_open_file types tmp f path st = do {
     temppath \<leftarrow> temp_path tmp path;
     found \<leftarrow> find_mount temppath st;
     case found of
       None \<Rightarrow> Some (ERR_NOT_FOUND, st)
     | Some (m, k) \<Rightarrow> do {
         mount \<leftarrow> mnt st m;
         (case t_open (types ! fm_type mount) (fm_cookie mount) (drop k temppath) (drv st) of
            (err, cookie, w) \<Rightarrow>
              if err < 0 then Some (err, st\<lparr>drv := w\<rparr>)
              else do { st' \<leftarrow> new_file f m cookie (st\<lparr>drv := w\<rparr>); Some (0, st') }) } }"

definition fs_create_file :: "('c, 'f, 'w) fs_type list \<Rightarrow> u8 list \<Rightarrow> nat \<Rightarrow> u8 list \<Rightarrow> ('c, 'f, 'w) fs_state \<Rightarrow> (int \<times> ('c, 'f, 'w) fs_state) option" where
  "fs_create_file types tmp f path st = do {
     temppath \<leftarrow> temp_path tmp path;
     found \<leftarrow> find_mount temppath st;
     case found of
       None \<Rightarrow> Some (ERR_NOT_FOUND, st)
     | Some (m, k) \<Rightarrow> do {
         mount \<leftarrow> mnt st m;
         (case t_create (types ! fm_type mount) of
            None \<Rightarrow> Some (ERR_NOT_SUPPORTED, st)
          | Some create \<Rightarrow>
              (case create (fm_cookie mount) (drop k temppath) (drv st) of
                 (err, cookie, w) \<Rightarrow>
                   if err < 0 then Some (err, st\<lparr>drv := w\<rparr>)
                   else do { st' \<leftarrow> new_file f m cookie (st\<lparr>drv := w\<rparr>); Some (0, st') })) } }"

definition fs_make_dir :: "('c, 'f, 'w) fs_type list \<Rightarrow> u8 list \<Rightarrow> u8 list \<Rightarrow> ('c, 'f, 'w) fs_state \<Rightarrow> (int \<times> ('c, 'f, 'w) fs_state) option" where
  "fs_make_dir types tmp path st = do {
     temppath \<leftarrow> temp_path tmp path;
     found \<leftarrow> find_mount temppath st;
     case found of
       None \<Rightarrow> Some (ERR_NOT_FOUND, st)
     | Some (m, k) \<Rightarrow> do {
         mount \<leftarrow> mnt st m;
         (case t_mkdir (types ! fm_type mount) of
            None \<Rightarrow> Some (ERR_NOT_SUPPORTED, st)
          | Some mkdir \<Rightarrow> (case mkdir (fm_cookie mount) (drop k temppath) (drv st) of (r, w) \<Rightarrow> Some (r, st\<lparr>drv := w\<rparr>))) } }"

text \<open>The file systems find their functions through the mount of the file.\<close>

definition file_type :: "('c, 'f, 'w) fs_type list \<Rightarrow> nat \<Rightarrow> ('c, 'f, 'w) fs_state \<Rightarrow> ('f fs_file \<times> ('c, 'f, 'w) fs_type) option" where
  "file_type types f st = do {
     file \<leftarrow> files st f;
     mount \<leftarrow> mnt st (ff_mount file);
     Some (file, types ! fm_type mount) }"

definition fs_read_file ::
  "('c, 'f, 'w) fs_type list \<Rightarrow> nat \<Rightarrow> int \<Rightarrow> nat \<Rightarrow> ('c, 'f, 'w) fs_state \<Rightarrow> ((int + u8 list) \<times> ('c, 'f, 'w) fs_state) option" where
  "fs_read_file types f offset len st = do {
     (file, ty) \<leftarrow> file_type types f st;
     case t_read ty (ff_cookie file) offset len (drv st) of (r, w) \<Rightarrow> Some (r, st\<lparr>drv := w\<rparr>) }"

definition fs_write_file ::
  "('c, 'f, 'w) fs_type list \<Rightarrow> nat \<Rightarrow> u8 list \<Rightarrow> int \<Rightarrow> ('c, 'f, 'w) fs_state \<Rightarrow> (int \<times> ('c, 'f, 'w) fs_state) option" where
  "fs_write_file types f buf offset st = do {
     (file, ty) \<leftarrow> file_type types f st;
     case t_write ty of
       None \<Rightarrow> Some (ERR_NOT_SUPPORTED, st)
     | Some write \<Rightarrow> (case write (ff_cookie file) buf offset (drv st) of (r, w) \<Rightarrow> Some (r, st\<lparr>drv := w\<rparr>)) }"

definition fs_close_file :: "('c, 'f, 'w) fs_type list \<Rightarrow> nat \<Rightarrow> nat \<Rightarrow> ('c, 'f, 'w) fs_state \<Rightarrow> (int \<times> ('c, 'f, 'w) fs_state) option" where
  "fs_close_file types n f st = do {
     (file, ty) \<leftarrow> file_type types f st;
     case t_close ty (ff_cookie file) (drv st) of
       (err, w) \<Rightarrow>
         if err < 0 then Some (err, st\<lparr>drv := w\<rparr>)
         else do {
           st' \<leftarrow> put_mount types n (ff_mount file) (st\<lparr>drv := w\<rparr>);
           Some (0, st'\<lparr>files := (files st')(f := None)\<rparr>) } }"

definition fs_stat_file ::
  "('c, 'f, 'w) fs_type list \<Rightarrow> nat \<Rightarrow> file_stat \<Rightarrow> ('c, 'f, 'w) fs_state \<Rightarrow> (int \<times> file_stat \<times> ('c, 'f, 'w) fs_state) option" where
  "fs_stat_file types f stat st = do {
     (file, ty) \<leftarrow> file_type types f st;
     case t_stat ty (ff_cookie file) stat (drv st) of (r, stat', w) \<Rightarrow> Some (r, stat', st\<lparr>drv := w\<rparr>) }"

text \<open>\<open>stat\<close> is what the structure on the stack holds; the result of \<open>fs_stat_file\<close> is not tested.\<close>

definition fs_load_file ::
  "('c, 'f, 'w) fs_type list \<Rightarrow> nat \<Rightarrow> u8 list \<Rightarrow> nat \<Rightarrow> file_stat \<Rightarrow> u8 list \<Rightarrow> nat \<Rightarrow> ('c, 'f, 'w) fs_state \<Rightarrow>
   ((int + u8 list) \<times> ('c, 'f, 'w) fs_state) option" where
  "fs_load_file types n tmp f stat path maxlen st = do {
     (err, st1) \<leftarrow> fs_open_file types tmp f path st;
     if err < 0 then Some (Inl err, st1)
     else do {
       (_, stat', st2) \<leftarrow> fs_stat_file types f stat st1;
       (r, st3) \<leftarrow> fs_read_file types f 0 (nat (min (int maxlen) (fsize stat') mod 2 ^ 32)) st2;
       (_, st4) \<leftarrow> fs_close_file types n f st3;
       Some (r, st4) } }"

subsection \<open>Strings\<close>

lemma temp_path_ok:
  assumes "cstr s path" and "length tmp = 512"
  shows "\<exists>p. temp_path tmp path = Some p \<and> cstr (normal_path (take 511 s)) p"
proof -
  obtain rest where r: "0 \<notin> set s" "path = s @ 0 # rest" using assms(1) by (rule cstrE)
  let ?buf = "take 511 s @ 0 # drop (Suc (min 511 (length s))) tmp"
  have "copy_n 511 tmp path = Some (?buf, min 511 (length s))"
    using copy_n_cstr [OF r(1), of 511 tmp rest] assms(2) r(2) by simp
  moreover have "strlen (drop (min 511 (length s)) path) \<noteq> None"
    using strlen_drop [OF r(1), of "min 511 (length s)" rest] r(2) by simp
  ultimately obtain k where "strlcpy tmp path 512 = Some (?buf, k)" by (auto simp: strlcpy_def)
  moreover have "cstr (take 511 s) ?buf" using r(1) by (auto simp: cstr_def dest: in_set_takeD)
  ultimately show ?thesis using normalize_path_ok [of "take 511 s" ?buf] by (auto simp: temp_path_def)
qed

lemma buf_memcmp_prefix:
  "length s \<le> length t \<Longrightarrow> \<exists>r. buf_memcmp (t @ x) (s @ y) (length s) = Some r \<and> (r = 0 \<longleftrightarrow> take (length s) t = s)"
proof (induction s arbitrary: t)
  case (Cons c s)
  then obtain d t' where "t = d # t'" by (cases t) auto
  then show ?case using Cons by (auto simp: Let_def signed_eq_0_iff)
qed simp

lemma strdup_ok:
  assumes "cstr s buf" and "\<And>k. \<exists>copy. alloc k = Some copy \<and> length copy = k"
  shows "\<exists>copy. strdup alloc buf = Some (Some copy) \<and> cstr s copy"
proof -
  obtain rest where r: "0 \<notin> set s" "buf = s @ 0 # rest" using assms(1) by (rule cstrE)
  obtain copy where c: "alloc (Suc (length s)) = Some copy" "length copy = Suc (length s)" using assms(2) by blast
  then have "memcpy_into 0 (s @ [0]) copy = Some (s @ [0])" by (simp add: memcpy_into_def blit_def)
  then show ?thesis using r c strlen_cstr [OF r(1), of rest] by (simp add: strdup_def cstr_def)
qed

subsection \<open>The invariant\<close>

text \<open>
  \<open>mount_refs g st\<close>: the list and the table agree, mount \<open>m\<close> counts \<open>g m\<close> references, every mount has its
  path and holds one reference to its device.
\<close>

definition devs :: "('c, 'f, 'w) fs_state \<Rightarrow> nat \<Rightarrow> nat" where
  "devs st d = count_list (map (\<lambda>m. map_option fm_dev (mnt st m)) (mounts st)) (Some d)"

definition mount_refs :: "(nat \<Rightarrow> nat) \<Rightarrow> ('c, 'f, 'w) fs_state \<Rightarrow> bool" where
  "mount_refs g st \<longleftrightarrow> distinct (mounts st) \<and> set (mounts st) = dom (mnt st) \<and>
     (\<forall>m mount. mnt st m = Some mount \<longrightarrow> fm_refs mount = int (g m) \<and> 0 < g m \<and> (\<exists>s p. fm_path mount = Some p \<and> cstr s p)) \<and>
     refs_ok (fs_bio st) (devs st) \<and> chains_end (fs_bio st)"

definition on_mount :: "('c, 'f, 'w) fs_state \<Rightarrow> nat \<Rightarrow> nat set" where
  "on_mount st m = {f. map_option ff_mount (files st f) = Some m}"

text \<open>\<open>base\<close> are the mounts that have not been unmounted; the other references come from open files.\<close>

definition fs_ok :: "nat set \<Rightarrow> ('c, 'f, 'w) fs_state \<Rightarrow> bool" where
  "fs_ok base st \<longleftrightarrow> mount_refs (\<lambda>m. card (on_mount st m) + (if m \<in> base then 1 else 0)) st \<and> finite (dom (files st)) \<and>
     (\<forall>f file. files st f = Some file \<longrightarrow> mnt st (ff_mount file) \<noteq> None) \<and> base \<subseteq> dom (mnt st)"

lemma mount_refsD:
  assumes "mount_refs g st"
  shows "distinct (mounts st)" and "set (mounts st) = dom (mnt st)" and "refs_ok (fs_bio st) (devs st)" and "chains_end (fs_bio st)"
    and "mnt st m = Some mount \<Longrightarrow> fm_refs mount = int (g m)" and "mnt st m = Some mount \<Longrightarrow> 0 < g m"
    and "mnt st m = Some mount \<Longrightarrow> \<exists>s p. fm_path mount = Some p \<and> cstr s p"
  using assms by (auto simp: mount_refs_def)

lemma mount_refs_cong:
  assumes "mounts st' = mounts st" and "mnt st' = mnt st" and "fs_bio st' = fs_bio st"
  shows "mount_refs g st' = mount_refs g st"
  using assms by (simp add: mount_refs_def devs_def [abs_def])

lemma find_mount_ok:
  assumes ok: "mount_refs g st" and p: "cstr s path"
  shows "\<exists>r. find_mount path st = Some r" and "find_mount path st = Some (Some (m, k)) \<Longrightarrow> mnt st m \<noteq> None"
proof -
  obtain rest where r: "0 \<notin> set s" "path = s @ 0 # rest" using p by (rule cstrE)
  have l: "strlen path = Some (length s)" using strlen_cstr r by simp
  have "\<exists>r. find_mount_loop st path (length s) ms = Some r \<and> (\<forall>m k. r = Some (m, k) \<longrightarrow> mnt st m \<noteq> None)"
    if "set ms \<subseteq> dom (mnt st)" for ms
    using that
  proof (induction ms)
    case (Cons m ms)
    then obtain mount where m: "mnt st m = Some mount" by auto
    then obtain t q where t: "fm_path mount = Some q" "cstr t q" using mount_refsD(7) [OF ok] by blast
    then obtain rest' where t': "0 \<notin> set t" "q = t @ 0 # rest'" by (auto elim: cstrE)
    have IH: "\<exists>r. find_mount_loop st path (length s) ms = Some r \<and> (\<forall>m k. r = Some (m, k) \<longrightarrow> mnt st m \<noteq> None)" using Cons by simp
    show ?case
    proof (cases "length s < length t")
      case True
      then show ?thesis using IH m t(1) t'(2) strlen_cstr [OF t'(1)] by simp
    next
      case False
      then obtain v where "buf_memcmp path q (length t) = Some v" using buf_memcmp_prefix [of t s] r(2) t'(2) by force
      then show ?thesis using IH m t(1) t'(2) strlen_cstr [OF t'(1)] False by auto
    qed
  qed simp
  from this [of "mounts st"] show "\<exists>r. find_mount path st = Some r" "find_mount path st = Some (Some (m, k)) \<Longrightarrow> mnt st m \<noteq> None"
    using l mount_refsD(2) [OF ok] by (auto simp: find_mount_def)
qed

lemma count_remove1:
  "m \<in> set xs \<Longrightarrow> count_list (map f xs) y = count_list (map f (remove1 m xs)) y + (if f m = y then 1 else 0)"
  by (induction xs) auto

lemma devs_refs:
  assumes "mnt st m = Some mount"
  shows "devs (st\<lparr>mnt := (mnt st)(m \<mapsto> mount\<lparr>fm_refs := i\<rparr>)\<rparr>) = devs st"
proof
  have "(\<lambda>x. map_option fm_dev (((mnt st)(m \<mapsto> mount\<lparr>fm_refs := i\<rparr>)) x)) = (\<lambda>x. map_option fm_dev (mnt st x))"
    using assms by (intro ext) simp
  then show "devs (st\<lparr>mnt := (mnt st)(m \<mapsto> mount\<lparr>fm_refs := i\<rparr>)\<rparr>) d = devs st d" for d by (simp add: devs_def)
qed

lemma mount_refs_set:
  assumes ok: "mount_refs g st" and m: "mnt st m = Some mount" and k: "0 < k"
  shows "mount_refs (g(m := k)) (st\<lparr>mnt := (mnt st)(m \<mapsto> mount\<lparr>fm_refs := int k\<rparr>)\<rparr>)"
  using ok m k mount_refsD(7) [OF ok m] unfolding mount_refs_def devs_refs [OF m] by auto

lemma put_mount_ok:
  assumes ok: "mount_refs g st" and m: "mnt st m = Some mount"
  shows "\<exists>n st'. put_mount types n m st = Some st'"
    and "put_mount types n m st = Some st' \<Longrightarrow>
      mount_refs (g(m := g m - 1)) st' \<and> files st' = files st \<and> dom (mnt st') = (if g m = 1 then dom (mnt st) - {m} else dom (mnt st))"
proof -
  have g: "fm_refs mount = int (g m)" "0 < g m" using mount_refsD(5,6) [OF ok m] by simp_all
  have ms: "m \<in> set (mounts st)" "distinct (mounts st)" using mount_refsD(1,2) [OF ok] m by auto
  have dv: "0 < devs st (fm_dev mount)" using count_remove1 [OF ms(1), of "\<lambda>m. map_option fm_dev (mnt st m)"] m by (simp add: devs_def)
  note close = close_ok [OF mount_refsD(3,4) [OF ok] dv]
  obtain n' b' where "bdev_dec_ref n' (fm_dev mount) (fs_bio st) = Some b'" using close(1) by blast
  then have "\<exists>st'. put_mount types n' m st = Some st'" using m by (simp add: put_mount_def bio_close_def)
  then show "\<exists>n st'. put_mount types n m st = Some st'" by blast
  show "mount_refs (g(m := g m - 1)) st' \<and> files st' = files st \<and> dom (mnt st') = (if g m = 1 then dom (mnt st) - {m} else dom (mnt st))"
    if put: "put_mount types n m st = Some st'"
  proof (cases "g m = 1")
    case False
    then have "st' = st\<lparr>mnt := (mnt st)(m \<mapsto> mount\<lparr>fm_refs := int (g m - 1)\<rparr>)\<rparr>"
      using put m g by (simp add: put_mount_def of_nat_diff)
    then show ?thesis using mount_refs_set [OF ok m, of "g m - 1"] False g(2) m by auto
  next
    case True
    then obtain b where b: "bdev_dec_ref n (fm_dev mount) (fs_bio st) = Some b"
      and st': "st' = st\<lparr>mounts := remove1 m (mounts st), drv := t_unmount (types ! fm_type mount) (fm_cookie mount) (drv st),
                fs_bio := b, mnt := (mnt st)(m := None)\<rparr>"
      using put m g by (auto simp: put_mount_def bio_close_def bind_eq_Some_conv)
    have "map (\<lambda>x. map_option fm_dev (mnt st' x)) (mounts st') = map (\<lambda>x. map_option fm_dev (mnt st x)) (remove1 m (mounts st))"
      using ms(2) by (auto simp: st')
    then have "devs st' d = count_list (map (\<lambda>x. map_option fm_dev (mnt st x)) (remove1 m (mounts st))) (Some d)" for d
      unfolding devs_def by simp
    then have "devs st' = (devs st)(fm_dev mount := devs st (fm_dev mount) - 1)"
      using count_remove1 [OF ms(1), of "\<lambda>m. map_option fm_dev (mnt st m)"] m by (auto simp: devs_def [of st] fun_eq_iff)
    then have "refs_ok (fs_bio st') (devs st')" "chains_end (fs_bio st')" using close(2) [OF b] by (simp_all add: st')
    then show ?thesis
      using ok True ms by (auto simp: mount_refs_def st')
  qed
qed

lemma new_file_ok:
  assumes ok: "mount_refs g st" and m: "mnt st m \<noteq> None"
  shows "\<exists>st'. new_file f m cookie st = Some st' \<and> mount_refs (g(m := g m + 1)) st' \<and> dom (mnt st') = dom (mnt st) \<and>
    files st' = (files st)(f \<mapsto> \<lparr>ff_cookie = cookie, ff_mount = m\<rparr>)"
proof -
  obtain mount where m: "mnt st m = Some mount" using assms(2) by blast
  let ?st = "st\<lparr>mnt := (mnt st)(m \<mapsto> mount\<lparr>fm_refs := int (g m + 1)\<rparr>)\<rparr>"
  have "new_file f m cookie st = Some (?st\<lparr>files := (files st)(f \<mapsto> \<lparr>ff_cookie = cookie, ff_mount = m\<rparr>)\<rparr>)"
    using m mount_refsD(5) [OF ok m] by (simp add: new_file_def add.commute)
  moreover have "mount_refs (g(m := g m + 1)) (?st\<lparr>files := (files st)(f \<mapsto> \<lparr>ff_cookie = cookie, ff_mount = m\<rparr>)\<rparr>)"
    using mount_refs_set [OF ok m, of "g m + 1"] by (subst mount_refs_cong) auto
  ultimately show ?thesis using m by auto
qed

subsection \<open>The operations keep the invariant\<close>

lemma fs_okD:
  assumes "fs_ok base st"
  shows "mount_refs (\<lambda>m. card (on_mount st m) + (if m \<in> base then 1 else 0)) st" and "finite (dom (files st))"
    and "files st f = Some file \<Longrightarrow> mnt st (ff_mount file) \<noteq> None" and "base \<subseteq> dom (mnt st)"
  using assms by (auto simp: fs_ok_def)

lemma fs_ok_drv [simp]: "fs_ok base (st\<lparr>drv := w\<rparr>) = fs_ok base st"
proof -
  have "mount_refs g (st\<lparr>drv := w\<rparr>) = mount_refs g st" for g by (rule mount_refs_cong) simp_all
  then show ?thesis by (simp add: fs_ok_def on_mount_def)
qed

lemma finite_on_mount: "finite (dom (files st)) \<Longrightarrow> finite (on_mount st m)"
  by (rule finite_subset [of _ "dom (files st)"]) (auto simp: on_mount_def)

lemma fs_ok_new_file:
  assumes ok: "fs_ok base st" and m: "mnt st m \<noteq> None" and f: "files st f = None"
  shows "\<exists>st'. new_file f m cookie st = Some st' \<and> fs_ok base st'"
proof -
  let ?g = "\<lambda>m. card (on_mount st m) + (if m \<in> base then 1 else 0)"
  obtain st' where st': "new_file f m cookie st = Some st'" "mount_refs (?g(m := ?g m + 1)) st'" "dom (mnt st') = dom (mnt st)"
    "files st' = (files st)(f \<mapsto> \<lparr>ff_cookie = cookie, ff_mount = m\<rparr>)"
    using new_file_ok [OF fs_okD(1) [OF ok] m] by blast
  have "on_mount st' x = (if x = m then insert f (on_mount st m) else on_mount st x)" for x
    using f by (auto simp: on_mount_def st'(4))
  moreover have "f \<notin> on_mount st m" using f by (simp add: on_mount_def)
  ultimately have "(\<lambda>x. card (on_mount st' x) + (if x \<in> base then 1 else 0)) = ?g(m := ?g m + 1)"
    using finite_on_mount [OF fs_okD(2) [OF ok]] by (auto simp: fun_eq_iff)
  moreover have "mnt st' (ff_mount fl) \<noteq> None" if "files st' g = Some fl" for g fl
    using that fs_okD(3) [OF ok, of g fl] m st'(3,4) by (auto split: if_splits)
  ultimately show ?thesis using st' ok by (auto simp: fs_ok_def)
qed

lemma fs_ok_put_file:
  assumes ok: "fs_ok base st" and f: "files st f = Some file"
  shows "\<exists>n st'. put_mount types n (ff_mount file) st = Some st'"
    and "put_mount types n (ff_mount file) st = Some st' \<Longrightarrow> fs_ok base (st'\<lparr>files := (files st')(f := None)\<rparr>)"
proof -
  let ?m = "ff_mount file" and ?g = "\<lambda>m. card (on_mount st m) + (if m \<in> base then 1 else 0)"
  obtain mount where m: "mnt st ?m = Some mount" using fs_okD(3) [OF ok f] by blast
  note put = put_mount_ok [OF fs_okD(1) [OF ok] m]
  show "\<exists>n st'. put_mount types n (ff_mount file) st = Some st'" by (rule put(1))
  show "fs_ok base (st'\<lparr>files := (files st')(f := None)\<rparr>)" if pm: "put_mount types n (ff_mount file) st = Some st'"
  proof -
    have p: "mount_refs (?g(?m := ?g ?m - 1)) st'" "files st' = files st" "dom (mnt st') = (if ?g ?m = 1 then dom (mnt st) - {?m} else dom (mnt st))"
      using put(2) [OF pm] by blast+
    let ?st = "st'\<lparr>files := (files st')(f := None)\<rparr>"
    have on: "on_mount ?st x = (if x = ?m then on_mount st ?m - {f} else on_mount st x)" for x
      using f by (auto simp: on_mount_def p(2))
    have fin: "f \<in> on_mount st ?m" "finite (on_mount st ?m)" using f finite_on_mount [OF fs_okD(2) [OF ok]] by (auto simp: on_mount_def)
    then have pos: "0 < card (on_mount st ?m)" by (auto simp: card_gt_0_iff)
    then have "(\<lambda>x. card (on_mount ?st x) + (if x \<in> base then 1 else 0)) = ?g(?m := ?g ?m - 1)"
      using fin by (auto simp: fun_eq_iff on)
    moreover have "mount_refs g ?st = mount_refs g st'" for g by (rule mount_refs_cong) simp_all
    moreover have "mnt st' (ff_mount fl') \<noteq> None" if "files st x = Some fl'" "x \<noteq> f" for x fl'
    proof (cases "?g ?m = 1 \<and> ff_mount fl' = ?m")
      case True
      then have "on_mount st ?m = {f}" using pos fin by (metis One_nat_def add_cancel_right_right add_is_1 card_1_singletonE less_numeral_extra(3) singletonD)
      then show ?thesis using that True by (auto simp: on_mount_def)
    next
      case False
      then show ?thesis using fs_okD(3) [OF ok that(1)] p(3) by (auto simp: domIff split: if_splits)
    qed
    moreover have "base \<subseteq> dom (mnt st')" using fs_okD(4) [OF ok] pos p(3) by (auto split: if_splits)
    ultimately show ?thesis using p fs_okD(2) [OF ok] by (auto simp: fs_ok_def)
  qed
qed

lemma fs_ok_put_base:
  assumes ok: "fs_ok base st" and b: "m \<in> base"
  shows "\<exists>n st'. put_mount types n m st = Some st'" and "put_mount types n m st = Some st' \<Longrightarrow> fs_ok (base - {m}) st'"
proof -
  let ?g = "\<lambda>m. card (on_mount st m) + (if m \<in> base then 1 else 0)"
  obtain mount where m: "mnt st m = Some mount" using fs_okD(4) [OF ok] b by blast
  note put = put_mount_ok [OF fs_okD(1) [OF ok] m]
  show "\<exists>n st'. put_mount types n m st = Some st'" by (rule put(1))
  show "fs_ok (base - {m}) st'" if pm: "put_mount types n m st = Some st'"
  proof -
    have p: "mount_refs (?g(m := ?g m - 1)) st'" "files st' = files st" "dom (mnt st') = (if ?g m = 1 then dom (mnt st) - {m} else dom (mnt st))"
      using put(2) [OF pm] by blast+
    have on: "on_mount st' = on_mount st" by (simp add: fun_eq_iff on_mount_def p(2))
    have "(\<lambda>x. card (on_mount st' x) + (if x \<in> base - {m} then 1 else 0)) = ?g(m := ?g m - 1)" using b by (auto simp: fun_eq_iff on)
    moreover have "mnt st' (ff_mount fl) \<noteq> None" if "files st x = Some fl" for x fl
    proof -
      have "?g m = 1 \<Longrightarrow> ff_mount fl \<noteq> m"
        using that b finite_on_mount [OF fs_okD(2) [OF ok], of m] by (auto simp: on_mount_def)
      then show ?thesis using fs_okD(3) [OF ok that] p(3) by (auto simp: domIff split: if_splits)
    qed
    ultimately show ?thesis using p fs_okD(2,4) [OF ok] by (auto simp: fs_ok_def)
  qed
qed

lemma open_create_ok:
  assumes ok: "fs_ok base st" and p: "cstr s path" "length tmp = 512" and f: "files st f = None"
  shows "\<exists>r st'. fs_open_file types tmp f path st = Some (r, st') \<and> fs_ok base st'"
    and "\<exists>r st'. fs_create_file types tmp f path st = Some (r, st') \<and> fs_ok base st'"
    and "\<exists>r st'. fs_make_dir types tmp path st = Some (r, st') \<and> fs_ok base st'"
proof -
  obtain q where q: "temp_path tmp path = Some q" "cstr (normal_path (take 511 s)) q" using temp_path_ok [OF p] by blast
  obtain r where r: "find_mount q st = Some r" using find_mount_ok(1) [OF fs_okD(1) [OF ok] q(2)] by blast
  have new: "\<exists>st'. new_file f m cookie (st\<lparr>drv := w\<rparr>) = Some st' \<and> fs_ok base st'" if "mnt st m \<noteq> None" for m cookie w
    using fs_ok_new_file [of base "st\<lparr>drv := w\<rparr>" m f cookie] ok f that by simp
  have "(\<exists>r st'. fs_open_file types tmp f path st = Some (r, st') \<and> fs_ok base st') \<and>
    (\<exists>r st'. fs_create_file types tmp f path st = Some (r, st') \<and> fs_ok base st') \<and>
    (\<exists>r st'. fs_make_dir types tmp path st = Some (r, st') \<and> fs_ok base st')"
  proof (cases r)
    case None
    then show ?thesis using q(1) r ok by (simp add: fs_open_file_def fs_create_file_def fs_make_dir_def)
  next
    case (Some mk)
    obtain m k where mk: "mk = (m, k)" by (cases mk)
    then obtain mount where m: "mnt st m = Some mount" using find_mount_ok(2) [OF fs_okD(1) [OF ok] q(2)] r Some by blast
    have fin: "\<exists>r st'. (if err < 0 then Some (err, st\<lparr>drv := w\<rparr>) else do { st' \<leftarrow> new_file f m cookie (st\<lparr>drv := w\<rparr>); Some (0, st') }) = Some (r, st') \<and> fs_ok base st'"
      for err :: int and cookie w using new [of m cookie w] m ok by auto
    have "\<exists>r st'. fs_open_file types tmp f path st = Some (r, st') \<and> fs_ok base st'"
      using q(1) r Some mk m fin by (simp add: fs_open_file_def split: prod.split)
    moreover have "\<exists>r st'. fs_create_file types tmp f path st = Some (r, st') \<and> fs_ok base st'"
      using q(1) r Some mk m ok fin by (simp add: fs_create_file_def split: prod.split option.split)
    moreover have "\<exists>r st'. fs_make_dir types tmp path st = Some (r, st') \<and> fs_ok base st'"
      using q(1) r Some mk m ok by (simp add: fs_make_dir_def split: prod.splits option.splits)
    ultimately show ?thesis by blast
  qed
  then show "\<exists>r st'. fs_open_file types tmp f path st = Some (r, st') \<and> fs_ok base st'"
    "\<exists>r st'. fs_create_file types tmp f path st = Some (r, st') \<and> fs_ok base st'"
    "\<exists>r st'. fs_make_dir types tmp path st = Some (r, st') \<and> fs_ok base st'" by blast+
qed

lemma file_ops_ok:
  assumes ok: "fs_ok base st" and f: "files st f = Some fl"
  shows "\<exists>r st'. fs_read_file types f offset len st = Some (r, st') \<and> fs_ok base st'"
    and "\<exists>r st'. fs_write_file types f buf offset st = Some (r, st') \<and> fs_ok base st'"
    and "\<exists>r stat' st'. fs_stat_file types f stat st = Some (r, stat', st') \<and> fs_ok base st'"
    and "\<exists>n r st'. fs_close_file types n f st = Some (r, st')"
    and "fs_close_file types n f st = Some (r, st') \<Longrightarrow> fs_ok base st'"
proof -
  obtain mount where m: "mnt st (ff_mount fl) = Some mount" using fs_okD(3) [OF ok f] by blast
  have ft: "file_type types f st = Some (fl, types ! fm_type mount)" using f m by (simp add: file_type_def)
  show "\<exists>r st'. fs_read_file types f offset len st = Some (r, st') \<and> fs_ok base st'"
    using ft ok by (simp add: fs_read_file_def split: prod.split)
  show "\<exists>r st'. fs_write_file types f buf offset st = Some (r, st') \<and> fs_ok base st'"
    using ft ok by (simp add: fs_write_file_def split: prod.split option.split)
  show "\<exists>r stat' st'. fs_stat_file types f stat st = Some (r, stat', st') \<and> fs_ok base st'"
    using ft ok by (simp add: fs_stat_file_def split: prod.split)
  obtain err w where c: "t_close (types ! fm_type mount) (ff_cookie fl) (drv st) = (err, w)" by (cases "t_close (types ! fm_type mount) (ff_cookie fl) (drv st)")
  have okw: "fs_ok base (st\<lparr>drv := w\<rparr>)" "files (st\<lparr>drv := w\<rparr>) f = Some fl" using ok f by simp_all
  note put = fs_ok_put_file [OF okw]
  obtain n' st1 where "put_mount types n' (ff_mount fl) (st\<lparr>drv := w\<rparr>) = Some st1" using put(1) by blast
  then have "\<exists>r st'. fs_close_file types n' f st = Some (r, st')" using ft c by (simp add: fs_close_file_def)
  then show "\<exists>n r st'. fs_close_file types n f st = Some (r, st')" by blast
  show "fs_ok base st'" if "fs_close_file types n f st = Some (r, st')"
    using that ft c put(2) ok by (auto simp: fs_close_file_def bind_eq_Some_conv split: if_splits)
qed

lemma unmount_ok:
  assumes ok: "fs_ok base st" and "temp_path tmp path = Some q" and "find_mount q st = Some (Some (m, k))" and "m \<in> base"
    and "fs_unmount types n tmp path st = Some (r, st')"
  shows "fs_ok (base - {m}) st'"
  using assms(2-5) fs_ok_put_base(2) [OF ok assms(4)] by (auto simp: fs_unmount_def bind_eq_Some_conv)

lemma refs_ok_open_none: "bio_open name b = Some (None, b') \<Longrightarrow> b' = b"
  by (auto simp: bio_open_def bind_eq_Some_conv split: option.splits)

lemma mount_ok:
  assumes ok: "fs_ok base st" and m: "mnt st m = None" and p: "cstr s path" "length tmp = 512"
    and alloc: "\<And>k. \<exists>copy. alloc k = Some copy \<and> length copy = k"
    and mf: "mount_fs types n alloc tmp m path device t st = Some (r, st')"
  shows "fs_ok (if mnt st' m = None then base else insert m base) st'"
proof -
  obtain q where q: "temp_path tmp path = Some q" "cstr (normal_path (take 511 s)) q" using temp_path_ok [OF p] by blast
  obtain copy where copy: "strdup alloc q = Some (Some copy)" "cstr (normal_path (take 511 s)) copy" using strdup_ok [OF q(2) alloc] by blast
  note mr = fs_okD(1) [OF ok]
  consider "st' = st" | b where "bio_open device (fs_bio st) = Some (None, b)" "st' = st\<lparr>fs_bio := b\<rparr>"
    | dev b b' w where "bio_open device (fs_bio st) = Some (Some dev, b)" "bio_close n dev b = Some b'" "st' = st\<lparr>fs_bio := b', drv := w\<rparr>"
    | dev b cookie w where "bio_open device (fs_bio st) = Some (Some dev, b)"
      "st' = st\<lparr>mounts := m # mounts st, fs_bio := b, drv := w,
         mnt := (mnt st)(m \<mapsto> \<lparr>fm_path = Some copy, fm_dev = dev, fm_cookie = cookie, fm_refs = 1, fm_type = t\<rparr>)\<rparr>"
  proof -
    obtain fr where fr: "find_mount q st = Some fr" using find_mount_ok(1) [OF mr q(2)] by blast
    show thesis
    proof (cases "q ! 0 \<noteq> slash \<or> fr \<noteq> None")
      case True
      then have "st' = st" using mf q(1) fr by (auto simp: mount_fs_def split: if_splits)
      then show thesis by (rule that(1))
    next
      case False
      then have "bio_open device (fs_bio st) \<noteq> None"
        using mf q(1) fr by (cases "bio_open device (fs_bio st)") (auto simp: mount_fs_def)
      then obtain ro b where bo: "bio_open device (fs_bio st) = Some (ro, b)" by auto
      obtain err cookie w where tm: "t_mount (types ! t) (the ro) (drv st) = (err, cookie, w)" by (cases "t_mount (types ! t) (the ro) (drv st)")
      show thesis
      proof (cases ro)
        case None
        then show thesis using that(2) [of b] mf q(1) fr False bo by (simp add: mount_fs_def)
      next
        case (Some dev)
        show thesis
        proof (cases "err < 0")
          case True
          then obtain b' where "bio_close n dev b = Some b'" "st' = st\<lparr>fs_bio := b', drv := w\<rparr>"
            using mf q(1) fr False bo Some tm by (auto simp: mount_fs_def bind_eq_Some_conv split: if_splits)
          then show thesis using that(3) bo Some by simp
        next
          case nn: False
          then show thesis using that(4) [of dev b cookie w] mf q(1) fr False bo Some tm copy(1) by (simp add: mount_fs_def split: if_splits)
        qed
      qed
    qed
  qed
  then show ?thesis
  proof cases
    case 1
    then show ?thesis using ok m by simp
  next
    case 2
    then show ?thesis using ok m refs_ok_open_none by fastforce
  next
    case (3 dev b b' w)
    have "refs_ok b ((devs st)(dev := devs st dev + 1))" "chains_end b"
      using open_ok(1,2) [OF mount_refsD(3) [OF mr] 3(1)] mount_refsD(4) [OF mr] chains_end_upd by auto
    then have "refs_ok b' (devs st)" "chains_end b'" using close_ok(2) [of b "(devs st)(dev := devs st dev + 1)" dev n b'] 3(2) by (auto simp: bio_close_def)
    then have "mount_refs g st' = mount_refs g st" for g
      using 3(3) mount_refsD(3,4) [OF mr] by (simp add: mount_refs_def devs_def [abs_def])
    then show ?thesis using ok m 3(3) by (simp add: fs_ok_def on_mount_def)
  next
    case (4 dev b cookie w)
    have r: "refs_ok b ((devs st)(dev := devs st dev + 1))" "chains_end b"
      using open_ok(1,2) [OF mount_refsD(3) [OF mr] 4(1)] mount_refsD(4) [OF mr] chains_end_upd by auto
    have nm: "m \<notin> set (mounts st)" using mount_refsD(2) [OF mr] m by auto
    then have "map (\<lambda>x. map_option fm_dev (mnt st' x)) (mounts st') = Some dev # map (\<lambda>x. map_option fm_dev (mnt st x)) (mounts st)"
      by (auto simp: 4(2))
    then have d: "devs st' = (devs st)(dev := devs st dev + 1)" unfolding devs_def [of st'] by (auto simp: devs_def [of st] fun_eq_iff)
    have on: "on_mount st' = on_mount st" by (simp add: fun_eq_iff on_mount_def 4(2))
    have "on_mount st m = {}" using fs_okD(3) [OF ok] m by (auto simp: on_mount_def) (metis option.distinct(1))
    moreover have "m \<notin> base" using fs_okD(4) [OF ok] m by auto
    ultimately have "mount_refs (\<lambda>x. card (on_mount st' x) + (if x \<in> insert m base then 1 else 0)) st'"
      unfolding mount_refs_def d on using mr r nm copy(2) by (auto simp: mount_refs_def 4(2))
    then show ?thesis using fs_okD(2-4) [OF ok] by (auto simp: fs_ok_def 4(2))
  qed
qed

subsection \<open>Reachable states\<close>

text \<open>The client unmounts a file system at most once for every time it is mounted.\<close>

inductive fs_reach :: "('c, 'f, 'w) fs_type list \<Rightarrow> nat set \<Rightarrow> ('c, 'f, 'w) fs_state \<Rightarrow> bool" for types where
  init: "bio_reach b (\<lambda>_. 0) \<Longrightarrow> fs_reach types {} (fs_init \<lparr>mounts = ms, mnt = Map.empty, files = Map.empty, fs_bio = b, drv = w\<rparr>)"
| mount: "fs_reach types base st \<Longrightarrow> mnt st m = None \<Longrightarrow> cstr s path \<Longrightarrow> length tmp = 512 \<Longrightarrow>
    (\<And>k. \<exists>copy. alloc k = Some copy \<and> length copy = k) \<Longrightarrow> mount_fs types n alloc tmp m path device t st = Some (r, st') \<Longrightarrow>
    fs_reach types (if mnt st' m = None then base else insert m base) st'"
| unmount: "fs_reach types base st \<Longrightarrow> temp_path tmp path = Some q \<Longrightarrow> find_mount q st = Some (Some (m, k)) \<Longrightarrow> m \<in> base \<Longrightarrow>
    fs_unmount types n tmp path st = Some (r, st') \<Longrightarrow> fs_reach types (base - {m}) st'"
| open_file: "fs_reach types base st \<Longrightarrow> cstr s path \<Longrightarrow> length tmp = 512 \<Longrightarrow> files st f = None \<Longrightarrow>
    fs_open_file types tmp f path st = Some (r, st') \<Longrightarrow> fs_reach types base st'"
| create_file: "fs_reach types base st \<Longrightarrow> cstr s path \<Longrightarrow> length tmp = 512 \<Longrightarrow> files st f = None \<Longrightarrow>
    fs_create_file types tmp f path st = Some (r, st') \<Longrightarrow> fs_reach types base st'"
| make_dir: "fs_reach types base st \<Longrightarrow> cstr s path \<Longrightarrow> length tmp = 512 \<Longrightarrow>
    fs_make_dir types tmp path st = Some (r, st') \<Longrightarrow> fs_reach types base st'"
| read_file: "fs_reach types base st \<Longrightarrow> files st f \<noteq> None \<Longrightarrow> fs_read_file types f offset len st = Some (d, st') \<Longrightarrow> fs_reach types base st'"
| write_file: "fs_reach types base st \<Longrightarrow> files st f \<noteq> None \<Longrightarrow> fs_write_file types f buf offset st = Some (r, st') \<Longrightarrow> fs_reach types base st'"
| stat_file: "fs_reach types base st \<Longrightarrow> files st f \<noteq> None \<Longrightarrow> fs_stat_file types f stat st = Some (r, stat', st') \<Longrightarrow> fs_reach types base st'"
| close_file: "fs_reach types base st \<Longrightarrow> files st f \<noteq> None \<Longrightarrow> fs_close_file types n f st = Some (r, st') \<Longrightarrow> fs_reach types base st'"

lemma fs_reach_ok: "fs_reach types base st \<Longrightarrow> fs_ok base st"
proof (induction rule: fs_reach.induct)
  case (init b ms w)
  then have "refs_ok b (\<lambda>_. 0)" "chains_end b" using reach_refs by blast+
  then show ?case by (simp add: fs_ok_def mount_refs_def on_mount_def fs_init_def devs_def [abs_def])
next
  case (mount base st m s path tmp alloc n device t r st')
  then show ?case using mount_ok [OF mount.IH mount.hyps(2-6)] by blast
next
  case (unmount base st tmp path q m k n r st')
  then show ?case using unmount_ok by blast
next
  case (open_file base st s path tmp f r st')
  then show ?case using open_create_ok(1) [where types = types, OF open_file.IH open_file.hyps(2-4)] by force
next
  case (create_file base st s path tmp f r st')
  then show ?case using open_create_ok(2) [where types = types, OF create_file.IH create_file.hyps(2-4)] by force
next
  case (make_dir base st s path tmp r st')
  obtain f where "files st f = None"
    using fs_okD(2) [OF make_dir.IH] infinite_UNIV_nat by (metis UNIV_eq_I domIff)
  then show ?case using make_dir open_create_ok(3) [where types = types, OF make_dir.IH make_dir.hyps(2,3)] by force
next
  case (read_file base st f offset len d st')
  then obtain fl where "files st f = Some fl" by blast
  from file_ops_ok(1) [OF read_file.IH this, of types offset len] show ?case using read_file.hyps(3) by auto
next
  case (write_file base st f buf offset r st')
  then obtain fl where "files st f = Some fl" by blast
  from file_ops_ok(2) [OF write_file.IH this, of types buf offset] show ?case using write_file.hyps(3) by auto
next
  case (stat_file base st f stat r stat' st')
  then obtain fl where "files st f = Some fl" by blast
  from file_ops_ok(3) [OF stat_file.IH this, of types stat] show ?case using stat_file.hyps(3) by auto
next
  case (close_file base st f n r st')
  then obtain fl where "files st f = Some fl" by blast
  then show ?case using file_ops_ok(5) [OF close_file.IH] close_file.hyps(3) by blast
qed

subsection \<open>Properties\<close>


text \<open>The file systems of the examples: one type whose mounts and files are numbers, and a state that counts the calls.\<close>

definition example_type :: "(nat, nat, nat) fs_type" where
  "example_type = \<lparr>t_name = [101, 0], t_mount = (\<lambda>dev w. (0, dev, w + 1)), t_unmount = (\<lambda>c w. w + 1),
     t_open = (\<lambda>c p w. (0, length p, w + 1)), t_create = None, t_mkdir = None, t_stat = (\<lambda>f s w. (0, s\<lparr>fsize := 4\<rparr>, w)),
     t_read = (\<lambda>f off len w. (Inr (replicate len 5), w)), t_write = None, t_close = (\<lambda>f w. (0, w + 1))\<rparr>"

definition example_fs :: "(nat, nat, nat) fs_state" where
  "example_fs = fs_init \<lparr>mounts = [], mnt = Map.empty, files = Map.empty, fs_bio = example_bio, drv = 0\<rparr>"

lemma example_reach: "fs_reach [example_type] {} example_fs"
  unfolding example_fs_def by (rule fs_reach.init) (rule example_bio_reach)

lemma example_mount:
  obtains st b where "mount_fs [example_type] 1 (\<lambda>k. Some (replicate k 0)) (replicate 512 0) 9 [47, 97, 0] ''mem'' 0 example_fs = Some (0, st)"
    and "fs_reach [example_type] {9} st" and "mounts st = [9]" and "files st = Map.empty"
    and "mnt st 9 = Some \<lparr>fm_path = Some [47, 97, 0], fm_dev = 0, fm_cookie = 0, fm_refs = 1, fm_type = 0\<rparr>"
proof -
  let ?alloc = "\<lambda>k. Some (replicate k 0)" and ?tmp = "replicate 512 0 :: u8 list"
  have c: "cstr [47, 97] [47, 97, 0]" by (simp add: cstr_def)
  moreover have "normal_path (take 511 [47, 97]) = [47, 97]" by (simp add: normal_path_def norm_field_def render_def)
  ultimately obtain rest where q: "temp_path ?tmp [47, 97, 0] = Some (47 # 97 # 0 # rest)"
    using temp_path_ok [of "[47, 97]" "[47, 97, 0]" ?tmp] by (auto simp: cstr_def)
  obtain b where b: "bio_open ''mem'' example_bio = Some (Some 0, b)" by (simp add: bio_open_def bdev_inc_ref_def example_bio_eq)
  have d: "strdup ?alloc (47 # 97 # 0 # rest) = Some (Some [47, 97, 0])"
    by (simp add: strdup_def memcpy_into_def blit_def numeral_3_eq_3)
  have f: "find_mount (47 # 97 # 0 # rest) example_fs = Some None" by (simp add: find_mount_def example_fs_def fs_init_def)
  define st where "st = example_fs\<lparr>mounts := [9], fs_bio := b, drv := 1,
    mnt := [9 \<mapsto> \<lparr>fm_path = Some [47, 97, 0], fm_dev = 0, fm_cookie = 0, fm_refs = 1, fm_type = 0\<rparr>]\<rparr>"
  have m: "mount_fs [example_type] 1 ?alloc ?tmp 9 [47, 97, 0] ''mem'' 0 example_fs = Some (0, st)"
    using q b d f by (simp add: mount_fs_def st_def example_type_def example_fs_def fs_init_def)
  have "fs_reach [example_type] (if mnt st 9 = None then {} else insert 9 {}) st"
    by (rule fs_reach.mount [OF example_reach _ c _ _ m]) (simp_all add: example_fs_def fs_init_def)
  then show thesis using that m by (simp add: st_def example_fs_def fs_init_def)
qed

lemma example_open:
  obtains st1 st where "fs_reach [example_type] {9} st1" and "fs_open_file [example_type] (replicate 512 0) 8 [47, 97, 47, 98, 0] st1 = Some (0, st)"
    and "fs_reach [example_type] {9} st" and "on_mount st 9 = {8}" and "files st 8 \<noteq> None"
    and "find_mount (47 # 97 # 0 # rest) st = Some (Some (9, length [47, 97 :: u8]))"
proof -
  let ?tmp = "replicate 512 0 :: u8 list"
  obtain st1 where st1: "fs_reach [example_type] {9} st1" "mounts st1 = [9]" "files st1 = Map.empty"
    "mnt st1 9 = Some \<lparr>fm_path = Some [47, 97, 0], fm_dev = 0, fm_cookie = 0, fm_refs = 1, fm_type = 0\<rparr>"
    using example_mount by metis
  have c: "cstr [47, 97, 47, 98] [47, 97, 47, 98, 0]" by (simp add: cstr_def)
  moreover have "normal_path (take 511 [47, 97, 47, 98]) = [47, 97, 47, 98]" by (simp add: normal_path_def norm_field_def render_def)
  ultimately obtain r where q: "temp_path ?tmp [47, 97, 47, 98, 0] = Some (47 # 97 # 47 # 98 # 0 # r)"
    using temp_path_ok [of "[47, 97, 47, 98]" "[47, 97, 47, 98, 0]" ?tmp] by (auto simp: cstr_def)
  have f: "find_mount (47 # 97 # 47 # 98 # 0 # r) st1 = Some (Some (9, Suc (Suc 0)))" using st1 by (simp add: find_mount_def)
  define st where "st = st1\<lparr>drv := drv st1 + 1, files := [8 \<mapsto> \<lparr>ff_cookie = length (47 # 98 # 0 # r), ff_mount = 9\<rparr>],
    mnt := (mnt st1)(9 \<mapsto> \<lparr>fm_path = Some [47, 97, 0], fm_dev = 0, fm_cookie = 0, fm_refs = 2, fm_type = 0\<rparr>)\<rparr>"
  have o: "fs_open_file [example_type] ?tmp 8 [47, 97, 47, 98, 0] st1 = Some (0, st)"
    using q f st1 by (simp add: fs_open_file_def new_file_def st_def example_type_def)
  have "fs_reach [example_type] {9} st" by (rule fs_reach.open_file [OF st1(1) c _ _ o]) (simp_all add: st1)
  moreover have "on_mount st 9 = {8}" by (auto simp: st_def on_mount_def split: if_splits)
  moreover have "find_mount (47 # 97 # 0 # rest) st = Some (Some (9, length [47, 97 :: u8]))"
    using st1 by (simp add: find_mount_def st_def)
  ultimately show thesis using that st1(1) o by (simp add: st_def)
qed


lemma find_mount_cong:
  assumes "mounts st' = mounts st" and "\<And>x. map_option fm_path (mnt st' x) = map_option fm_path (mnt st x)"
  shows "find_mount q st' = find_mount q st"
proof -
  have "find_mount_loop st' q l ms = find_mount_loop st q l ms" for l ms
  proof (induction ms)
    case (Cons m ms)
    then show ?case using assms(2) [of m] by (cases "mnt st m"; cases "mnt st' m") (simp_all cong: option.case_cong if_cong Option.bind_cong)
  qed simp
  then show ?thesis using assms(1) by (simp add: find_mount_def)
qed

text \<open>
  (C34) \<open>fs_unmount\<close> drops a reference of the mount it finds, whether or not the mount has been unmounted
  before: the mount stays in the table as long as a file is open. Two calls on a file system with one
  open file free the mount under the file, and the next read through the file uses freed memory.
\<close>

theorem unmount_twice_frees:
  assumes "fs_reach types base st" and "temp_path tmp path = Some q" and "find_mount q st = Some (Some (m, k))" and "m \<in> base"
    and "on_mount st m = {f}"
  shows "\<exists>n st1 st2. fs_unmount types n tmp path st = Some (0, st1) \<and> fs_unmount types n tmp path st1 = Some (0, st2) \<and>
    files st2 f \<noteq> None \<and> fs_read_file types f offset len st2 = None"
proof -
  have ok: "fs_ok base st" by (rule fs_reach_ok [OF assms(1)])
  obtain mount where m: "mnt st m = Some mount" using fs_okD(4) [OF ok] assms(4) by blast
  have r: "fm_refs mount = 2" using mount_refsD(5) [OF fs_okD(1) [OF ok] m] assms(4,5) by simp
  define st1 where "st1 = st\<lparr>mnt := (mnt st)(m \<mapsto> mount\<lparr>fm_refs := 1\<rparr>)\<rparr>"
  have u1: "fs_unmount types n tmp path st = Some (0, st1)" for n
    using assms(2,3) m r by (simp add: fs_unmount_def put_mount_def st1_def)
  have "find_mount q st1 = Some (Some (m, k))" using find_mount_cong [of st1 st q] m assms(3) by (simp add: st1_def)
  moreover have "fs_ok (base - {m}) st1" by (rule unmount_ok [OF ok assms(2-4) u1])
  moreover have m1: "mnt st1 m = Some (mount\<lparr>fm_refs := 1\<rparr>)" by (simp add: st1_def)
  ultimately obtain n st2 where p: "put_mount types n m st1 = Some st2" and fm: "find_mount q st1 = Some (Some (m, k))"
    using put_mount_ok(1) [OF fs_okD(1) m1] by blast
  then have u2: "fs_unmount types n tmp path st1 = Some (0, st2)" using assms(2) fm by (simp add: fs_unmount_def)
  have "mnt st2 m = None" "files st2 = files st" using p by (auto simp: put_mount_def st1_def bind_eq_Some_conv)
  moreover obtain fl where "files st f = Some fl" "ff_mount fl = m" using assms(5) by (auto simp: on_mount_def)
  ultimately have "files st2 f \<noteq> None" "fs_read_file types f offset len st2 = None" by (simp_all add: fs_read_file_def file_type_def)
  then show ?thesis using u1 u2 by blast
qed

theorem unmount_twice_frees_witness:
  "\<exists>st n st1 st2. fs_reach [example_type] {9} st \<and> fs_unmount [example_type] n (replicate 512 0) [47, 97, 0] st = Some (0, st1) \<and>
     fs_unmount [example_type] n (replicate 512 0) [47, 97, 0] st1 = Some (0, st2) \<and> fs_read_file [example_type] 8 0 4 st2 = None"
proof -
  have "normal_path (take 511 [47, 97]) = [47, 97]" by (simp add: normal_path_def norm_field_def render_def)
  then obtain rest where q: "temp_path (replicate 512 0) [47, 97, 0] = Some (47 # 97 # 0 # rest)"
    using temp_path_ok [of "[47, 97]" "[47, 97, 0]" "replicate 512 0"] by (auto simp: cstr_def)
  obtain st where st: "fs_reach [example_type] {9} st" "on_mount st 9 = {8}" "find_mount (47 # 97 # 0 # rest) st = Some (Some (9, length [47, 97 :: u8]))"
    using example_open by metis
  show ?thesis using unmount_twice_frees [OF st(1) q st(3) _ st(2), of 0 4] st(1) by blast
qed

end
