(* ===== verification/LK_Sparse.thy ===== *)
theory LK_Sparse
  imports LK_Prelude
begin

text \<open>
  The writer of sparse images (\<^verbatim>\<open>app/mt_boot/sparse_state_machine.c\<close>, \<^verbatim>\<open>sparse_format.h\<close>): a state
  machine that takes an image in packages and writes its chunks to the storage. The storage driver
  (\<open>emmc_read\<close>, \<open>emmc_write\<close>) and the size of its blocks (\<open>BLK_SIZE\<close>, of the platform's header) are
  parameters. \<open>us_buf\<close> is the list of the \<open>size\<close> bytes at \<open>buf\<close>.
\<close>

subsection \<open>The state machine\<close>

datatype STATUS_E = S_DONE | S_DA_SDMMC_WRITE_FAILED | S_DA_SDMMC_READ_FAILED | S_DA_SDMMC_SPARSE_INCOMPLETE | S_DA_SDMMC_CHECKSUM_ERR

datatype unsparse_phase = UNSPARSE_WAIT_SPARSE_HEADER | UNSPARSE_WAIT_CHUNK_HEADER | UNSPARSE_WAIT_CHUNK_DATA

record sparse_header =
  magic :: u32
  major_version :: "16 word"
  minor_version :: "16 word"
  file_hdr_sz :: "16 word"
  chunk_hdr_sz :: "16 word"
  blk_sz :: u32
  total_blks :: u32
  total_chunks :: u32
  image_checksum :: u32

record chunk_header =
  chunk_type :: "16 word"
  reserved1 :: "16 word"
  chunk_sz :: u32
  total_sz :: u32

definition sparse_header_of :: "u8 list \<Rightarrow> sparse_header" where
  "sparse_header_of b =
     \<lparr>magic = le32 b, major_version = le16 (drop 4 b), minor_version = le16 (drop 6 b), file_hdr_sz = le16 (drop 8 b),
      chunk_hdr_sz = le16 (drop 10 b), blk_sz = le32 (drop 12 b), total_blks = le32 (drop 16 b), total_chunks = le32 (drop 20 b),
      image_checksum = le32 (drop 24 b)\<rparr>"

definition chunk_header_of :: "u8 list \<Rightarrow> chunk_header" where
  "chunk_header_of b =
     \<lparr>chunk_type = le16 b, reserved1 = le16 (drop 2 b), chunk_sz = le32 (drop 4 b), total_sz = le32 (drop 8 b)\<rparr>"

abbreviation (input) sparse_header_size :: nat where "sparse_header_size \<equiv> 28"
abbreviation (input) chunk_header_size :: nat where "chunk_header_size \<equiv> 12"
abbreviation (input) CHUNK_TYPE_RAW :: "16 word" where "CHUNK_TYPE_RAW \<equiv> 0xCAC1"
abbreviation (input) CHUNK_TYPE_DONT_CARE :: "16 word" where "CHUNK_TYPE_DONT_CARE \<equiv> 0xCAC3"

record unsparse_status =
  handle_status :: STATUS_E
  wait_phase :: unsparse_phase
  image_base_addr :: u64
  us_buf :: "u8 list"
  checksum_enabled :: bool

record unsparse_data =
  sparse_hdr :: sparse_header
  chunk_hdr :: chunk_header
  chunk_remain_data_size :: u64
  image_address_offset :: u64
  unhandle_buf_size :: nat
  unhandle_buf :: "u8 list"

record 'e emmc =
  emmc_write :: "u64 \<Rightarrow> u8 list \<Rightarrow> 'e \<Rightarrow> u64 \<times> 'e"
  emmc_read :: "u64 \<Rightarrow> u64 \<Rightarrow> 'e \<Rightarrow> u64 \<times> u8 list \<times> 'e"

fun calc_checksum :: "u8 list \<Rightarrow> u32" where
  "calc_checksum (a # b # c # d # data) = le32 [a, b, c, d] + calc_checksum data"
| "calc_checksum data = sum_list (map ucast data)"

definition mmc_set_unsparse_status :: "STATUS_E \<Rightarrow> unsparse_phase \<Rightarrow> u8 list \<Rightarrow> unsparse_status \<Rightarrow> unsparse_status" where
  "mmc_set_unsparse_status hs ph buf status = status\<lparr>handle_status := hs, wait_phase := ph, us_buf := buf\<rparr>"

definition mmc_init_unsparse_status :: "u64 \<Rightarrow> bool \<Rightarrow> unsparse_status \<Rightarrow> unsparse_status" where
  "mmc_init_unsparse_status base enable_chk status =
     (mmc_set_unsparse_status S_DONE UNSPARSE_WAIT_SPARSE_HEADER [] status)\<lparr>image_base_addr := base, checksum_enabled := enable_chk\<rparr>"

text \<open>What \<open>memset\<close> leaves of the static structure.\<close>

definition zero_data :: unsparse_data where
  "zero_data = \<lparr>sparse_hdr = sparse_header_of (replicate 28 0), chunk_hdr = chunk_header_of (replicate 12 0), chunk_remain_data_size = 0,
     image_address_offset = 0, unhandle_buf_size = 0, unhandle_buf = replicate 12 0\<rparr>"

text \<open>A write, and the comparison of the checksums when they are enabled: the bytes are read back into the package.\<close>

definition write_verify :: "'e emmc \<Rightarrow> bool \<Rightarrow> u64 \<Rightarrow> u8 list \<Rightarrow> 'e \<Rightarrow> STATUS_E \<times> 'e" where
  "write_verify em chk addr bytes e =
     (case emmc_write em addr bytes e of (size_wrote, e1) \<Rightarrow>
        if size_wrote \<noteq> of_nat (length bytes) then (S_DA_SDMMC_WRITE_FAILED, e1)
        else if chk
        then (case emmc_read em addr (of_nat (length bytes)) e1 of (size_read, got, e2) \<Rightarrow>
                if of_nat (length bytes) \<noteq> size_read then (S_DA_SDMMC_READ_FAILED, e2)
                else if calc_checksum (blit 0 got bytes) \<noteq> calc_checksum bytes then (S_DA_SDMMC_CHECKSUM_ERR, e2)
                else (S_DONE, e2))
        else (S_DONE, e1))"

text \<open>The three phases.\<close>

definition sparse_header_phase :: "unsparse_status \<Rightarrow> unsparse_data \<Rightarrow> unsparse_status \<times> unsparse_data" where
  "sparse_header_phase status d =
     (let buf = us_buf status in
      if length buf \<ge> sparse_header_size
      then (mmc_set_unsparse_status S_DONE UNSPARSE_WAIT_CHUNK_HEADER (drop sparse_header_size buf) status,
            zero_data\<lparr>sparse_hdr := sparse_header_of (take sparse_header_size buf), unhandle_buf_size := 0\<rparr>)
      else (status, d))"

definition chunk_header_phase :: "unsparse_status \<Rightarrow> unsparse_data \<Rightarrow> unsparse_status \<times> unsparse_data" where
  "chunk_header_phase status d =
     (let buf = us_buf status; pending = unhandle_buf_size d in
      if pending + length buf \<ge> chunk_header_size
      then
        let used = (if pending > 0 then chunk_header_size - pending else chunk_header_size);
            hdr = chunk_header_of (if pending > 0 then take pending (unhandle_buf d) @ take used buf else take used buf);
            rest = drop used buf;
            d1 = d\<lparr>unhandle_buf_size := (if pending > 0 then 0 else pending), chunk_hdr := hdr,
                   chunk_remain_data_size := ucast (chunk_sz hdr) * ucast (blk_sz (sparse_hdr d))\<rparr>
        in if chunk_type hdr = CHUNK_TYPE_RAW then (mmc_set_unsparse_status S_DONE UNSPARSE_WAIT_CHUNK_DATA rest status, d1)
           else if chunk_type hdr = CHUNK_TYPE_DONT_CARE
           then (mmc_set_unsparse_status S_DONE UNSPARSE_WAIT_CHUNK_HEADER rest status,
                 d1\<lparr>image_address_offset := image_address_offset d1 + chunk_remain_data_size d1, chunk_remain_data_size := 0\<rparr>)
           else (status\<lparr>handle_status := S_DA_SDMMC_WRITE_FAILED\<rparr>, d1)
      else (mmc_set_unsparse_status S_DONE UNSPARSE_WAIT_CHUNK_HEADER [] status,
            d\<lparr>unhandle_buf_size := length buf, unhandle_buf := blit 0 buf (unhandle_buf d)\<rparr>))"

definition chunk_data_phase ::
  "'e emmc \<Rightarrow> u32 \<Rightarrow> unsparse_status \<Rightarrow> unsparse_data \<Rightarrow> 'e \<Rightarrow> unsparse_status \<times> unsparse_data \<times> 'e" where
  "chunk_data_phase em blk status d e =
     (let buf = us_buf status; size = (of_nat (length buf) :: u32); addr = image_base_addr status + image_address_offset d in
      if of_nat (length buf) \<ge> chunk_remain_data_size d
      then
        let n = unat (chunk_remain_data_size d) in
        (case write_verify em (checksum_enabled status) addr (take n buf) e of (hs, e1) \<Rightarrow>
           if hs \<noteq> S_DONE then (status\<lparr>handle_status := hs\<rparr>, d, e1)
           else (mmc_set_unsparse_status S_DONE UNSPARSE_WAIT_CHUNK_HEADER (drop n buf) status,
                 d\<lparr>image_address_offset := image_address_offset d + chunk_remain_data_size d, chunk_remain_data_size := 0\<rparr>, e1))
      else if size AND (blk - 1) \<noteq> 0 \<and> size < blk
      then (mmc_set_unsparse_status S_DA_SDMMC_SPARSE_INCOMPLETE UNSPARSE_WAIT_CHUNK_DATA buf status, d, e)
      else
        let size1 = (if size AND (blk - 1) \<noteq> 0 then size AND NOT (blk - 1) else size); n = unat size1 in
        (case write_verify em (checksum_enabled status) addr (take n buf) e of (hs, e1) \<Rightarrow>
           if hs \<noteq> S_DONE then (status\<lparr>handle_status := hs\<rparr>, d, e1)
           else (mmc_set_unsparse_status S_DONE UNSPARSE_WAIT_CHUNK_DATA (take (unat (size AND (blk - 1))) (drop n buf)) status,
                 d\<lparr>image_address_offset := image_address_offset d + ucast size1,
                   chunk_remain_data_size := chunk_remain_data_size d - ucast size1\<rparr>, e1)))"

type_synonym 'e sparse_state = "unsparse_status \<times> unsparse_data \<times> 'e"

definition mmc_write_sparse_data_internal :: "'e emmc \<Rightarrow> u32 \<Rightarrow> 'e sparse_state \<Rightarrow> 'e sparse_state" where
  "mmc_write_sparse_data_internal em blk = (\<lambda>(status, d, e).
     if us_buf status = [] then (status, d, e)
     else (case wait_phase status of
        UNSPARSE_WAIT_SPARSE_HEADER \<Rightarrow> (case sparse_header_phase status d of (status', d') \<Rightarrow> (status', d', e))
      | UNSPARSE_WAIT_CHUNK_HEADER \<Rightarrow> (case chunk_header_phase status d of (status', d') \<Rightarrow> (status', d', e))
      | UNSPARSE_WAIT_CHUNK_DATA \<Rightarrow> chunk_data_phase em blk status d e))"

text \<open>The loop of \<open>mmc_write_sparse_data\<close>; \<open>None\<close> is a loop that does not end.\<close>

partial_function (option) mmc_write_sparse_data :: "'e emmc \<Rightarrow> u32 \<Rightarrow> 'e sparse_state \<Rightarrow> 'e sparse_state option" where
  "mmc_write_sparse_data em blk s =
     (let s' = mmc_write_sparse_data_internal em blk s in
      if handle_status (fst s') \<noteq> S_DONE \<or> us_buf (fst s') = [] then Some s'
      else mmc_write_sparse_data em blk s')"

text \<open>
  The packages of a stream, as \<open>write_to_emmc\<close> passes them: what is left of a package when its status is
  incomplete is put in front of the next one.
\<close>

fun write_packages :: "'e emmc \<Rightarrow> u32 \<Rightarrow> u8 list list \<Rightarrow> 'e sparse_state \<Rightarrow> 'e sparse_state option" where
  "write_packages em blk [] s = Some s"
| "write_packages em blk (p # ps) s =
     (let padding = (if handle_status (fst s) = S_DA_SDMMC_SPARSE_INCOMPLETE then us_buf (fst s) else []) in
      case mmc_write_sparse_data em blk ((fst s)\<lparr>us_buf := padding @ p\<rparr>, snd s) of
        None \<Rightarrow> None
      | Some s' \<Rightarrow>
          if handle_status (fst s') = S_DONE \<or> handle_status (fst s') = S_DA_SDMMC_SPARSE_INCOMPLETE
          then write_packages em blk ps s' else Some s')"

subsection \<open>What a stream means\<close>

text \<open>
  The stream read byte by byte: the bytes of the header so far, or the number of bytes of the current
  chunk that are to come; where they go, and the storage. An unknown chunk and an image that does not
  fit fail for good.
\<close>

datatype stream_phase = Head "u8 list" | Chunk "u8 list" | Data nat | Failed

record stream =
  phase :: stream_phase
  bsize :: u32
  pos :: nat
  disk :: "u8 list"

definition stream_byte :: "u8 \<Rightarrow> stream \<Rightarrow> stream" where
  "stream_byte b a =
     (case phase a of
        Head h \<Rightarrow>
          if length h + 1 < sparse_header_size then a\<lparr>phase := Head (h @ [b])\<rparr>
          else a\<lparr>phase := Chunk [], bsize := blk_sz (sparse_header_of (h @ [b]))\<rparr>
      | Chunk h \<Rightarrow>
          if length h + 1 < chunk_header_size then a\<lparr>phase := Chunk (h @ [b])\<rparr>
          else
            let hdr = chunk_header_of (h @ [b]); n = unat (chunk_sz hdr) * unat (bsize a) in
            if length (disk a) < pos a + n then a\<lparr>phase := Failed\<rparr>
            else if chunk_type hdr = CHUNK_TYPE_RAW then a\<lparr>phase := (if n = 0 then Chunk [] else Data n)\<rparr>
            else if chunk_type hdr = CHUNK_TYPE_DONT_CARE then a\<lparr>phase := Chunk [], pos := pos a + n\<rparr>
            else a\<lparr>phase := Failed\<rparr>
      | Data n \<Rightarrow> a\<lparr>phase := (if n = 1 then Chunk [] else Data (n - 1)), pos := pos a + 1, disk := (disk a)[pos a := b]\<rparr>
      | Failed \<Rightarrow> a)"

abbreviation stream_bytes :: "u8 list \<Rightarrow> stream \<Rightarrow> stream" where
  "stream_bytes \<equiv> fold stream_byte"

lemma stream_failed: "phase a = Failed \<Longrightarrow> stream_bytes bs a = a"
  by (induction bs arbitrary: a) (simp_all add: stream_byte_def)

lemma stream_head:
  "length h + length bs < sparse_header_size \<Longrightarrow> phase a = Head h \<Longrightarrow> stream_bytes bs a = a\<lparr>phase := Head (h @ bs)\<rparr>"
  "phase a = Head h \<Longrightarrow> length h + length bs = sparse_header_size \<Longrightarrow> bs \<noteq> [] \<Longrightarrow>
    stream_bytes bs a = a\<lparr>phase := Chunk [], bsize := blk_sz (sparse_header_of (h @ bs))\<rparr>"
proof -
  show *: "length h + length bs < sparse_header_size \<Longrightarrow> phase a = Head h \<Longrightarrow> stream_bytes bs a = a\<lparr>phase := Head (h @ bs)\<rparr>" for h bs a
  proof (induction bs arbitrary: a h)
    case (Cons b bs)
    then show ?case using Cons.IH [of "h @ [b]" "a\<lparr>phase := Head (h @ [b])\<rparr>"] by (simp add: stream_byte_def)
  qed simp
  assume "phase a = Head h" "length h + length bs = sparse_header_size" "bs \<noteq> []"
  moreover then obtain cs c where "bs = cs @ [c]" by (cases bs rule: rev_cases) auto
  ultimately show "stream_bytes bs a = a\<lparr>phase := Chunk [], bsize := blk_sz (sparse_header_of (h @ bs))\<rparr>"
    using * [of h cs a] by (simp add: stream_byte_def)
qed

definition chunk_done :: "u8 list \<Rightarrow> stream \<Rightarrow> stream" where
  "chunk_done h a = stream_byte (last h) (a\<lparr>phase := Chunk (butlast h)\<rparr>)"

lemma stream_chunk:
  "length h + length bs < chunk_header_size \<Longrightarrow> phase a = Chunk h \<Longrightarrow> stream_bytes bs a = a\<lparr>phase := Chunk (h @ bs)\<rparr>"
  "phase a = Chunk h \<Longrightarrow> length h + length bs = chunk_header_size \<Longrightarrow> bs \<noteq> [] \<Longrightarrow> stream_bytes bs a = chunk_done (h @ bs) a"
proof -
  show *: "length h + length bs < chunk_header_size \<Longrightarrow> phase a = Chunk h \<Longrightarrow> stream_bytes bs a = a\<lparr>phase := Chunk (h @ bs)\<rparr>" for h bs a
  proof (induction bs arbitrary: a h)
    case (Cons b bs)
    then show ?case using Cons.IH [of "h @ [b]" "a\<lparr>phase := Chunk (h @ [b])\<rparr>"] by (simp add: stream_byte_def)
  qed simp
  assume "phase a = Chunk h" "length h + length bs = chunk_header_size" "bs \<noteq> []"
  moreover then obtain cs c where "bs = cs @ [c]" by (cases bs rule: rev_cases) auto
  ultimately show "stream_bytes bs a = chunk_done (h @ bs) a"
    using * [of h cs a] by (simp add: chunk_done_def butlast_append)
qed

lemma blit_Cons: "i < length xs \<Longrightarrow> i + Suc (length bs) \<le> length xs \<Longrightarrow> blit (Suc i) bs (xs[i := b]) = blit i (b # bs) xs"
  by (rule nth_equalityI) (auto simp: nth_blit nth_Cons')

lemma stream_data:
  assumes "phase a = Data n" and "length bs \<le> n" and "pos a + n \<le> length (disk a)" and "0 < n"
  shows "stream_bytes bs a = a\<lparr>phase := (if length bs = n then Chunk [] else Data (n - length bs)), pos := pos a + length bs, disk := blit (pos a) bs (disk a)\<rparr>"
  using assms
proof (induction bs arbitrary: a n)
  case (Cons b bs)
  show ?case
  proof (cases "n = 1")
    case True
    then show ?thesis using Cons.prems blit_Cons [of "pos a" "disk a" "[]" b] by (simp add: stream_byte_def)
  next
    case False
    let ?a = "stream_byte b a"
    have a: "?a = a\<lparr>phase := Data (n - 1), pos := pos a + 1, disk := (disk a)[pos a := b]\<rparr>" using Cons.prems False by (simp add: stream_byte_def)
    show ?thesis using Cons.IH [of ?a "n - 1"] Cons.prems False blit_Cons [of "pos a" "disk a" bs b] by (simp add: a)
  qed
qed simp

subsection \<open>The machine follows the stream\<close>

text \<open>The documented behaviour of the storage: \<open>content\<close> are its bytes, and it transfers all of them inside of its size.\<close>

definition emmc_ok :: "'e emmc \<Rightarrow> ('e \<Rightarrow> u8 list) \<Rightarrow> bool" where
  "emmc_ok em content \<longleftrightarrow>
     (\<forall>addr bytes e. unat addr + length bytes \<le> length (content e) \<longrightarrow>
        (\<exists>e'. emmc_write em addr bytes e = (of_nat (length bytes), e') \<and> content e' = blit (unat addr) bytes (content e))) \<and>
     (\<forall>addr n e. unat addr + unat n \<le> length (content e) \<longrightarrow>
        (\<exists>e'. emmc_read em addr n e = (n, slice (unat addr) (unat n) (content e), e') \<and> content e' = content e))"

definition stream_of :: "('e \<Rightarrow> u8 list) \<Rightarrow> 'e sparse_state \<Rightarrow> stream" where
  "stream_of content = (\<lambda>(status, d, e).
     case wait_phase status of
       UNSPARSE_WAIT_SPARSE_HEADER \<Rightarrow> \<lparr>phase = Head [], bsize = 0, pos = unat (image_base_addr status), disk = content e\<rparr>
     | UNSPARSE_WAIT_CHUNK_HEADER \<Rightarrow>
         \<lparr>phase = Chunk (take (unhandle_buf_size d) (unhandle_buf d)), bsize = blk_sz (sparse_hdr d),
          pos = unat (image_base_addr status) + unat (image_address_offset d), disk = content e\<rparr>
     | UNSPARSE_WAIT_CHUNK_DATA \<Rightarrow>
         \<lparr>phase = (if chunk_remain_data_size d = 0 then Chunk [] else Data (unat (chunk_remain_data_size d))), bsize = blk_sz (sparse_hdr d),
          pos = unat (image_base_addr status) + unat (image_address_offset d), disk = content e\<rparr>)"

definition sp_ok :: "('e \<Rightarrow> u8 list) \<Rightarrow> 'e sparse_state \<Rightarrow> bool" where
  "sp_ok content = (\<lambda>(status, d, e). length (content e) < 2 ^ 64 \<and>
     (case wait_phase status of
        UNSPARSE_WAIT_SPARSE_HEADER \<Rightarrow> unat (image_base_addr status) \<le> length (content e)
      | UNSPARSE_WAIT_CHUNK_HEADER \<Rightarrow> unhandle_buf_size d < chunk_header_size \<and> length (unhandle_buf d) = chunk_header_size \<and>
          unat (image_base_addr status) + unat (image_address_offset d) \<le> length (content e)
      | UNSPARSE_WAIT_CHUNK_DATA \<Rightarrow> unhandle_buf_size d = 0 \<and> length (unhandle_buf d) = chunk_header_size \<and>
          unat (image_base_addr status) + unat (image_address_offset d) + unat (chunk_remain_data_size d) \<le> length (content e)))"

text \<open>What is left of a package together with the state says the same as the package and the state before.\<close>

definition follows :: "('e \<Rightarrow> u8 list) \<Rightarrow> 'e sparse_state \<Rightarrow> 'e sparse_state \<Rightarrow> bool" where
  "follows content s s' \<longleftrightarrow> sp_ok content s' \<and> stream_bytes (us_buf (fst s')) (stream_of content s') = stream_bytes (us_buf (fst s)) (stream_of content s)"

lemma write_verify_ok:
  assumes "emmc_ok em content" and "unat addr + length bytes \<le> length (content e)" and "length (content e) < 2 ^ 64"
  shows "\<exists>e'. write_verify em chk addr bytes e = (S_DONE, e') \<and> content e' = blit (unat addr) bytes (content e)"
proof -
  obtain e1 where w: "emmc_write em addr bytes e = (of_nat (length bytes), e1)" "content e1 = blit (unat addr) bytes (content e)"
    using assms(1,2) unfolding emmc_ok_def by blast
  have n: "unat (of_nat (length bytes) :: u64) = length bytes" using assms(2,3) by (simp add: unsigned_of_nat take_bit_nat_eq_self)
  have "unat addr + unat (of_nat (length bytes) :: u64) \<le> length (content e1)" using assms(2) by (simp add: n w(2))
  then obtain e2 where r: "emmc_read em addr (of_nat (length bytes)) e1 = (of_nat (length bytes), slice (unat addr) (length bytes) (content e1), e2)"
    "content e2 = content e1" using assms(1) n unfolding emmc_ok_def by metis
  have "slice (unat addr) (length bytes) (content e1) = bytes" unfolding w(2) by (rule slice_blit [OF assms(2)])
  moreover have "blit 0 bytes bytes = bytes" by (simp add: blit_def)
  ultimately show ?thesis using w r by (cases chk) (simp_all add: write_verify_def)
qed

lemma unat_ucast_u64 [simp]: "unat (ucast (n :: u32) :: u64) = unat n"
proof -
  have "unat n < 2 ^ 64" by (rule less_le_trans [OF unsigned_less]) simp
  then show ?thesis by (simp add: unsigned_ucast_eq take_bit_nat_eq_self)
qed

lemma unat_chunk_size: "unat (ucast (n :: u32) * ucast (b :: u32) :: u64) = unat n * unat b"
proof -
  have "unat n * unat b < 2 ^ 32 * 2 ^ 32" by (rule mult_strict_mono) (use unsigned_less [of n] unsigned_less [of b] in auto)
  then have "unat (ucast n :: u64) * unat (ucast b :: u64) < 2 ^ LENGTH(64)" by simp
  then show ?thesis using unat_mult_lem [of "ucast n :: u64" "ucast b"] by simp
qed

lemma unat_add_u64: "unat a + unat b < 2 ^ 64 \<Longrightarrow> unat (a + b) = unat a + unat (b :: u64)"
  using unat_add_lem [of a b] by simp

lemma header_step:
  assumes "sp_ok content (status, d, e)" and "wait_phase status = UNSPARSE_WAIT_SPARSE_HEADER" and "sparse_header_size \<le> length (us_buf status)"
    and "sparse_header_phase status d = (status', d')"
  shows "follows content (status, d, e) (status', d', e)" and "handle_status status' = S_DONE" and "us_buf status' = drop sparse_header_size (us_buf status)"
    and "wait_phase status' = UNSPARSE_WAIT_CHUNK_HEADER" and "unhandle_buf_size d' = 0"
proof -
  let ?buf = "us_buf status"
  have s': "status' = mmc_set_unsparse_status S_DONE UNSPARSE_WAIT_CHUNK_HEADER (drop 28 ?buf) status"
    "d' = zero_data\<lparr>sparse_hdr := sparse_header_of (take 28 ?buf), unhandle_buf_size := 0\<rparr>"
    using assms(3,4) by (auto simp: sparse_header_phase_def Let_def)
  have "stream_bytes (take 28 ?buf) (stream_of content (status, d, e)) = stream_of content (status', d', e)"
    using assms(2,3) by (subst stream_head(2) [of _ "[]"]) (auto simp: stream_of_def s' mmc_set_unsparse_status_def zero_data_def)
  then have "stream_bytes ?buf (stream_of content (status, d, e)) = stream_bytes (us_buf status') (stream_of content (status', d', e))"
    by (simp add: s'(1) mmc_set_unsparse_status_def) (metis append_take_drop_id comp_apply fold_append)
  moreover have "sp_ok content (status', d', e)" using assms(1,2) by (simp add: sp_ok_def s' mmc_set_unsparse_status_def zero_data_def)
  ultimately show "follows content (status, d, e) (status', d', e)" by (simp add: follows_def)
qed (use assms in \<open>auto simp: sparse_header_phase_def Let_def mmc_set_unsparse_status_def zero_data_def\<close>)

lemma stream_drop: "stream_bytes (drop n bs) (stream_bytes (take n bs) a) = stream_bytes bs a"
  by (metis append_take_drop_id comp_apply fold_append)

lemma failed_prefix: "phase (stream_bytes bs a) \<noteq> Failed \<Longrightarrow> phase (stream_bytes (take n bs) a) \<noteq> Failed"
  using stream_drop [of n bs a] stream_failed [of "stream_bytes (take n bs) a" "drop n bs"] by auto

lemma chunk_step:
  assumes ok: "sp_ok content (status, d, e)" and ph: "wait_phase status = UNSPARSE_WAIT_CHUNK_HEADER" and ne: "us_buf status \<noteq> []"
    and rdy: "unhandle_buf_size d = 0 \<or> chunk_header_size \<le> unhandle_buf_size d + length (us_buf status)"
    and nf: "phase (stream_bytes (us_buf status) (stream_of content (status, d, e))) \<noteq> Failed"
    and step: "chunk_header_phase status d = (status', d')"
  shows "follows content (status, d, e) (status', d', e)" and "handle_status status' = S_DONE"
    and "length (us_buf status') < length (us_buf status)" and "wait_phase status' \<noteq> UNSPARSE_WAIT_SPARSE_HEADER"
    and "us_buf status' = [] \<or> unhandle_buf_size d' = 0"
proof -
  let ?buf = "us_buf status" and ?p = "unhandle_buf_size d" and ?a = "stream_of content (status, d, e)"
  have p: "?p < 12" "length (unhandle_buf d) = 12" using ok ph by (simp_all add: sp_ok_def)
  have a: "phase ?a = Chunk (take ?p (unhandle_buf d))" "pos ?a = unat (image_base_addr status) + unat (image_address_offset d)"
    "disk ?a = content e" "bsize ?a = blk_sz (sparse_hdr d)" using ph by (simp_all add: stream_of_def)
  have "follows content (status, d, e) (status', d', e) \<and> handle_status status' = S_DONE \<and> length (us_buf status') < length ?buf \<and>
    wait_phase status' \<noteq> UNSPARSE_WAIT_SPARSE_HEADER \<and> (us_buf status' = [] \<or> unhandle_buf_size d' = 0)"
  proof (cases "12 \<le> ?p + length ?buf")
    case False
    then have p0: "?p = 0" using rdy by simp
    have s': "status' = mmc_set_unsparse_status S_DONE UNSPARSE_WAIT_CHUNK_HEADER [] status"
      "d' = d\<lparr>unhandle_buf_size := length ?buf, unhandle_buf := blit 0 ?buf (unhandle_buf d)\<rparr>"
      using step False by (auto simp: chunk_header_phase_def Let_def)
    have "stream_bytes ?buf ?a = ?a\<lparr>phase := Chunk ?buf\<rparr>" using stream_chunk(1) [of "[]" ?buf ?a] False p0 a(1) by simp
    also have "\<dots> = stream_of content (status', d', e)" using ph by (simp add: stream_of_def s' mmc_set_unsparse_status_def blit_def)
    finally show ?thesis
      using ok ph False ne p by (auto simp: follows_def s' mmc_set_unsparse_status_def sp_ok_def blit_def)
  next
    case True
    define used where "used = 12 - ?p"
    define h where "h = take ?p (unhandle_buf d) @ take used ?buf"
    define hdr where "hdr = chunk_header_of h"
    define n where "n = unat (chunk_sz hdr) * unat (blk_sz (sparse_hdr d))"
    define d1 where "d1 = d\<lparr>unhandle_buf_size := 0, chunk_hdr := hdr, chunk_remain_data_size := ucast (chunk_sz hdr) * ucast (blk_sz (sparse_hdr d))\<rparr>"
    have used: "0 < used" "used \<le> length ?buf" using p(1) True by (simp_all add: used_def)
    have res: "(status', d') = (if chunk_type hdr = CHUNK_TYPE_RAW then (mmc_set_unsparse_status S_DONE UNSPARSE_WAIT_CHUNK_DATA (drop used ?buf) status, d1)
        else if chunk_type hdr = CHUNK_TYPE_DONT_CARE
        then (mmc_set_unsparse_status S_DONE UNSPARSE_WAIT_CHUNK_HEADER (drop used ?buf) status,
              d1\<lparr>image_address_offset := image_address_offset d1 + chunk_remain_data_size d1, chunk_remain_data_size := 0\<rparr>)
        else (status\<lparr>handle_status := S_DA_SDMMC_WRITE_FAILED\<rparr>, d1))"
      using step True by (cases "?p = 0") (auto simp: chunk_header_phase_def Let_def used_def hdr_def h_def d1_def)
    have hl: "length h = 12" using used p by (simp add: h_def used_def)
    then have hb: "butlast h @ [last h] = h" by (intro append_butlast_last_id) auto
    have "stream_bytes (take used ?buf) ?a = chunk_done h ?a"
      unfolding h_def by (rule stream_chunk(2) [OF a(1)]) (use used p in \<open>auto simp: used_def\<close>)
    moreover have "phase (stream_bytes (take used ?buf) ?a) \<noteq> Failed" by (rule failed_prefix [OF nf])
    moreover have "chunk_done h ?a = (if length (content e) < pos ?a + n then ?a\<lparr>phase := Failed\<rparr>
       else if chunk_type hdr = CHUNK_TYPE_RAW then ?a\<lparr>phase := (if n = 0 then Chunk [] else Data n)\<rparr>
       else if chunk_type hdr = CHUNK_TYPE_DONT_CARE then ?a\<lparr>phase := Chunk [], pos := pos ?a + n\<rparr>
       else ?a\<lparr>phase := Failed\<rparr>)"
      using hl a(3,4) hb by (simp add: chunk_done_def stream_byte_def hdr_def n_def Let_def)
    ultimately have sb: "stream_bytes (take used ?buf) ?a =
        (if chunk_type hdr = CHUNK_TYPE_RAW then ?a\<lparr>phase := (if n = 0 then Chunk [] else Data n)\<rparr> else ?a\<lparr>phase := Chunk [], pos := pos ?a + n\<rparr>)"
      and fit: "pos ?a + n \<le> length (content e)" and ty: "chunk_type hdr = CHUNK_TYPE_RAW \<or> chunk_type hdr = CHUNK_TYPE_DONT_CARE"
      by (auto split: if_splits)
    have rem: "unat (chunk_remain_data_size d1) = n" by (simp add: d1_def n_def unat_chunk_size)
    then have rem0: "chunk_remain_data_size d1 = 0 \<longleftrightarrow> n = 0" by (simp add: unat_eq_0 flip: rem)
    have off: "unat (image_address_offset d1 + chunk_remain_data_size d1) = unat (image_address_offset d) + n"
      using unat_add_u64 [of "image_address_offset d1" "chunk_remain_data_size d1"] rem fit ok a(2) by (simp add: d1_def sp_ok_def)
    have "stream_of content (status', d', e) = stream_bytes (take used ?buf) ?a" "sp_ok content (status', d', e)"
      "us_buf status' = drop used ?buf" "handle_status status' = S_DONE" "wait_phase status' \<noteq> UNSPARSE_WAIT_SPARSE_HEADER" "unhandle_buf_size d' = 0"
      using res ty sb fit off rem rem0 ok ph a(2) p(2)
      by (auto simp: stream_of_def sp_ok_def mmc_set_unsparse_status_def split: if_splits) (simp_all add: d1_def)
    then show ?thesis using used stream_drop [of used ?buf ?a] by (simp add: follows_def)
  qed
  then show "follows content (status, d, e) (status', d', e)" "handle_status status' = S_DONE" "length (us_buf status') < length ?buf"
    "wait_phase status' \<noteq> UNSPARSE_WAIT_SPARSE_HEADER" "us_buf status' = [] \<or> unhandle_buf_size d' = 0" by auto
qed

lemma data_write:
  assumes em: "emmc_ok em content" and ok: "sp_ok content (status, d, e)" and ph: "wait_phase status = UNSPARSE_WAIT_CHUNK_DATA"
    and n: "n \<le> length (us_buf status)" "n \<le> unat (chunk_remain_data_size d)" and w: "unat (w :: u64) = n"
  shows "\<exists>e'. write_verify em chk (image_base_addr status + image_address_offset d) (take n (us_buf status)) e = (S_DONE, e') \<and>
      length (content e') = length (content e) \<and>
      (\<forall>ph'. ph' = UNSPARSE_WAIT_CHUNK_DATA \<or> ph' = UNSPARSE_WAIT_CHUNK_HEADER \<and> n = unat (chunk_remain_data_size d) \<longrightarrow>
        stream_of content (mmc_set_unsparse_status S_DONE ph' (drop n (us_buf status)) status,
          d\<lparr>image_address_offset := image_address_offset d + w, chunk_remain_data_size := chunk_remain_data_size d - w\<rparr>, e') =
        stream_bytes (take n (us_buf status)) (stream_of content (status, d, e)))"
    and "unat (image_address_offset d + w) = unat (image_address_offset d) + n"
    and "unat (chunk_remain_data_size d - w) = unat (chunk_remain_data_size d) - n"
proof -
  let ?bs = "take n (us_buf status)" and ?a = "stream_of content (status, d, e)"
  have lim: "unat (image_base_addr status) + unat (image_address_offset d) + unat (chunk_remain_data_size d) \<le> length (content e)" "length (content e) < 2 ^ 64"
    "unhandle_buf_size d = 0"
    using ok ph by (simp_all add: sp_ok_def)
  have addr: "unat (image_base_addr status + image_address_offset d) = unat (image_base_addr status) + unat (image_address_offset d)"
    by (rule unat_add_u64) (use lim in linarith)
  show off: "unat (image_address_offset d + w) = unat (image_address_offset d) + n"
    using unat_add_u64 [of "image_address_offset d" w] w lim n(2) by simp
  show rem: "unat (chunk_remain_data_size d - w) = unat (chunk_remain_data_size d) - n"
    using w n(2) by (simp add: unat_sub_if_size word_size word_le_nat_alt)
  have bl: "length ?bs = n" using n(1) by simp
  have fit: "unat (image_base_addr status + image_address_offset d) + length ?bs \<le> length (content e)" using addr lim(1) n(2) bl by simp
  obtain e' where e': "write_verify em chk (image_base_addr status + image_address_offset d) ?bs e = (S_DONE, e')"
    "content e' = blit (unat (image_base_addr status + image_address_offset d)) ?bs (content e)"
    using write_verify_ok [OF em fit lim(2)] by blast
  have a: "?a = \<lparr>phase = (if chunk_remain_data_size d = 0 then Chunk [] else Data (unat (chunk_remain_data_size d))), bsize = blk_sz (sparse_hdr d),
     pos = unat (image_base_addr status) + unat (image_address_offset d), disk = content e\<rparr>" using ph by (simp add: stream_of_def)
  have z: "chunk_remain_data_size d = 0 \<longleftrightarrow> unat (chunk_remain_data_size d) = 0" by (simp add: unat_eq_0)
  have z': "chunk_remain_data_size d - w = 0 \<longleftrightarrow> n = unat (chunk_remain_data_size d)"
    using rem n(2) unat_eq_0 [of "chunk_remain_data_size d - w"] by linarith
  have sb: "stream_bytes ?bs ?a = ?a\<lparr>phase := (if n = unat (chunk_remain_data_size d) then Chunk [] else Data (unat (chunk_remain_data_size d) - n)),
      pos := pos ?a + n, disk := content e'\<rparr>"
  proof (cases "chunk_remain_data_size d = 0")
    case True
    then show ?thesis using n(2) e'(2) bl by (simp add: a blit_def)
  next
    case False
    then have "0 < unat (chunk_remain_data_size d)" using z by simp
    then show ?thesis using stream_data [of ?a "unat (chunk_remain_data_size d)" ?bs] False bl n(2) lim(1) e'(2) addr by (simp add: a)
  qed
  have st: "stream_of content (mmc_set_unsparse_status S_DONE ph' (drop n (us_buf status)) status,
        d\<lparr>image_address_offset := image_address_offset d + w, chunk_remain_data_size := chunk_remain_data_size d - w\<rparr>, e') = stream_bytes ?bs ?a"
    if "ph' = UNSPARSE_WAIT_CHUNK_DATA \<or> ph' = UNSPARSE_WAIT_CHUNK_HEADER \<and> n = unat (chunk_remain_data_size d)" for ph'
    unfolding sb unfolding a using that lim(3) rem off z' by (auto simp: stream_of_def mmc_set_unsparse_status_def)
  have "length (content e') = length (content e)" using e'(2) fit by simp
  then show "\<exists>e'. write_verify em chk (image_base_addr status + image_address_offset d) ?bs e = (S_DONE, e') \<and>
      length (content e') = length (content e) \<and>
      (\<forall>ph'. ph' = UNSPARSE_WAIT_CHUNK_DATA \<or> ph' = UNSPARSE_WAIT_CHUNK_HEADER \<and> n = unat (chunk_remain_data_size d) \<longrightarrow>
        stream_of content (mmc_set_unsparse_status S_DONE ph' (drop n (us_buf status)) status,
          d\<lparr>image_address_offset := image_address_offset d + w, chunk_remain_data_size := chunk_remain_data_size d - w\<rparr>, e') =
        stream_bytes ?bs ?a)" using e'(1) st by blast
qed

lemma data_step:
  assumes em: "emmc_ok em content" and blk: "blk = 2 ^ k" "k < 32" and ok: "sp_ok content (status, d, e)" and ph: "wait_phase status = UNSPARSE_WAIT_CHUNK_DATA"
    and ne: "us_buf status \<noteq> []" and small: "length (us_buf status) < 2 ^ 32"
    and step: "chunk_data_phase em blk status d e = (status', d', e')"
  shows "follows content (status, d, e) (status', d', e') \<and> unhandle_buf_size d' = 0 \<and> wait_phase status' \<noteq> UNSPARSE_WAIT_SPARSE_HEADER \<and>
    length (us_buf status') \<le> length (us_buf status) \<and>
    (handle_status status' = S_DONE \<and>
       (wait_phase status' = UNSPARSE_WAIT_CHUNK_HEADER \<or> length (us_buf status') < length (us_buf status)) \<or>
     handle_status status' = S_DA_SDMMC_SPARSE_INCOMPLETE \<and> (\<exists>n. phase (stream_bytes (us_buf status) (stream_of content (status, d, e))) = Data n))"
proof -
  let ?buf = "us_buf status" and ?r = "chunk_remain_data_size d"
  have len64: "unat (of_nat (length ?buf) :: u64) = length ?buf" using small by (simp add: unsigned_of_nat take_bit_nat_eq_self)
  have lim: "unat (image_base_addr status) + unat (image_address_offset d) + unat ?r \<le> length (content e)" "unhandle_buf_size d = 0"
    "length (content e) < 2 ^ 64" "length (unhandle_buf d) = 12" using ok ph by (simp_all add: sp_ok_def)
  show ?thesis
  proof (cases "unat ?r \<le> length ?buf")
    case True
    obtain e1 where w: "write_verify em (checksum_enabled status) (image_base_addr status + image_address_offset d) (take (unat ?r) ?buf) e = (S_DONE, e1)"
      "length (content e1) = length (content e)"
      "stream_of content (mmc_set_unsparse_status S_DONE UNSPARSE_WAIT_CHUNK_HEADER (drop (unat ?r) ?buf) status,
        d\<lparr>image_address_offset := image_address_offset d + ?r, chunk_remain_data_size := ?r - ?r\<rparr>, e1) =
        stream_bytes (take (unat ?r) ?buf) (stream_of content (status, d, e))"
      using data_write(1) [OF em ok ph True order_refl refl, of "checksum_enabled status"] by blast
    note w = w data_write(2) [OF em ok ph True order_refl refl]
    have s': "status' = mmc_set_unsparse_status S_DONE UNSPARSE_WAIT_CHUNK_HEADER (drop (unat ?r) ?buf) status"
      "d' = d\<lparr>image_address_offset := image_address_offset d + ?r, chunk_remain_data_size := 0\<rparr>" "e' = e1"
      using step True w(1) len64 by (auto simp: chunk_data_phase_def Let_def word_le_nat_alt)
    have "sp_ok content (status', d', e')" using lim w(2,4) by (simp add: sp_ok_def s' mmc_set_unsparse_status_def)
    moreover have "stream_bytes (us_buf status') (stream_of content (status', d', e')) = stream_bytes ?buf (stream_of content (status, d, e))"
      using w(3) stream_drop [of "unat ?r" ?buf] by (simp add: s' mmc_set_unsparse_status_def)
    ultimately show ?thesis using lim(2) by (simp add: follows_def s' mmc_set_unsparse_status_def)
  next
    case False
    define size where "size = (of_nat (length ?buf) :: u32)"
    have us: "unat size = length ?buf" using small by (simp add: size_def unat_of_nat_u32)
    have m: "blk - 1 = mask k" by (simp add: blk mask_eq_exp_minus_1)
    have am: "unat (size AND (blk - 1)) = length ?buf mod 2 ^ k" unfolding m using unat_and_mask_u32 [OF blk(2)] us by simp
    have nm: "unat (size AND NOT (blk - 1)) = length ?buf - length ?buf mod 2 ^ k" unfolding m using unat_and_not_mask [OF blk(2)] us by simp
    have ub: "unat blk = 2 ^ k" using unat_2p_u32 [OF blk(2)] blk(1) by simp
    have am0: "size AND (blk - 1) = 0 \<longleftrightarrow> length ?buf mod 2 ^ k = 0" using am by (metis unat_eq_0)
    have lt: "size < blk \<longleftrightarrow> length ?buf < 2 ^ k" using us ub by (simp add: word_less_nat_alt)
    show ?thesis
    proof (cases "length ?buf mod 2 ^ k \<noteq> 0 \<and> length ?buf < 2 ^ k")
      case True
      have s': "status' = mmc_set_unsparse_status S_DA_SDMMC_SPARSE_INCOMPLETE UNSPARSE_WAIT_CHUNK_DATA ?buf status" "d' = d" "e' = e"
        using step False True len64 am0 lt by (auto simp: chunk_data_phase_def Let_def word_le_nat_alt size_def [symmetric])
      have r0: "?r \<noteq> 0" using False by auto
      have "stream_of content (status', d', e') = stream_of content (status, d, e)" "sp_ok content (status', d', e')"
        using ok ph by (simp_all add: s' stream_of_def sp_ok_def mmc_set_unsparse_status_def)
      moreover have "phase (stream_bytes ?buf (stream_of content (status, d, e))) = Data (unat ?r - length ?buf)"
        using stream_data [of "stream_of content (status, d, e)" "unat ?r" ?buf] False lim(1) ph r0 by (simp add: stream_of_def)
      ultimately show ?thesis using lim(2) by (simp add: follows_def s' mmc_set_unsparse_status_def)
    next
      case nz: False
      define size1 where "size1 = (if size AND (blk - 1) \<noteq> 0 then size AND NOT (blk - 1) else size)"
      let ?n = "unat size1"
      have n: "?n = length ?buf - length ?buf mod 2 ^ k" using am0 nm us by (simp add: size1_def)
      have pos: "0 < ?n" unfolding n using nz ne by (cases "length ?buf mod 2 ^ k = 0") (auto simp: not_less intro: less_le_trans [OF mod_less_divisor])
      have rest: "take (unat (size AND (blk - 1))) (drop ?n ?buf) = drop ?n ?buf" using am n by simp
      have nl: "?n \<le> length ?buf" and nr: "?n \<le> unat ?r" using n False by linarith+
      obtain e1 where w: "write_verify em (checksum_enabled status) (image_base_addr status + image_address_offset d) (take ?n ?buf) e = (S_DONE, e1)"
        "length (content e1) = length (content e)"
        "stream_of content (mmc_set_unsparse_status S_DONE UNSPARSE_WAIT_CHUNK_DATA (drop ?n ?buf) status,
          d\<lparr>image_address_offset := image_address_offset d + ucast size1, chunk_remain_data_size := ?r - ucast size1\<rparr>, e1) =
          stream_bytes (take ?n ?buf) (stream_of content (status, d, e))"
        using data_write(1) [OF em ok ph nl nr unat_ucast_u64, of "checksum_enabled status"] by blast
      note w = w data_write(2,3) [OF em ok ph nl nr unat_ucast_u64]
      have c: "(chunk_remain_data_size d \<le> of_nat (length ?buf)) = False" "(size AND (blk - 1) \<noteq> 0 \<and> size < blk) = False"
        using False nz len64 am0 lt by (simp_all add: word_le_nat_alt)
      have eq: "chunk_data_phase em blk status d e =
        (case write_verify em (checksum_enabled status) (image_base_addr status + image_address_offset d) (take ?n ?buf) e of (hs, e1) \<Rightarrow>
           if hs \<noteq> S_DONE then (status\<lparr>handle_status := hs\<rparr>, d, e1)
           else (mmc_set_unsparse_status S_DONE UNSPARSE_WAIT_CHUNK_DATA (take (unat (size AND (blk - 1))) (drop ?n ?buf)) status,
                 d\<lparr>image_address_offset := image_address_offset d + ucast size1,
                   chunk_remain_data_size := chunk_remain_data_size d - ucast size1\<rparr>, e1))"
        unfolding chunk_data_phase_def Let_def size_def [symmetric] c if_False size1_def ..
      have s': "status' = mmc_set_unsparse_status S_DONE UNSPARSE_WAIT_CHUNK_DATA (drop ?n ?buf) status"
        "d' = d\<lparr>image_address_offset := image_address_offset d + ucast size1, chunk_remain_data_size := ?r - ucast size1\<rparr>" "e' = e1"
        using step eq w(1) rest by auto
      have "sp_ok content (status', d', e')" using lim w(2,4,5) nr by (simp add: sp_ok_def s' mmc_set_unsparse_status_def)
      moreover have "stream_bytes (us_buf status') (stream_of content (status', d', e')) = stream_bytes ?buf (stream_of content (status, d, e))"
        using w(3) stream_drop [of ?n ?buf] by (simp add: s' mmc_set_unsparse_status_def)
      ultimately show ?thesis using lim(2) pos ne by (simp add: follows_def s' mmc_set_unsparse_status_def)
    qed
  qed
qed

subsection \<open>Packages\<close>

definition ready :: "'e sparse_state \<Rightarrow> bool" where
  "ready = (\<lambda>(status, d, e).
     case wait_phase status of
       UNSPARSE_WAIT_SPARSE_HEADER \<Rightarrow> sparse_header_size \<le> length (us_buf status)
     | UNSPARSE_WAIT_CHUNK_HEADER \<Rightarrow> unhandle_buf_size d = 0 \<or> chunk_header_size \<le> unhandle_buf_size d + length (us_buf status)
     | UNSPARSE_WAIT_CHUNK_DATA \<Rightarrow> True)"

definition todo :: "'e sparse_state \<Rightarrow> nat" where
  "todo s = 2 * length (us_buf (fst s)) + (if wait_phase (fst s) = UNSPARSE_WAIT_CHUNK_DATA then 1 else 0)"

lemma internal_step:
  assumes em: "emmc_ok em content" and blk: "blk = 2 ^ k" "k < 32" and ok: "sp_ok content s" and rdy: "ready s" and ne: "us_buf (fst s) \<noteq> []"
    and small: "length (us_buf (fst s)) < 2 ^ 32" and nf: "phase (stream_bytes (us_buf (fst s)) (stream_of content s)) \<noteq> Failed"
    and s': "s' = mmc_write_sparse_data_internal em blk s"
  shows "follows content s s' \<and> wait_phase (fst s') \<noteq> UNSPARSE_WAIT_SPARSE_HEADER \<and> length (us_buf (fst s')) \<le> length (us_buf (fst s)) \<and>
    (handle_status (fst s') = S_DONE \<and> (us_buf (fst s') = [] \<or> ready s' \<and> todo s' < todo s) \<or>
     handle_status (fst s') = S_DA_SDMMC_SPARSE_INCOMPLETE \<and> (\<exists>n. phase (stream_bytes (us_buf (fst s)) (stream_of content s)) = Data n))"
proof -
  obtain status d e where s: "s = (status, d, e)" by (cases s)
  show ?thesis
  proof (cases "wait_phase status")
    case UNSPARSE_WAIT_SPARSE_HEADER
    obtain status' d' where st: "sparse_header_phase status d = (status', d')" by (cases "sparse_header_phase status d")
    have "s' = (status', d', e)" using s' ne st by (simp add: s mmc_write_sparse_data_internal_def UNSPARSE_WAIT_SPARSE_HEADER)
    moreover have "28 \<le> length (us_buf status)" using rdy by (simp add: ready_def s UNSPARSE_WAIT_SPARSE_HEADER)
    ultimately show ?thesis
      using header_step [OF ok [unfolded s] UNSPARSE_WAIT_SPARSE_HEADER _ st] by (auto simp: s ready_def todo_def UNSPARSE_WAIT_SPARSE_HEADER)
  next
    case UNSPARSE_WAIT_CHUNK_HEADER
    obtain status' d' where st: "chunk_header_phase status d = (status', d')" by (cases "chunk_header_phase status d")
    have "s' = (status', d', e)" using s' ne st by (simp add: s mmc_write_sparse_data_internal_def UNSPARSE_WAIT_CHUNK_HEADER)
    moreover have "unhandle_buf_size d = 0 \<or> 12 \<le> unhandle_buf_size d + length (us_buf status)" using rdy by (simp add: ready_def s UNSPARSE_WAIT_CHUNK_HEADER)
    ultimately show ?thesis
      using chunk_step [OF ok [unfolded s] UNSPARSE_WAIT_CHUNK_HEADER _ _ _ st] ne nf
      by (auto simp: s ready_def todo_def UNSPARSE_WAIT_CHUNK_HEADER split: unsparse_phase.split)
  next
    case UNSPARSE_WAIT_CHUNK_DATA
    obtain status' d' e' where st: "chunk_data_phase em blk status d e = (status', d', e')" by (cases "chunk_data_phase em blk status d e")
    have "s' = (status', d', e')" using s' ne st by (simp add: s mmc_write_sparse_data_internal_def UNSPARSE_WAIT_CHUNK_DATA)
    then show ?thesis
      using data_step [OF em blk ok [unfolded s] UNSPARSE_WAIT_CHUNK_DATA _ _ st] ne small
      by (auto simp: s ready_def todo_def UNSPARSE_WAIT_CHUNK_DATA split: unsparse_phase.split)
  qed
qed

lemma sparse_data_ok:
  assumes em: "emmc_ok em content" and blk: "blk = 2 ^ k" "k < 32" and "sp_ok content s" and "ready s" and "us_buf (fst s) \<noteq> []"
    and "length (us_buf (fst s)) < 2 ^ 32" and "phase (stream_bytes (us_buf (fst s)) (stream_of content s)) \<noteq> Failed"
  shows "\<exists>s'. mmc_write_sparse_data em blk s = Some s' \<and> follows content s s' \<and> wait_phase (fst s') \<noteq> UNSPARSE_WAIT_SPARSE_HEADER \<and>
    length (us_buf (fst s')) \<le> length (us_buf (fst s)) \<and>
    (handle_status (fst s') = S_DONE \<and> us_buf (fst s') = [] \<or>
     handle_status (fst s') = S_DA_SDMMC_SPARSE_INCOMPLETE \<and> (\<exists>n. phase (stream_bytes (us_buf (fst s)) (stream_of content s)) = Data n))"
  using assms(4-)
proof (induction "todo s" arbitrary: s rule: less_induct)
  case less
  define s' where "s' = mmc_write_sparse_data_internal em blk s"
  note st = internal_step [OF em blk less.prems s'_def]
  show ?case
  proof (cases "handle_status (fst s') \<noteq> S_DONE \<or> us_buf (fst s') = []")
    case True
    then have "mmc_write_sparse_data em blk s = Some s'" by (subst mmc_write_sparse_data.simps) (simp add: s'_def [symmetric])
    then show ?thesis using st True by auto
  next
    case False
    then have eq: "mmc_write_sparse_data em blk s = mmc_write_sparse_data em blk s'" by (subst mmc_write_sparse_data.simps) (simp add: s'_def [symmetric])
    have f: "follows content s s'" "ready s'" "todo s' < todo s" "length (us_buf (fst s')) \<le> length (us_buf (fst s))" using st False by auto
    have sb: "stream_bytes (us_buf (fst s')) (stream_of content s') = stream_bytes (us_buf (fst s)) (stream_of content s)" "sp_ok content s'"
      using f(1) by (simp_all add: follows_def)
    obtain s'' where "mmc_write_sparse_data em blk s' = Some s''" "follows content s' s''" "wait_phase (fst s'') \<noteq> UNSPARSE_WAIT_SPARSE_HEADER"
      "length (us_buf (fst s'')) \<le> length (us_buf (fst s'))"
      "handle_status (fst s'') = S_DONE \<and> us_buf (fst s'') = [] \<or>
       handle_status (fst s'') = S_DA_SDMMC_SPARSE_INCOMPLETE \<and> (\<exists>n. phase (stream_bytes (us_buf (fst s)) (stream_of content s)) = Data n)"
      using less.hyps [OF f(3) sb(2) f(2)] False f(4) less.prems(4,5) unfolding sb(1) by auto
    then show ?thesis using eq sb(1) f(4) by (auto simp: follows_def)
  qed
qed

text \<open>Between packages: what was left over, and what the packages so far mean.\<close>

definition left_over :: "'e sparse_state \<Rightarrow> u8 list" where
  "left_over s = (if handle_status (fst s) = S_DA_SDMMC_SPARSE_INCOMPLETE then us_buf (fst s) else [])"

definition so_far :: "('e \<Rightarrow> u8 list) \<Rightarrow> 'e sparse_state \<Rightarrow> stream" where
  "so_far content s = stream_bytes (left_over s) (stream_of content s)"

lemma set_buf [simp]:
  "stream_of content (status\<lparr>us_buf := b\<rparr>, x) = stream_of content (status, x)" "sp_ok content (status\<lparr>us_buf := b\<rparr>, x) = sp_ok content (status, x)"
  by (simp_all add: stream_of_def sp_ok_def split: prod.split unsparse_phase.split)

lemma package_ok:
  assumes em: "emmc_ok em content" and blk: "blk = 2 ^ k" "k < 32" and ok: "sp_ok content s"
    and p: "if wait_phase (fst s) = UNSPARSE_WAIT_SPARSE_HEADER then sparse_header_size \<le> length p else chunk_header_size \<le> length p"
    and small: "length (left_over s) + length p < 2 ^ 32" and nf: "phase (stream_bytes p (so_far content s)) \<noteq> Failed"
  shows "\<exists>s'. mmc_write_sparse_data em blk ((fst s)\<lparr>us_buf := left_over s @ p\<rparr>, snd s) = Some s' \<and> sp_ok content s' \<and>
    so_far content s' = stream_bytes p (so_far content s) \<and> wait_phase (fst s') \<noteq> UNSPARSE_WAIT_SPARSE_HEADER \<and>
    length (left_over s') \<le> length (left_over s) + length p \<and>
    (handle_status (fst s') = S_DONE \<and> left_over s' = [] \<or> handle_status (fst s') = S_DA_SDMMC_SPARSE_INCOMPLETE \<and> (\<exists>n. phase (so_far content s') = Data n))"
proof -
  let ?s = "((fst s)\<lparr>us_buf := left_over s @ p\<rparr>, snd s)"
  have sb: "stream_bytes (us_buf (fst ?s)) (stream_of content ?s) = stream_bytes p (so_far content s)" by (simp add: so_far_def)
  have "ready ?s" using p by (cases s) (auto simp: ready_def split: unsparse_phase.splits if_splits)
  moreover have "sp_ok content ?s" "us_buf (fst ?s) \<noteq> []" "length (us_buf (fst ?s)) < 2 ^ 32" using ok p small by (auto split: if_splits)
  ultimately obtain s' where s': "mmc_write_sparse_data em blk ?s = Some s'" "follows content ?s s'" "wait_phase (fst s') \<noteq> UNSPARSE_WAIT_SPARSE_HEADER"
    "length (us_buf (fst s')) \<le> length (us_buf (fst ?s))"
    "handle_status (fst s') = S_DONE \<and> us_buf (fst s') = [] \<or>
     handle_status (fst s') = S_DA_SDMMC_SPARSE_INCOMPLETE \<and> (\<exists>n. phase (stream_bytes (us_buf (fst ?s)) (stream_of content ?s)) = Data n)"
    using sparse_data_ok [OF em blk, of ?s] nf unfolding sb by blast
  have "left_over s' = us_buf (fst s')" using s'(5) by (auto simp: left_over_def)
  then show ?thesis using s' sb by (auto simp: follows_def so_far_def left_over_def)
qed

lemma write_packages_Cons:
  "write_packages em blk (p # ps) s =
     (case mmc_write_sparse_data em blk ((fst s)\<lparr>us_buf := left_over s @ p\<rparr>, snd s) of
        None \<Rightarrow> None
      | Some s' \<Rightarrow> if handle_status (fst s') = S_DONE \<or> handle_status (fst s') = S_DA_SDMMC_SPARSE_INCOMPLETE
                    then write_packages em blk ps s' else Some s')"
  by (simp add: left_over_def Let_def)

lemma packages_ok:
  assumes em: "emmc_ok em content" and blk: "blk = 2 ^ k" "k < 32" and "sp_ok content s" and "wait_phase (fst s) \<noteq> UNSPARSE_WAIT_SPARSE_HEADER"
    and "\<forall>p\<in>set ps. chunk_header_size \<le> length p" and "length (left_over s) + length (concat ps) < 2 ^ 32"
    and "phase (stream_bytes (concat ps) (so_far content s)) \<noteq> Failed"
    and "handle_status (fst s) = S_DONE \<and> left_over s = [] \<or> handle_status (fst s) = S_DA_SDMMC_SPARSE_INCOMPLETE \<and> (\<exists>n. phase (so_far content s) = Data n)"
  shows "\<exists>s'. write_packages em blk ps s = Some s' \<and> so_far content s' = stream_bytes (concat ps) (so_far content s) \<and>
    (handle_status (fst s') = S_DONE \<and> left_over s' = [] \<or> handle_status (fst s') = S_DA_SDMMC_SPARSE_INCOMPLETE \<and> (\<exists>n. phase (so_far content s') = Data n))"
  using assms(4-)
proof (induction ps arbitrary: s)
  case (Cons p ps)
  have nf: "phase (stream_bytes p (so_far content s)) \<noteq> Failed" using failed_prefix [of "concat (p # ps)" "so_far content s" "length p"] Cons.prems(5) by simp
  obtain s1 where s1: "mmc_write_sparse_data em blk ((fst s)\<lparr>us_buf := left_over s @ p\<rparr>, snd s) = Some s1" "sp_ok content s1"
    "so_far content s1 = stream_bytes p (so_far content s)" "wait_phase (fst s1) \<noteq> UNSPARSE_WAIT_SPARSE_HEADER"
    "length (left_over s1) \<le> length (left_over s) + length p"
    "handle_status (fst s1) = S_DONE \<and> left_over s1 = [] \<or> handle_status (fst s1) = S_DA_SDMMC_SPARSE_INCOMPLETE \<and> (\<exists>n. phase (so_far content s1) = Data n)"
    using package_ok [OF em blk Cons.prems(1), of p] Cons.prems(2-4) nf by auto
  have "write_packages em blk (p # ps) s = write_packages em blk ps s1"
    unfolding write_packages_Cons s1(1) using s1(6) by auto
  then show ?case
    using Cons.IH [OF s1(2,4) _ _ _ s1(6)] Cons.prems(3-5) s1(3,5) by auto
qed simp

subsection \<open>Images\<close>

text \<open>An image is a header and chunks with their headers; \<open>unsparsed\<close> is the storage after its chunks are in place.\<close>

definition chunk_bytes :: "u32 \<Rightarrow> u8 list \<Rightarrow> nat" where
  "chunk_bytes bs h = unat (chunk_sz (chunk_header_of h)) * unat bs"

fun unsparsed :: "u32 \<Rightarrow> (u8 list \<times> u8 list) list \<Rightarrow> nat \<Rightarrow> u8 list \<Rightarrow> u8 list" where
  "unsparsed bs [] off bytes = bytes"
| "unsparsed bs ((h, data) # cs) off bytes =
     unsparsed bs cs (off + chunk_bytes bs h) (if chunk_type (chunk_header_of h) = CHUNK_TYPE_RAW then blit off data bytes else bytes)"

definition wf_chunk :: "u32 \<Rightarrow> u8 list \<times> u8 list \<Rightarrow> bool" where
  "wf_chunk bs = (\<lambda>(h, data). length h = chunk_header_size \<and>
     (chunk_type (chunk_header_of h) = CHUNK_TYPE_RAW \<and> length data = chunk_bytes bs h \<or>
      chunk_type (chunk_header_of h) = CHUNK_TYPE_DONT_CARE \<and> data = []))"

definition image_size :: "u32 \<Rightarrow> (u8 list \<times> u8 list) list \<Rightarrow> nat" where
  "image_size bs cs = sum_list (map (\<lambda>(h, data). chunk_bytes bs h) cs)"

definition encode :: "u8 list \<Rightarrow> (u8 list \<times> u8 list) list \<Rightarrow> u8 list" where
  "encode hdr cs = hdr @ concat (map (\<lambda>(h, data). h @ data) cs)"

lemma stream_whole_chunk:
  assumes "wf_chunk (bsize a) (h, data)" and "phase a = Chunk []" and "pos a + chunk_bytes (bsize a) h \<le> length (disk a)"
  shows "stream_bytes (h @ data) a = a\<lparr>pos := pos a + chunk_bytes (bsize a) h,
    disk := (if chunk_type (chunk_header_of h) = CHUNK_TYPE_RAW then blit (pos a) data (disk a) else disk a)\<rparr>"
proof -
  have hl: "length h = 12" using assms(1) by (simp add: wf_chunk_def)
  then have hb: "butlast h @ [last h] = h" by (intro append_butlast_last_id) auto
  let ?n = "chunk_bytes (bsize a) h"
  have "h \<noteq> []" using hl by auto
  then have "stream_bytes h a = chunk_done h a" using stream_chunk(2) [OF assms(2), of h] hl by simp
  then have hd: "stream_bytes h a = (if chunk_type (chunk_header_of h) = CHUNK_TYPE_RAW then a\<lparr>phase := (if ?n = 0 then Chunk [] else Data ?n)\<rparr>
      else if chunk_type (chunk_header_of h) = CHUNK_TYPE_DONT_CARE then a\<lparr>phase := Chunk [], pos := pos a + ?n\<rparr> else a\<lparr>phase := Failed\<rparr>)"
    using hl hb assms(3) by (simp add: chunk_done_def stream_byte_def chunk_bytes_def Let_def)
  show ?thesis
  proof (cases "chunk_type (chunk_header_of h) = CHUNK_TYPE_RAW")
    case True
    then have dl: "length data = ?n" using assms(1) by (auto simp: wf_chunk_def)
    show ?thesis
    proof (cases "?n = 0")
      case True
      then show ?thesis using hd dl assms(2) \<open>chunk_type (chunk_header_of h) = CHUNK_TYPE_RAW\<close> by (simp add: blit_def)
    next
      case False
      then show ?thesis
        using hd dl True stream_data [of "a\<lparr>phase := Data ?n\<rparr>" ?n data] assms(2,3) by simp
    qed
  next
    case False
    then show ?thesis using hd assms(1,2) by (simp add: wf_chunk_def)
  qed
qed

lemma stream_chunks:
  assumes "\<forall>c\<in>set cs. wf_chunk (bsize a) c" and "phase a = Chunk []" and "pos a + image_size (bsize a) cs \<le> length (disk a)"
  shows "stream_bytes (concat (map (\<lambda>(h, data). h @ data) cs)) a =
    a\<lparr>pos := pos a + image_size (bsize a) cs, disk := unsparsed (bsize a) cs (pos a) (disk a)\<rparr>"
  using assms
proof (induction cs arbitrary: a)
  case Nil
  then show ?case by (simp add: image_size_def)
next
  case (Cons c cs)
  obtain h data where c: "c = (h, data)" by (cases c)
  let ?n = "chunk_bytes (bsize a) h"
  define a1 where "a1 = a\<lparr>pos := pos a + ?n, disk := (if chunk_type (chunk_header_of h) = CHUNK_TYPE_RAW then blit (pos a) data (disk a) else disk a)\<rparr>"
  have wf: "wf_chunk (bsize a) (h, data)" using Cons.prems(1) c by simp
  have sz: "image_size (bsize a) (c # cs) = ?n + image_size (bsize a) cs" by (simp add: image_size_def c)
  have h: "stream_bytes (h @ data) a = a1" unfolding a1_def by (rule stream_whole_chunk [OF wf Cons.prems(2)]) (use Cons.prems(3) sz in simp)
  have "chunk_type (chunk_header_of h) = CHUNK_TYPE_RAW \<Longrightarrow> length data = ?n" using wf by (auto simp: wf_chunk_def)
  then have a1: "phase a1 = Chunk []" "bsize a1 = bsize a" "pos a1 = pos a + ?n" "length (disk a1) = length (disk a)"
    using Cons.prems(2,3) sz by (simp_all add: a1_def)
  have "stream_bytes (concat (map (\<lambda>(h, data). h @ data) (c # cs))) a = stream_bytes (concat (map (\<lambda>(h, data). h @ data) cs)) a1"
    using h c by simp
  also have "\<dots> = a1\<lparr>pos := pos a1 + image_size (bsize a1) cs, disk := unsparsed (bsize a1) cs (pos a1) (disk a1)\<rparr>"
    by (rule Cons.IH) (use Cons.prems a1 sz in auto)
  finally show ?case unfolding sz by (simp add: a1_def c)
qed


text \<open>The storage of the examples: a list of bytes that transfers what fits.\<close>

definition example_emmc :: "u8 list emmc" where
  "example_emmc = \<lparr>emmc_write = (\<lambda>addr bytes e. if unat addr + length bytes \<le> length e then (of_nat (length bytes), blit (unat addr) bytes e) else (0, e)),
     emmc_read = (\<lambda>addr n e. if unat addr + unat n \<le> length e then (n, slice (unat addr) (unat n) e, e) else (0, [], e))\<rparr>"

lemma example_emmc_ok: "emmc_ok example_emmc (\<lambda>e. e)"
  by (simp add: emmc_ok_def example_emmc_def)

text \<open>An image with blocks of four bytes: one raw block, one block that is left alone, one raw block; three packages cut a header and a block.\<close>

definition example_image :: "u8 list \<times> (u8 list \<times> u8 list) list" where
  "example_image =
     ([0x3a, 0xff, 0x26, 0xed, 1, 0, 0, 0, 28, 0, 12, 0, 4, 0, 0, 0, 3, 0, 0, 0, 3, 0, 0, 0, 0, 0, 0, 0],
      [([0xc1, 0xca, 0, 0, 1, 0, 0, 0, 16, 0, 0, 0], [1, 2, 3, 4]), ([0xc3, 0xca, 0, 0, 1, 0, 0, 0, 12, 0, 0, 0], []),
       ([0xc1, 0xca, 0, 0, 1, 0, 0, 0, 16, 0, 0, 0], [5, 6, 7, 8])])"

lemma example_image_wf:
  "blk_sz (sparse_header_of (fst example_image)) = 4" "\<forall>c\<in>set (snd example_image). wf_chunk 4 c" "image_size 4 (snd example_image) = 12"
  "length (encode (fst example_image) (snd example_image)) = 72"
  by (simp_all add: example_image_def sparse_header_of_def le32_def wf_chunk_def chunk_header_of_def le16_def chunk_bytes_def image_size_def encode_def)


lemma sparse_loop_ends:
  assumes "mmc_write_sparse_data em blk s = Some y"
  shows "mmc_write_sparse_data_internal em blk s \<noteq> s \<or> handle_status (fst s) \<noteq> S_DONE \<or> us_buf (fst s) = []"
proof -
  let ?P = "\<lambda>em blk s y. mmc_write_sparse_data_internal em blk s \<noteq> s \<or> handle_status (fst s) \<noteq> S_DONE \<or> us_buf (fst s) = []"
  show ?thesis
  proof (rule mmc_write_sparse_data.raw_induct [where P = ?P, OF _ assms])
    fix f em blk s y
    assume IH: "\<And>em blk s y. f em blk s = Some y \<Longrightarrow> ?P em blk s y"
      and st: "(let s' = mmc_write_sparse_data_internal em blk s in
        if handle_status (fst s') \<noteq> S_DONE \<or> us_buf (fst s') = [] then Some s' else f em blk s') = Some y"
    show "?P em blk s y"
    proof (rule ccontr)
      assume "\<not> ?P em blk s y"
      then have "f em blk s = Some y" "\<not> ?P em blk s y" using st by (auto simp: Let_def)
      then show False using IH by blast
    qed
  qed
qed

text \<open>
  (C35) A first package that is shorter than the file header makes \<open>mmc_write_sparse_data\<close> loop for ever: the
  phase that waits for the header does nothing and reports neither an error nor an incomplete package.
\<close>

theorem short_header_hangs:
  assumes "wait_phase status = UNSPARSE_WAIT_SPARSE_HEADER" and "handle_status status = S_DONE"
    and "us_buf status \<noteq> []" and "length (us_buf status) < sparse_header_size"
  shows "mmc_write_sparse_data em blk (status, d, e) = None"
proof -
  have "mmc_write_sparse_data_internal em blk (status, d, e) = (status, d, e)"
    using assms by (simp add: mmc_write_sparse_data_internal_def sparse_header_phase_def Let_def)
  then show ?thesis using sparse_loop_ends [of em blk "(status, d, e)"] assms(2,3) by (cases "mmc_write_sparse_data em blk (status, d, e)") auto
qed

theorem short_header_hangs_witness:
  "\<forall>d. write_packages example_emmc 512 [[0x3a, 0xff, 0x26, 0xed]]
      (mmc_init_unsparse_status 2 False \<lparr>handle_status = S_DONE, wait_phase = UNSPARSE_WAIT_CHUNK_DATA, image_base_addr = 0, us_buf = [], checksum_enabled = True\<rparr>,
       d, [9, 9, 9, 9, 9, 9, 9, 9, 9, 9, 9, 9, 9, 9, 9, 9]) = None"
proof
  fix d
  let ?s = "(mmc_init_unsparse_status 2 False \<lparr>handle_status = S_DONE, wait_phase = UNSPARSE_WAIT_CHUNK_DATA, image_base_addr = 0, us_buf = [], checksum_enabled = True\<rparr>)
    \<lparr>us_buf := [0x3a, 0xff, 0x26, 0xed]\<rparr>"
  have "mmc_write_sparse_data example_emmc 512 (?s, d, [9, 9, 9, 9, 9, 9, 9, 9, 9, 9, 9, 9, 9, 9, 9, 9]) = None"
    by (rule short_header_hangs) (simp_all add: mmc_init_unsparse_status_def mmc_set_unsparse_status_def)
  then show "write_packages example_emmc 512 [[0x3a, 0xff, 0x26, 0xed]]
      (mmc_init_unsparse_status 2 False \<lparr>handle_status = S_DONE, wait_phase = UNSPARSE_WAIT_CHUNK_DATA, image_base_addr = 0, us_buf = [], checksum_enabled = True\<rparr>,
       d, [9, 9, 9, 9, 9, 9, 9, 9, 9, 9, 9, 9, 9, 9, 9, 9]) = None"
    by (simp add: mmc_init_unsparse_status_def mmc_set_unsparse_status_def Let_def)
qed

end
