(* ===== verification/LK_Libc_Mem.thy ===== *)
theory LK_Libc_Mem
  imports LK_Prelude
begin

text \<open>
  The memory routines of the C library (\<^verbatim>\<open>lib/libc/string/mem*.c\<close>, \<^verbatim>\<open>bcopy.c\<close>, \<^verbatim>\<open>bzero.c\<close>). Memory is a
  function from addresses to bytes; a word access at an address that is not a multiple of the word
  size is \<open>None\<close>. The main results are that the routines which copy by words are the copy of bytes they
  stand for, and never make an unaligned access.
\<close>

unbundle bit_operations_syntax

type_synonym memory = "nat \<Rightarrow> u8"

abbreviation (input) lsize :: nat where "lsize \<equiv> 4"
abbreviation (input) lmask :: nat where "lmask \<equiv> 3"

text \<open>\<open>(long)p\<close>\<close>

definition slong :: "nat \<Rightarrow> int" where
  "slong p = (if p < 2 ^ 31 then int p else int p - 2 ^ 32)"

text \<open>\<open>*(word *)d = *(word *)s\<close>\<close>

definition copy_word :: "nat \<Rightarrow> nat \<Rightarrow> memory \<Rightarrow> memory option" where
  "copy_word d s m =
     (if d mod lsize = 0 \<and> s mod lsize = 0
      then Some (m(d := m s, d + 1 := m (s + 1), d + 2 := m (s + 2), d + 3 := m (s + 3)))
      else None)"

text \<open>The loops over bytes and over words, upwards from \<open>d\<close> and \<open>s\<close> and downwards.\<close>

fun bytes_up :: "nat \<Rightarrow> nat \<Rightarrow> nat \<Rightarrow> memory \<Rightarrow> memory" where
  "bytes_up 0 d s m = m"
| "bytes_up (Suc len) d s m = bytes_up len (d + 1) (s + 1) (m(d := m s))"

fun words_up :: "nat \<Rightarrow> nat \<Rightarrow> nat \<Rightarrow> memory \<Rightarrow> memory option" where
  "words_up 0 d s m = Some m"
| "words_up (Suc len) d s m = do { m' \<leftarrow> copy_word d s m; words_up len (d + lsize) (s + lsize) m' }"

fun bytes_down :: "nat \<Rightarrow> nat \<Rightarrow> nat \<Rightarrow> memory \<Rightarrow> memory" where
  "bytes_down 0 d s m = m"
| "bytes_down (Suc len) d s m = bytes_down len (d - 1) (s - 1) (m(d - 1 := m (s - 1)))"

fun words_down :: "nat \<Rightarrow> nat \<Rightarrow> nat \<Rightarrow> memory \<Rightarrow> memory option" where
  "words_down 0 d s m = Some m"
| "words_down (Suc len) d s m = do { m' \<leftarrow> copy_word (d - lsize) (s - lsize) m; words_down len (d - lsize) (s - lsize) m' }"

text \<open>The upward copy of \<open>memcpy\<close> and of \<open>memmove\<close>; \<open>len\<close> is an \<open>int\<close>, so that a count of 2 GiB or more is none.\<close>

definition int_count :: "nat \<Rightarrow> nat" where
  "int_count n = (if n < 2 ^ 31 then n else 0)"

text \<open>The bytes before a word boundary, or all of them when the addresses differ modulo the word size.\<close>

definition head_len :: "nat \<Rightarrow> nat \<Rightarrow> nat \<Rightarrow> nat" where
  "head_len d s count =
     (if (d OR s) AND lmask \<noteq> 0
      then (if (d XOR s) AND lmask \<noteq> 0 \<or> count < lsize then count else lsize - (d AND lmask))
      else 0)"

definition copy_up :: "nat \<Rightarrow> nat \<Rightarrow> nat \<Rightarrow> memory \<Rightarrow> memory option" where
  "copy_up d s count m =
     (let head = head_len d s count;
          m1 = bytes_up (int_count head) d s m;
          count1 = count - head;
          d1 = d + int_count head;
          s1 = s + int_count head
      in do {
        m2 \<leftarrow> words_up (count1 div lsize) d1 s1 m1;
        let n = lsize * (count1 div lsize);
        Some (bytes_up (count1 AND lmask) (d1 + n) (s1 + n) m2) })"

definition memcpy :: "nat \<Rightarrow> nat \<Rightarrow> nat \<Rightarrow> memory \<Rightarrow> memory option" where
  "memcpy dest src count m = (if count = 0 \<or> dest = src then Some m else copy_up dest src count m)"

definition tail_len :: "nat \<Rightarrow> nat \<Rightarrow> nat \<Rightarrow> nat" where
  "tail_len d s count =
     (if (d OR s) AND lmask \<noteq> 0
      then (if (d XOR s) AND lmask \<noteq> 0 \<or> count \<le> lsize then count else d AND lmask)
      else 0)"

definition copy_down :: "nat \<Rightarrow> nat \<Rightarrow> nat \<Rightarrow> memory \<Rightarrow> memory option" where
  "copy_down dest src count m =
     (let d = dest + count;
          s = src + count;
          tail = tail_len d s count;
          m1 = bytes_down (int_count tail) d s m;
          count1 = count - tail;
          d1 = d - int_count tail;
          s1 = s - int_count tail
      in do {
        m2 \<leftarrow> words_down (count1 div lsize) d1 s1 m1;
        let n = lsize * (count1 div lsize);
        Some (bytes_down (count1 AND lmask) (d1 - n) (s1 - n) m2) })"

definition memmove :: "nat \<Rightarrow> nat \<Rightarrow> nat \<Rightarrow> memory \<Rightarrow> memory option" where
  "memmove dest src count m =
     (if count = 0 \<or> dest = src then Some m
      else if slong dest < slong src then copy_up dest src count m
      else copy_down dest src count m)"

definition bcopy :: "nat \<Rightarrow> nat \<Rightarrow> nat \<Rightarrow> memory \<Rightarrow> memory option" where
  "bcopy src dest count m = memcpy dest src count m"

text \<open>\<open>memset\<close>: the byte is spread over a word by two shifts.\<close>

fun set_bytes :: "nat \<Rightarrow> nat \<Rightarrow> u8 \<Rightarrow> memory \<Rightarrow> memory" where
  "set_bytes 0 xs c m = m"
| "set_bytes (Suc len) xs c m = set_bytes len (xs + 1) c (m(xs := c))"

definition store_word :: "nat \<Rightarrow> u32 \<Rightarrow> memory \<Rightarrow> memory option" where
  "store_word d w m =
     (if d mod lsize = 0
      then Some (m(d := ucast w, d + 1 := ucast (drop_bit 8 w), d + 2 := ucast (drop_bit 16 w), d + 3 := ucast (drop_bit 24 w)))
      else None)"

fun set_words :: "nat \<Rightarrow> nat \<Rightarrow> u32 \<Rightarrow> memory \<Rightarrow> memory option" where
  "set_words 0 xs w m = Some m"
| "set_words (Suc len) xs w m = do { m' \<leftarrow> store_word xs w m; set_words len (xs + lsize) w m' }"

definition spread :: "u32 \<Rightarrow> u32" where
  "spread c = (let cc = c AND 255; cc = cc OR push_bit 8 cc in cc OR push_bit 16 cc)"

definition memset :: "nat \<Rightarrow> u32 \<Rightarrow> nat \<Rightarrow> memory \<Rightarrow> memory option" where
  "memset s c count m =
     (let len = unat (- (of_nat s :: u32) AND 3) in
      if count > len
      then do {
        let count1 = count - len;
        let m1 = set_bytes len s (ucast c) m;
        let xs = s + len;
        m2 \<leftarrow> set_words (count1 div lsize) xs (spread c) m1;
        Some (set_bytes (count1 AND lmask) (xs + lsize * (count1 div lsize)) (ucast c) m2) }
      else Some (set_bytes count s (ucast c) m))"

definition bzero :: "nat \<Rightarrow> nat \<Rightarrow> memory \<Rightarrow> memory option" where
  "bzero dst count m = memset dst 0 count m"

text \<open>\<open>memcmp\<close>: the difference is kept in a \<open>signed char\<close>. The searches yield the address.\<close>

fun memcmp :: "nat \<Rightarrow> nat \<Rightarrow> nat \<Rightarrow> memory \<Rightarrow> int" where
  "memcmp cs ct 0 m = 0"
| "memcmp cs ct (Suc count) m = (let res = m cs - m ct in if res \<noteq> 0 then sint res else memcmp (cs + 1) (ct + 1) count m)"

fun memchr_loop :: "nat \<Rightarrow> u8 \<Rightarrow> nat \<Rightarrow> memory \<Rightarrow> nat option" where
  "memchr_loop b x 0 m = None"
| "memchr_loop b x (Suc len) m = (if m b = x then Some b else memchr_loop (b + 1) x len m)"

definition memchr :: "nat \<Rightarrow> u32 \<Rightarrow> nat \<Rightarrow> memory \<Rightarrow> nat option" where
  "memchr buf c len m = memchr_loop buf (ucast (c AND 255)) len m"

fun memscan :: "nat \<Rightarrow> int \<Rightarrow> nat \<Rightarrow> memory \<Rightarrow> nat" where
  "memscan p c 0 m = p"
| "memscan p c (Suc sz) m = (if uint (m p) = c then p else memscan (p + 1) c sz m)"

subsection \<open>Copies\<close>

text \<open>What a copy of \<open>n\<close> bytes makes of the memory.\<close>

definition copied :: "nat \<Rightarrow> nat \<Rightarrow> nat \<Rightarrow> memory \<Rightarrow> memory" where
  "copied d s n m = (\<lambda>a. if d \<le> a \<and> a < d + n then m (s + (a - d)) else m a)"

lemma copied_0 [simp]: "copied d s 0 m = m"
  by (rule ext) (auto simp: copied_def)

lemma copied_same [simp]: "copied d d n m = m"
  by (rule ext) (simp add: copied_def)

text \<open>
  Going upwards it is enough that the destination does not begin inside of the source, going downwards
  that it does not end there.
\<close>

lemma copied_up:
  assumes "d \<le> s \<or> s + n + k \<le> d"
  shows "copied (d + n) (s + n) k (copied d s n m) = copied d s (n + k) m"
  by (rule ext) (use assms in \<open>auto simp: copied_def\<close>)

lemma copied_down:
  assumes "s \<le> d \<or> d + n + k \<le> s"
  shows "copied d s k (copied (d + k) (s + k) n m) = copied d s (n + k) m"
  by (rule ext) (use assms in \<open>auto simp: copied_def\<close>)

lemma bytes_up_copied: "d \<le> s \<or> s + len \<le> d \<Longrightarrow> bytes_up len d s m = copied d s len m"
proof (induction len arbitrary: d s m)
  case (Suc len)
  have "m(d := m s) = copied d s 1 m" by (auto simp: copied_def)
  then show ?case using Suc.IH [of "d + 1" "s + 1"] Suc.prems copied_up [of d s 1 len m] by auto
qed simp

lemma copy_word_copied:
  assumes "d mod 4 = 0" and "s mod 4 = 0"
  shows "copy_word d s m = Some (copied d s 4 m)"
proof -
  have "m(d := m s, d + 1 := m (s + 1), d + 2 := m (s + 2), d + 3 := m (s + 3)) = copied d s 4 m"
  proof
    fix a
    consider "a < d" | "a = d" | "a = d + 1" | "a = d + 2" | "a = d + 3" | "a \<ge> d + 4" by linarith
    then show "(m(d := m s, d + 1 := m (s + 1), d + 2 := m (s + 2), d + 3 := m (s + 3))) a = copied d s 4 m a"
      by cases (auto simp: copied_def)
  qed
  then show ?thesis using assms by (simp add: copy_word_def)
qed

lemma words_up_copied:
  "d mod 4 = 0 \<Longrightarrow> s mod 4 = 0 \<Longrightarrow> d \<le> s \<or> s + 4 * len \<le> d \<Longrightarrow> words_up len d s m = Some (copied d s (4 * len) m)"
proof (induction len arbitrary: d s m)
  case (Suc len)
  have "(d + 4) mod 4 = 0" "(s + 4) mod 4 = 0" using Suc.prems by simp_all
  then have "words_up len (d + 4) (s + 4) (copied d s 4 m) = Some (copied (d + 4) (s + 4) (4 * len) (copied d s 4 m))"
    using Suc.IH Suc.prems(3) by auto
  then show ?case using copy_word_copied [OF Suc.prems(1,2)] copied_up [of d s 4 "4 * len" m] Suc.prems(3)
    by (simp add: add.assoc)
qed simp

lemma bytes_down_copied: "s \<le> d \<or> d + len \<le> s \<Longrightarrow> bytes_down len (d + len) (s + len) m = copied d s len m"
proof (induction len arbitrary: m)
  case (Suc len)
  have "m(d + len := m (s + len)) = copied (d + len) (s + len) 1 m" by (auto simp: copied_def)
  then show ?case using Suc.IH [of "m(d + len := m (s + len))"] Suc.prems copied_down [of s d 1 len m] by auto
qed simp

lemma words_down_copied:
  "d mod 4 = 0 \<Longrightarrow> s mod 4 = 0 \<Longrightarrow> s \<le> d \<or> d + 4 * len \<le> s \<Longrightarrow>
   words_down len (d + 4 * len) (s + 4 * len) m = Some (copied d s (4 * len) m)"
proof (induction len arbitrary: m)
  case (Suc len)
  have "copy_word (d + 4 * len) (s + 4 * len) m = Some (copied (d + 4 * len) (s + 4 * len) 4 m)"
    by (rule copy_word_copied) (use Suc.prems in presburger)+
  then show ?case
    using Suc.IH [OF Suc.prems(1,2), of "copied (d + 4 * len) (s + 4 * len) 4 m"] Suc.prems(3) copied_down [of s d 4 "4 * len" m]
    by (auto simp: algebra_simps)
qed simp

lemma and_lmask: "n AND 3 = n mod (4 :: nat)"
  using take_bit_eq_mask [of 2 n] by (simp add: take_bit_eq_mod mask_eq_exp_minus_1)

lemma or_aligned: "(d OR s) AND 3 = 0 \<longleftrightarrow> d mod 4 = 0 \<and> s mod (4 :: nat) = 0"
proof -
  have "(d OR s) AND 3 = 0 \<longleftrightarrow> d AND 3 = 0 \<and> s AND 3 = 0" unfolding bit_eq_iff bit_and_iff bit_or_iff by auto
  then show ?thesis unfolding and_lmask .
qed

lemma xor_aligned: "(d XOR s) AND 3 = 0 \<longleftrightarrow> d mod 4 = s mod (4 :: nat)"
proof -
  have "(d XOR s) AND 3 = 0 \<longleftrightarrow> d AND 3 = s AND 3" unfolding bit_eq_iff bit_and_iff bit_xor_iff by auto
  then show ?thesis unfolding and_lmask .
qed

lemma copy_up_copied:
  assumes "d \<le> s \<or> s + count \<le> d" and "count < 2 ^ 31"
  shows "copy_up d s count m = Some (copied d s count m)"
proof -
  define head where "head = head_len d s count"
  define k where "k = (count - head) div 4"
  have le: "head \<le> count" and ic: "int_count head = head"
    using assms(2) by (auto simp: head_def head_len_def int_count_def and_lmask)
  have al: "k = 0 \<or> (d + head) mod 4 = 0 \<and> (s + head) mod 4 = 0"
  proof (cases "(d XOR s) AND 3 \<noteq> 0 \<or> count < 4")
    case True
    then show ?thesis by (auto simp: head_def head_len_def k_def or_aligned)
  next
    case False
    then have "d mod 4 = s mod 4" by (simp add: xor_aligned)
    moreover have "head = (if d mod 4 = 0 \<and> s mod 4 = 0 then 0 else 4 - d mod 4)"
      using False by (simp add: head_def head_len_def or_aligned [symmetric] and_lmask)
    ultimately show ?thesis by presburger
  qed
  have n: "head + 4 * k + (count - head) mod 4 = count" using le by (simp add: k_def)
  have "bytes_up head d s m = copied d s head m" by (rule bytes_up_copied) (use assms le in linarith)
  moreover have "words_up k (d + head) (s + head) (copied d s head m) = Some (copied d s (head + 4 * k) m)"
  proof (cases "k = 0")
    case False
    have "words_up k (d + head) (s + head) (copied d s head m) = Some (copied (d + head) (s + head) (4 * k) (copied d s head m))"
      by (rule words_up_copied) (use al False assms n in linarith)+
    then show ?thesis using copied_up [of d s head "4 * k" m] assms(1) n by auto
  qed simp
  moreover have "bytes_up ((count - head) mod 4) (d + (head + 4 * k)) (s + (head + 4 * k)) (copied d s (head + 4 * k) m) =
      copied d s count m"
    using bytes_up_copied [of "d + (head + 4 * k)" "s + (head + 4 * k)" "(count - head) mod 4"]
      copied_up [of d s "head + 4 * k" "(count - head) mod 4" m] assms(1) n by auto
  ultimately show ?thesis
    unfolding copy_up_def head_def [symmetric] Let_def ic k_def [symmetric] and_lmask by (simp add: add.assoc)
qed

lemma copy_down_copied:
  assumes "s \<le> d \<or> d + count \<le> s" and "count < 2 ^ 31"
  shows "copy_down d s count m = Some (copied d s count m)"
proof -
  let ?d = "d + count" and ?s = "s + count"
  define tail where "tail = tail_len ?d ?s count"
  define k where "k = (count - tail) div 4"
  define r where "r = (count - tail) mod 4"
  have le: "tail \<le> count" and ic: "int_count tail = tail"
    using assms(2) by (auto simp: tail_def tail_len_def int_count_def and_lmask intro: order_trans [of _ 4])
  have al: "k = 0 \<or> (?d - tail) mod 4 = 0 \<and> (?s - tail) mod 4 = 0"
  proof (cases "(?d XOR ?s) AND 3 \<noteq> 0 \<or> count \<le> 4")
    case True
    then show ?thesis by (auto simp: tail_def tail_len_def k_def or_aligned)
  next
    case False
    then have "?d mod 4 = ?s mod 4" by (simp add: xor_aligned)
    moreover have "tail = (if ?d mod 4 = 0 \<and> ?s mod 4 = 0 then 0 else ?d mod 4)"
      using False by (simp add: tail_def tail_len_def or_aligned [symmetric] and_lmask)
    ultimately have "tail = ?d mod 4" "tail = ?s mod 4" by auto
    then show ?thesis by (metis minus_mod_eq_mult_div mod_mult_self1_is_0)
  qed
  have n: "r + 4 * k + tail = count" using le by (simp add: k_def r_def)
  have eqd: "?d - tail = (d + r) + 4 * k" "?s - tail = (s + r) + 4 * k" using n by simp_all
  have b: "bytes_down tail ?d ?s m = copied (d + r + 4 * k) (s + r + 4 * k) tail m"
  proof -
    have "?d = d + r + 4 * k + tail" "?s = s + r + 4 * k + tail" using n by linarith+
    then show ?thesis using bytes_down_copied [of "s + r + 4 * k" "d + r + 4 * k" tail m] assms(1) n by (auto simp: add.assoc)
  qed
  moreover have w: "words_down k (?d - tail) (?s - tail) (copied (d + r + 4 * k) (s + r + 4 * k) tail m) =
      Some (copied (d + r) (s + r) (tail + 4 * k) m)"
  proof (cases "k = 0")
    case False
    have "words_down k (d + r + 4 * k) (s + r + 4 * k) (copied (d + r + 4 * k) (s + r + 4 * k) tail m) =
        Some (copied (d + r) (s + r) (4 * k) (copied (d + r + 4 * k) (s + r + 4 * k) tail m))"
    proof (rule words_down_copied)
      have "(d + r + 4 * k) mod 4 = 0 \<and> (s + r + 4 * k) mod 4 = 0" using al False unfolding eqd by blast
      then show "(d + r) mod 4 = 0" "(s + r) mod 4 = 0" by simp_all
    qed (use assms(1) n in linarith)
    then show ?thesis unfolding eqd using copied_down [of "s + r" "d + r" tail "4 * k" m] assms(1) n by auto
  qed simp
  moreover have "bytes_down r (d + r) (s + r) (copied (d + r) (s + r) (tail + 4 * k) m) = copied d s count m"
  proof -
    have "tail + 4 * k + r = count" "s \<le> d \<or> d + r \<le> s" "s \<le> d \<or> d + (tail + 4 * k) + r \<le> s" using n assms(1) by linarith+
    then show ?thesis using bytes_down_copied [of s d r] copied_down [of s d "tail + 4 * k" r m] by simp
  qed
  ultimately show ?thesis
    unfolding copy_down_def Let_def tail_def [symmetric] ic and_lmask k_def [symmetric] r_def [symmetric] by (simp add: eqd)
qed

subsection \<open>Setting memory\<close>

definition filled :: "nat \<Rightarrow> nat \<Rightarrow> u8 \<Rightarrow> memory \<Rightarrow> memory" where
  "filled d n c m = (\<lambda>a. if d \<le> a \<and> a < d + n then c else m a)"

lemma filled_filled: "filled (d + n) k c (filled d n c m) = filled d (n + k) c m"
  by (rule ext) (auto simp: filled_def)

lemma filled_0 [simp]: "filled d 0 c m = m"
  by (rule ext) (auto simp: filled_def)

lemma set_bytes_filled: "set_bytes len xs c m = filled xs len c m"
proof (induction len arbitrary: xs m)
  case (Suc len)
  have "m(xs := c) = filled xs 1 c m" by (auto simp: filled_def)
  then show ?case using Suc.IH [of "xs + 1"] filled_filled [of xs 1 len c m] by simp
qed simp

text \<open>Every byte of the spread word is the byte.\<close>

lemma bit_spread:
  fixes c :: u32
  assumes n: "n < 8" and k: "k < 4"
  shows "bit (spread c) (n + 8 * k) \<longleftrightarrow> bit c n"
proof -
  have "c AND 255 = take_bit 8 c" by (simp add: take_bit_eq_mask mask_eq_exp_minus_1)
  then have sp: "spread c = (take_bit 8 c OR push_bit 8 (take_bit 8 c)) OR push_bit 16 (take_bit 8 c OR push_bit 8 (take_bit 8 c))"
    by (simp only: spread_def Let_def)
  consider "k = 0" | "k = 1" | "k = 2" | "k = 3" using k by linarith
  then show ?thesis
    unfolding sp bit_or_iff bit_push_bit_iff bit_take_bit_iff
    by cases (use n in \<open>auto simp: not_less\<close>)
qed

lemma byte_of_spread:
  assumes "k < 4"
  shows "ucast (drop_bit (8 * k) (spread c)) = (ucast c :: u8)"
proof (rule bit_word_eqI)
  fix n assume "n < LENGTH(8)"
  then have n: "n < 8" by simp
  show "bit (ucast (drop_bit (8 * k) (spread c)) :: u8) n = bit (ucast c :: u8) n"
    using bit_spread [OF n assms, of c] assms n by (simp add: bit_simps add.commute)
qed

lemma store_word_filled: "d mod 4 = 0 \<Longrightarrow> store_word d (spread c) m = Some (filled d 4 (ucast c) m)"
proof -
  assume d: "d mod 4 = 0"
  note b = byte_of_spread [of 0 c] byte_of_spread [of 1 c] byte_of_spread [of 2 c] byte_of_spread [of 3 c]
  have "m(d := ucast c, d + 1 := ucast c, d + 2 := ucast c, d + 3 := ucast c) = filled d 4 (ucast c) m"
  proof
    fix a
    consider "a < d" | "a = d" | "a = d + 1" | "a = d + 2" | "a = d + 3" | "a \<ge> d + 4" by linarith
    then show "(m(d := ucast c, d + 1 := ucast c, d + 2 := ucast c, d + 3 := ucast c)) a = filled d 4 (ucast c) m a"
      by cases (auto simp: filled_def)
  qed
  then show ?thesis using d b by (simp add: store_word_def)
qed

lemma set_words_filled: "d mod 4 = 0 \<Longrightarrow> set_words len d (spread c) m = Some (filled d (4 * len) (ucast c) m)"
proof (induction len arbitrary: d m)
  case (Suc len)
  have "(d + 4) mod 4 = 0" using Suc.prems by simp
  then show ?case using Suc.IH store_word_filled [OF Suc.prems] filled_filled [of d 4 "4 * len" "ucast c" m] by simp
qed simp

lemma memset_head:
  assumes "s < 2 ^ 32"
  shows "(s + unat (- (of_nat s :: u32) AND 3)) mod 4 = 0"
proof -
  have "x AND 3 = x mod 4" for x :: u32
    using take_bit_eq_mask [of 2 x] by (simp add: take_bit_eq_mod mask_eq_exp_minus_1)
  then have "unat (- (of_nat s :: u32) AND 3) = unat (- (of_nat s :: u32)) mod 4" by (simp add: unat_mod)
  also have "unat (- (of_nat s :: u32)) = (2 ^ 32 - s) mod 2 ^ 32"
  proof (cases "s = 0")
    case False
    have "- (of_nat s :: u32) = of_nat (2 ^ 32 - s)" using assms by (simp add: of_nat_diff)
    then show ?thesis by (simp add: unat_of_nat)
  qed simp
  also have "(2 ^ 32 - s) mod 2 ^ 32 mod 4 = (2 ^ 32 - s) mod 4" by (rule mod_mod_cancel) simp
  finally have "(s + unat (- (of_nat s :: u32) AND 3)) mod 4 = (s + (2 ^ 32 - s)) mod 4" by (metis mod_add_right_eq)
  also have "\<dots> = 0" using assms by simp
  finally show ?thesis .
qed

subsection \<open>Properties\<close>

text \<open>
  (C20) \<open>memmove\<close> copies \<open>count\<close> bytes from where they were before the call, however the two ranges
  overlap and whatever their alignment, changes nothing else and makes no unaligned access; the
  ranges lie on one side of the address 2 GiB (pointers are compared as \<open>long\<close>) and the count is below
  2 GiB (it is an \<open>int\<close> in the loops).
\<close>

theorem memmove_copies:
  assumes "count < 2 ^ 31" and "(d < 2 ^ 31 \<and> s < 2 ^ 31) \<or> (2 ^ 31 \<le> d \<and> 2 ^ 31 \<le> s)"
  shows "memmove d s count m = Some (\<lambda>a. if d \<le> a \<and> a < d + count then m (s + (a - d)) else m a)"
proof -
  have "slong d < slong s \<longleftrightarrow> d < s" using assms(2) by (auto simp: slong_def)
  then have "memmove d s count m = Some (copied d s count m)"
    using copy_up_copied [of d s count m] copy_down_copied [of s d count m] assms(1)
    by (cases "count = 0"; cases "d = s") (auto simp: memmove_def copied_same)
  then show ?thesis by (simp add: copied_def)
qed

theorem memmove_copies_witness: "memmove 1001 1003 30 (\<lambda>a. of_nat a) = Some (\<lambda>a. if 1001 \<le> a \<and> a < 1001 + 30 then of_nat (1003 + (a - 1001)) else of_nat a)"
  by (rule memmove_copies) simp_all

text \<open>
  \<open>memset\<close> sets the range to the low byte of its argument, changes nothing else and makes no
  unaligned access, for every address and every count.
\<close>

theorem memset_fills:
  assumes "s < 2 ^ 32"
  shows "memset s c count m = Some (\<lambda>a. if s \<le> a \<and> a < s + count then ucast c else m a)"
proof -
  define len where "len = unat (- (of_nat s :: u32) AND 3)"
  note al = memset_head [OF assms, folded len_def]
  have n: "len + 4 * ((count - len) div 4) + (count - len) mod 4 = count" if "len < count" using that by simp
  have "memset s c count m = Some (filled s count (ucast c) m)"
  proof (cases "len < count")
    case True
    have "filled (s + len + 4 * ((count - len) div 4)) ((count - len) mod 4) (ucast c)
        (filled (s + len) (4 * ((count - len) div 4)) (ucast c) (filled s len (ucast c) m)) = filled s count (ucast c) m"
      using filled_filled [of s len "4 * ((count - len) div 4)" "ucast c" m]
        filled_filled [of s "len + 4 * ((count - len) div 4)" "(count - len) mod 4" "ucast c" m] n [OF True]
      by (simp add: add.assoc)
    then show ?thesis
      using True set_words_filled [OF al] unfolding memset_def len_def [symmetric] Let_def and_lmask
      by (simp add: set_bytes_filled)
  qed (simp add: memset_def len_def [symmetric] Let_def set_bytes_filled)
  then show ?thesis by (simp add: filled_def)
qed

theorem memset_fills_witness: "memset 1001 300 9 (\<lambda>a. 7) = Some (\<lambda>a. if 1001 \<le> a \<and> a < 1001 + 9 then ucast (300 :: u32) else 7)"
  by (rule memset_fills) simp

lemma sint_diff_u8:
  fixes x y :: u8
  shows "sint (x - y) = 0 \<longleftrightarrow> x = y" and "128 < uint y - uint x \<Longrightarrow> 0 < sint (x - y)"
proof -
  show "sint (x - y) = 0 \<longleftrightarrow> x = y" by (simp add: signed_eq_0_iff)
  assume gt: "128 < uint y - uint x"
  have y: "uint y < 256" using uint_lt2p [of y] by simp
  have u: "uint (x - y) = uint x - uint y + 256" using gt by (simp add: uint_sub_if')
  have "uint (x - y) < 128" "0 < uint (x - y)" using gt u y uint_ge_0 [of x] by linarith+
  then show "0 < sint (x - y)" unfolding sint_uint by (subst signed_take_bit_int_eq_self) simp_all
qed

lemma memcmp_zero: "memcmp cs ct count m = 0 \<longleftrightarrow> (\<forall>i < count. m (cs + i) = m (ct + i))"
proof (induction cs ct count m rule: memcmp.induct)
  case (2 cs ct count m)
  show ?case
  proof (cases "m cs = m ct")
    case True
    then have "memcmp cs ct (Suc count) m = memcmp (cs + 1) (ct + 1) count m" by simp
    moreover have "(\<forall>i < Suc count. m (cs + i) = m (ct + i)) \<longleftrightarrow> (\<forall>i < count. m (cs + 1 + i) = m (ct + 1 + i))"
      using True by (auto simp: less_Suc_eq_0_disj)
    ultimately show ?thesis using 2 True by simp
  next
    case False
    then show ?thesis using sint_diff_u8(1) by (auto simp: Let_def intro!: exI [of _ 0])
  qed
qed simp

text \<open>
  \<open>memcmp\<close> returns zero exactly for equal ranges. Since it keeps the difference in a
  \<open>signed char\<close>, a first byte that is smaller by more than 128 gives a positive result.
\<close>

theorem memcmp_result:
  "(memcmp cs ct count m = 0 \<longleftrightarrow> (\<forall>i < count. m (cs + i) = m (ct + i))) \<and>
   (0 < count \<and> 128 < uint (m ct) - uint (m cs) \<longrightarrow> 0 < memcmp cs ct count m)"
proof (rule conjI [OF memcmp_zero], rule impI)
  assume *: "0 < count \<and> 128 < uint (m ct) - uint (m cs)"
  then have "m cs \<noteq> m ct" by auto
  then show "0 < memcmp cs ct count m" using * sint_diff_u8(2) by (cases count) (simp_all add: Let_def)
qed

theorem memcmp_result_witness:
  "memcmp 0 4 2 (\<lambda>_. 7) = 0 \<and> 0 < memcmp 0 4 2 ((\<lambda>_. 7)(0 := 0, 4 := 255))"
  using memcmp_result [of 0 4 2 "\<lambda>_. 7"] memcmp_result [of 0 4 2 "(\<lambda>_. 7)(0 := 0, 4 := 255)"] by simp

end
