(* ===== verification/LK_Fastboot.thy ===== *)
theory LK_Fastboot
  imports LK_Printf LK_Libc_Str
begin

text \<open>
  The fastboot protocol (\<^verbatim>\<open>app/mt_boot/fastboot.c\<close>): transfers over USB, the state of the protocol, the
  tables of commands and of variables, and the loop that reads commands and dispatches them. The USB
  controller (\<open>udc_request_queue\<close> and the completion it reports to \<open>req_complete\<close>) and the platform's
  \<open>sec_usbdl_enabled\<close> are parameters. A handler is selected by a name (a function pointer in the code);
  \<open>run\<close> interprets the names. The structures allocated with \<open>malloc\<close> form lists; whether \<open>malloc\<close>
  succeeds is an argument.
\<close>

subsection \<open>State\<close>

datatype fastboot_status = STATE_OFFLINE | STATE_COMMAND | STATE_COMPLETE | STATE_ERROR

text \<open>The fate of a request: it was not queued, it completed with a negative status, or it completed.\<close>

datatype 'b transfer = Queue_failed | Txn_failed | Txn 'b

record 'u udc =
  udc_out :: "nat \<Rightarrow> 'u \<Rightarrow> u8 list transfer \<times> 'u"
  udc_in :: "u8 list \<Rightarrow> 'u \<Rightarrow> nat transfer \<times> 'u"

record 'h fastboot_cmd =
  prefix :: string
  sec_support :: bool
  handle :: 'h

text \<open>The calls of platform code that end a session, in order.\<close>

datatype platform_call = Udc_stop | Mtk_wdt_init | Boot_linux_from_storage | Mtk_arch_reset | Set_RTC_fastboot_bit

record fastboot_var =
  var_name :: string
  var_value :: string

record ('h, 'u) fastboot =
  fastboot_state :: fastboot_status
  cmdlist :: "'h fastboot_cmd list"
  varlist :: "fastboot_var list"
  normal_boot :: bool
  platform_calls :: "platform_call list"
  usb :: 'u

text \<open>A handler returns, or control leaves the boot loader (the kernel is started, or the machine reset).\<close>

datatype 's outcome = Returned 's | Left_lk 's

fun and_then :: "'s outcome \<Rightarrow> ('s \<Rightarrow> 's outcome) \<Rightarrow> 's outcome" where
  "and_then (Returned s) f = f s"
| "and_then (Left_lk s) f = Left_lk s"

abbreviation (input) MAX_RSP_SIZE :: nat where "MAX_RSP_SIZE \<equiv> 64"
abbreviation (input) MAX_USBFS_BULK_SIZE :: nat where "MAX_USBFS_BULK_SIZE \<equiv> 16384"

definition bytes_of :: "string \<Rightarrow> u8 list" where
  "bytes_of t = map (\<lambda>c. of_nat (ord c)) t"

definition string_of :: "u8 list \<Rightarrow> string" where
  "string_of bs = map (\<lambda>b. char_of (unat b)) bs"

subsection \<open>Tables\<close>

definition fastboot_register ::
  "bool \<Rightarrow> string \<Rightarrow> 'h \<Rightarrow> bool \<Rightarrow> ('h, 'u, 'x) fastboot_scheme \<Rightarrow> ('h, 'u, 'x) fastboot_scheme" where
  "fastboot_register cmd pre h security_enabled s =
     (if cmd then s\<lparr>cmdlist := \<lparr>prefix = pre, sec_support = security_enabled, handle = h\<rparr> # cmdlist s\<rparr> else s)"

definition fastboot_publish :: "bool \<Rightarrow> string \<Rightarrow> string \<Rightarrow> ('h, 'u, 'x) fastboot_scheme \<Rightarrow> ('h, 'u, 'x) fastboot_scheme" where
  "fastboot_publish var nam val s =
     (if var then s\<lparr>varlist := \<lparr>var_name = nam, var_value = val\<rparr> # varlist s\<rparr> else s)"

subsection \<open>Transfers\<close>

text \<open>\<open>usb_read\<close> yields its result and the bytes that it stored in the buffer.\<close>

function usb_read_loop ::
  "'u udc \<Rightarrow> nat \<Rightarrow> u8 list \<Rightarrow> ('h, 'u, 'x) fastboot_scheme \<Rightarrow> int \<times> u8 list \<times> ('h, 'u, 'x) fastboot_scheme" where
  "usb_read_loop d len buf s =
     (if len > 0
      then
        let xfer = (if len > MAX_USBFS_BULK_SIZE then MAX_USBFS_BULK_SIZE else len) in
        (case udc_out d xfer (usb s) of
           (Queue_failed, u) \<Rightarrow> (- 1, buf, s\<lparr>usb := u, fastboot_state := STATE_ERROR\<rparr>)
         | (Txn_failed, u) \<Rightarrow> (- 1, buf, s\<lparr>usb := u, fastboot_state := STATE_ERROR\<rparr>)
         | (Txn bs, u) \<Rightarrow>
             if length bs \<noteq> xfer then (int (length (buf @ bs)), buf @ bs, s\<lparr>usb := u\<rparr>)
             else usb_read_loop d (len - length bs) (buf @ bs) (s\<lparr>usb := u\<rparr>))
      else (int (length buf), buf, s))"
  by pat_completeness auto
termination by (relation "measure (\<lambda>(d, len, buf, s). len)") auto

declare usb_read_loop.simps [simp del]

definition usb_read ::
  "'u udc \<Rightarrow> nat \<Rightarrow> ('h, 'u, 'x) fastboot_scheme \<Rightarrow> int \<times> u8 list \<times> ('h, 'u, 'x) fastboot_scheme" where
  "usb_read d len s =
     (if fastboot_state s = STATE_ERROR then (- 1, [], s\<lparr>fastboot_state := STATE_ERROR\<rparr>) else usb_read_loop d len [] s)"

definition usb_write ::
  "'u udc \<Rightarrow> u8 list \<Rightarrow> ('h, 'u, 'x) fastboot_scheme \<Rightarrow> int \<times> ('h, 'u, 'x) fastboot_scheme" where
  "usb_write d buf s =
     (if fastboot_state s = STATE_ERROR then (- 1, s\<lparr>fastboot_state := STATE_ERROR\<rparr>)
      else case udc_in d buf (usb s) of
        (Queue_failed, u) \<Rightarrow> (- 1, s\<lparr>usb := u, fastboot_state := STATE_ERROR\<rparr>)
      | (Txn_failed, u) \<Rightarrow> (- 1, s\<lparr>usb := u, fastboot_state := STATE_ERROR\<rparr>)
      | (Txn n, u) \<Rightarrow> (int n, s\<lparr>usb := u\<rparr>))"

subsection \<open>Responses\<close>

text \<open>The text that \<open>snprintf\<close> leaves in the buffer \<open>response\<close>.\<close>

definition formatted :: "string \<Rightarrow> va list \<Rightarrow> string" where
  "formatted fmt ap = (case snprintf MAX_RSP_SIZE fmt ap of Some (out, st) \<Rightarrow> out | None \<Rightarrow> [])"

definition fastboot_ack ::
  "'u udc \<Rightarrow> string \<Rightarrow> string \<Rightarrow> ('h, 'u, 'x) fastboot_scheme \<Rightarrow> ('h, 'u, 'x) fastboot_scheme" where
  "fastboot_ack d code reason s =
     (if fastboot_state s \<noteq> STATE_COMMAND then s
      else
        let response = formatted ''%s%s'' [VStr (Some code), VStr (Some reason)] in
        snd (usb_write d (bytes_of response) (s\<lparr>fastboot_state := STATE_COMPLETE\<rparr>)))"

definition fastboot_info :: "'u udc \<Rightarrow> string \<Rightarrow> ('h, 'u, 'x) fastboot_scheme \<Rightarrow> ('h, 'u, 'x) fastboot_scheme" where
  "fastboot_info d reason s =
     (if fastboot_state s \<noteq> STATE_COMMAND then s
      else snd (usb_write d (bytes_of (formatted ''INFO%s'' [VStr (Some reason)])) s))"

definition fastboot_fail :: "'u udc \<Rightarrow> string \<Rightarrow> ('h, 'u, 'x) fastboot_scheme \<Rightarrow> ('h, 'u, 'x) fastboot_scheme" where
  "fastboot_fail d reason = fastboot_ack d ''FAIL'' reason"

definition fastboot_okay :: "'u udc \<Rightarrow> string \<Rightarrow> ('h, 'u, 'x) fastboot_scheme \<Rightarrow> ('h, 'u, 'x) fastboot_scheme" where
  "fastboot_okay d info = fastboot_ack d ''OKAY'' info"

subsection \<open>The command loop\<close>

text \<open>The command buffer: zeroed, then filled by \<open>usb_read\<close>. A string in it ends at the first 0.\<close>

definition command_buffer :: "u8 list \<Rightarrow> string" where
  "command_buffer bs = string_of (bs @ replicate (4096 - length bs) 0)"

definition c_string :: "string \<Rightarrow> string" where
  "c_string b = takeWhile (\<lambda>c. ord c \<noteq> 0) b"

fun find_cmd :: "'h fastboot_cmd list \<Rightarrow> string \<Rightarrow> 'h fastboot_cmd option" where
  "find_cmd [] buffer = None"
| "find_cmd (cmd # next) buffer =
     (if take (length (prefix cmd)) buffer \<noteq> prefix cmd then find_cmd next buffer else Some cmd)"

type_synonym ('h, 's) handlers = "'h \<Rightarrow> string \<Rightarrow> 's \<Rightarrow> 's outcome"

definition process_command ::
  "'u udc \<Rightarrow> bool \<Rightarrow> ('h, ('h, 'u, 'x) fastboot_scheme) handlers \<Rightarrow> string \<Rightarrow> ('h, 'u, 'x) fastboot_scheme \<Rightarrow>
    ('h, 'u, 'x) fastboot_scheme outcome" where
  "process_command d sec_usbdl_enabled run buffer s =
     (case find_cmd (cmdlist s) buffer of
        None \<Rightarrow> Returned (fastboot_fail d ''unknown command'' s)
      | Some cmd \<Rightarrow>
          let s1 = s\<lparr>fastboot_state := STATE_COMMAND\<rparr>;
              allowed = (\<not> sec_usbdl_enabled \<or> sec_support cmd)
          in and_then
               (if allowed then run (handle cmd) (c_string (drop (length (prefix cmd)) buffer)) s1 else Returned s1)
               (\<lambda>s2. Returned
                  (if fastboot_state s2 = STATE_COMMAND
                   then (if allowed then fastboot_fail d ''unknown reason'' s2 else fastboot_fail d ''not support on security'' s2)
                   else s2)))"

text \<open>The loop ends when a transfer fails; \<open>None\<close> is a loop that does not end.\<close>

partial_function (option) fastboot_command_loop ::
  "'u udc \<Rightarrow> bool \<Rightarrow> ('h, ('h, 'u, 'x) fastboot_scheme) handlers \<Rightarrow> ('h, 'u, 'x) fastboot_scheme \<Rightarrow>
    ('h, 'u, 'x) fastboot_scheme outcome option" where
  "fastboot_command_loop d sec run s =
     (if fastboot_state s \<noteq> STATE_ERROR
      then (case usb_read d MAX_RSP_SIZE s of
              (r, buf, s1) \<Rightarrow>
                if r < 0 then Some (Returned (s1\<lparr>fastboot_state := STATE_OFFLINE\<rparr>))
                else (case process_command d sec run (command_buffer buf) s1 of
                        Returned s2 \<Rightarrow> fastboot_command_loop d sec run s2
                      | Left_lk s2 \<Rightarrow> Some (Left_lk s2)))
      else Some (Returned (s\<lparr>fastboot_state := STATE_OFFLINE\<rparr>)))"

subsection \<open>System commands (app/mt_boot/sys_commands.c)\<close>

definition call_platform :: "platform_call list \<Rightarrow> ('h, 'u, 'x) fastboot_scheme \<Rightarrow> ('h, 'u, 'x) fastboot_scheme" where
  "call_platform cs s = s\<lparr>platform_calls := platform_calls s @ cs\<rparr>"

definition cmd_continue :: "'u udc \<Rightarrow> ('h, 'u, 'x) fastboot_scheme \<Rightarrow> ('h, 'u, 'x) fastboot_scheme outcome" where
  "cmd_continue d s =
     Left_lk (call_platform [Udc_stop, Mtk_wdt_init, Boot_linux_from_storage] (fastboot_okay d [] (s\<lparr>normal_boot := True\<rparr>)))"

fun getvar_all :: "'u udc \<Rightarrow> fastboot_var list \<Rightarrow> ('h, 'u, 'x) fastboot_scheme \<Rightarrow> ('h, 'u, 'x) fastboot_scheme" where
  "getvar_all d [] s = s"
| "getvar_all d (var # next) s =
     getvar_all d next
       (fastboot_info d (formatted (CHR 0x09 # ''%s: %s'') [VStr (Some (var_name var)), VStr (Some (var_value var))]) s)"

fun getvar_find :: "'u udc \<Rightarrow> string \<Rightarrow> fastboot_var list \<Rightarrow> ('h, 'u, 'x) fastboot_scheme \<Rightarrow> ('h, 'u, 'x) fastboot_scheme" where
  "getvar_find d arg [] s = fastboot_okay d [] s"
| "getvar_find d arg (var # next) s =
     (if var_name var = arg then fastboot_okay d (var_value var) s else getvar_find d arg next s)"

definition cmd_getvar :: "'u udc \<Rightarrow> string \<Rightarrow> ('h, 'u, 'x) fastboot_scheme \<Rightarrow> ('h, 'u, 'x) fastboot_scheme outcome" where
  "cmd_getvar d arg s =
     Returned (if arg = ''all'' then fastboot_okay d ''Done!!'' (getvar_all d (varlist s) s)
               else getvar_find d arg (varlist s) s)"

definition cmd_reboot :: "'u udc \<Rightarrow> ('h, 'u, 'x) fastboot_scheme \<Rightarrow> ('h, 'u, 'x) fastboot_scheme outcome" where
  "cmd_reboot d s = Left_lk (call_platform [Mtk_arch_reset] (fastboot_okay d [] s))"

definition cmd_reboot_bootloader :: "'u udc \<Rightarrow> ('h, 'u, 'x) fastboot_scheme \<Rightarrow> ('h, 'u, 'x) fastboot_scheme outcome" where
  "cmd_reboot_bootloader d s = Left_lk (call_platform [Set_RTC_fastboot_bit, Mtk_arch_reset] (fastboot_okay d [] s))"

text \<open>Of \<^verbatim>\<open>app/mt_boot/download_commands.c\<close>; the message also goes to the screen.\<close>

definition cmd_install_sig :: "'u udc \<Rightarrow> ('h, 'u, 'x) fastboot_scheme \<Rightarrow> ('h, 'u, 'x) fastboot_scheme outcome" where
  "cmd_install_sig d s = Returned (fastboot_fail d ''Signature command not supported'' s)"

text \<open>
  \<open>cmd_overwirte_cmdline\<close>, on a command line buffer of 200 bytes; \<open>None\<close> is a write past its end. The
  test of the length does not return.
\<close>

definition cmd_overwirte_cmdline ::
  "'u udc \<Rightarrow> string \<Rightarrow> u8 list \<Rightarrow> ('h, 'u, 'x) fastboot_scheme \<Rightarrow> (u8 list \<times> ('h, 'u, 'x) fastboot_scheme) option" where
  "cmd_overwirte_cmdline d arg cmdline s = do {
     let s1 = (if length arg > 200 then fastboot_fail d ''cmdline length is too long'' s else s);
     cmdline' \<leftarrow> strcpy cmdline (bytes_of arg @ [0]);
     Some (cmdline', fastboot_okay d [] s1) }"

subsection \<open>Set-up\<close>

text \<open>
  The handlers that \<open>fastboot_init\<close> registers, up to its call of \<open>fastboot_oem_register\<close>, which is not in the tree. \<open>user_build\<close> is \<^verbatim>\<open>USER_BUILD\<close>, \<open>board\<close> the string of
  \<^verbatim>\<open>BOARD\<close>; every \<open>malloc\<close> of the tables succeeds. The partition table of the platform (\<open>partition_get_size\<close>
  and so on) is a parameter.
\<close>

datatype command = Cmd_getvar | Cmd_boot | Cmd_install_sig | Cmd_flash | Cmd_erase | Cmd_continue | Cmd_reboot
  | Cmd_reboot_bootloader | Cmd_download

text \<open>The handlers modelled here; \<open>other\<close> stands for the rest.\<close>

definition run_command ::
  "'u udc \<Rightarrow> (command, (command, 'u, 'x) fastboot_scheme) handlers \<Rightarrow> (command, (command, 'u, 'x) fastboot_scheme) handlers" where
  "run_command d other h arg s =
     (case h of
        Cmd_getvar \<Rightarrow> cmd_getvar d arg s
      | Cmd_install_sig \<Rightarrow> cmd_install_sig d s
      | Cmd_continue \<Rightarrow> cmd_continue d s
      | Cmd_reboot \<Rightarrow> cmd_reboot d s
      | Cmd_reboot_bootloader \<Rightarrow> cmd_reboot_bootloader d s
      | _ \<Rightarrow> other h arg s)"

record part_table =
  partition_get_size :: "nat \<Rightarrow> u64"
  partition_get_name :: "nat \<Rightarrow> string"
  partition_get_type :: "nat \<Rightarrow> string"

text \<open>\<open>sprintf\<close> into a buffer that \<open>malloc (n)\<close> returned; \<open>None\<close> is a write past its end.\<close>

definition sprintf_into :: "nat \<Rightarrow> string \<Rightarrow> va list \<Rightarrow> string option" where
  "sprintf_into n fmt ap = do { (out, st) \<leftarrow> sprintf fmt ap; if length out + 1 \<le> n then Some out else None }"

definition reserved_size :: "string \<Rightarrow> string \<Rightarrow> u64 \<Rightarrow> u64" where
  "reserved_size type_buf p_name p_size =
     (if type_buf = ''ext4'' then (if p_name = ''userdata'' then p_size - 2097152 else p_size - 1048576) else p_size)"

fun register_parition_var ::
  "part_table \<Rightarrow> nat \<Rightarrow> nat \<Rightarrow> ('h, 'u, 'x) fastboot_scheme \<Rightarrow> ('h, 'u, 'x) fastboot_scheme option" where
  "register_parition_var pt 0 i s = Some s"
| "register_parition_var pt (Suc n) i s =
     (let p_size = partition_get_size pt i; p_name = partition_get_name pt i; type_buf = partition_get_type pt i in
      if p_size = - 1 then Some s
      else do {
        var_name1 \<leftarrow> sprintf_into 30 ''partition-type:%s'' [VStr (Some p_name)];
        let s1 = fastboot_publish True var_name1 type_buf s;
        val \<leftarrow> sprintf_into 20 ''%llx'' [VLong (reserved_size type_buf p_name p_size)];
        var_name2 \<leftarrow> sprintf_into 30 ''partition-size:%s'' [VStr (Some p_name)];
        register_parition_var pt n (i + 1) (fastboot_publish True var_name2 val s1) })"

definition fastboot_init_tables ::
  "bool \<Rightarrow> string \<Rightarrow> part_table \<Rightarrow> nat \<Rightarrow> (command, 'u, 'x) fastboot_scheme \<Rightarrow> (command, 'u, 'x) fastboot_scheme option" where
  "fastboot_init_tables user_build board pt part_max_count s0 = do {
     let s = fastboot_register True ''getvar:'' Cmd_getvar True s0;
     let s = fastboot_publish True ''version'' ''0.5'' s;
     let s = (if user_build then s else fastboot_register True ''boot'' Cmd_boot False s);
     let s = fastboot_register True ''signature'' Cmd_install_sig False s;
     let s = fastboot_register True ''flash:'' Cmd_flash True s;
     let s = (if user_build then s else fastboot_register True ''erase:'' Cmd_erase False s);
     let s = fastboot_register True ''continue'' Cmd_continue False s;
     let s = fastboot_register True ''reboot'' Cmd_reboot True s;
     let s = fastboot_register True ''reboot-bootloader'' Cmd_reboot_bootloader False s;
     let s = fastboot_publish True ''product'' board s;
     let s = fastboot_publish True ''kernel'' ''lk'' s;
     s \<leftarrow> register_parition_var pt part_max_count 0 s;
     Some (fastboot_register True ''download:'' Cmd_download True s) }"

subsection \<open>The link\<close>

text \<open>
  The documented behaviour of a working controller: \<open>sent\<close> are the packets the host has received, and \<open>inp\<close>
  the bytes that it is about to send, of which a request gets as many as it asks for and as there are.
\<close>

definition udc_ok :: "'u udc \<Rightarrow> ('u \<Rightarrow> u8 list) \<Rightarrow> ('u \<Rightarrow> u8 list list) \<Rightarrow> bool" where
  "udc_ok d inp sent \<longleftrightarrow>
     (\<forall>b u. \<exists>u'. udc_in d b u = (Txn (length b), u') \<and> sent u' = sent u @ [b] \<and> inp u' = inp u) \<and>
     (\<forall>n u. \<exists>u'. udc_out d n u = (Txn (take n (inp u)), u') \<and> inp u' = drop n (inp u) \<and> sent u' = sent u)"

lemma udc_ok_in:
  assumes "udc_ok d inp sent"
  obtains u' where "udc_in d b u = (Txn (length b), u')" "sent u' = sent u @ [b]" "inp u' = inp u"
  using assms unfolding udc_ok_def by blast

lemma udc_ok_out:
  assumes "udc_ok d inp sent"
  obtains u' where "udc_out d n u = (Txn (take n (inp u)), u')" "inp u' = drop n (inp u)" "sent u' = sent u"
  using assms unfolding udc_ok_def by blast

lemma usb_read_loop_stream:
  assumes "udc_ok d inp sent"
  shows "\<exists>u'. usb_read_loop d len buf s = (int (length (buf @ take len (inp (usb s)))), buf @ take len (inp (usb s)), s\<lparr>usb := u'\<rparr>) \<and>
    inp u' = drop len (inp (usb s)) \<and> sent u' = sent (usb s)"
proof (induction len arbitrary: buf s rule: less_induct)
  case (less len)
  let ?x = "if len > MAX_USBFS_BULK_SIZE then MAX_USBFS_BULK_SIZE else len"
  obtain u1 where u1: "udc_out d ?x (usb s) = (Txn (take ?x (inp (usb s))), u1)" "inp u1 = drop ?x (inp (usb s))" "sent u1 = sent (usb s)"
    using udc_ok_out [OF assms] by blast
  show ?case
  proof (cases "len = 0")
    case True
    have "usb_read_loop d len buf s = (int (length buf), buf, s\<lparr>usb := usb s\<rparr>)" using True by (subst usb_read_loop.simps) simp
    then show ?thesis using True by (intro exI [of _ "usb s"]) simp
  next
    case False
    show ?thesis
    proof (cases "length (inp (usb s)) < ?x")
      case True
      then have "usb_read_loop d len buf s = (int (length (buf @ inp (usb s))), buf @ inp (usb s), s\<lparr>usb := u1\<rparr>)"
        using False u1(1) by (subst usb_read_loop.simps) (auto simp: Let_def split: if_splits)
      moreover have "length (inp (usb s)) \<le> len" using True by (auto split: if_splits)
      ultimately show ?thesis using u1 True by (intro exI [of _ u1]) auto
    next
      case enough: False
      then have "usb_read_loop d len buf s = usb_read_loop d (len - ?x) (buf @ take ?x (inp (usb s))) (s\<lparr>usb := u1\<rparr>)"
        using False u1(1) by (subst usb_read_loop.simps) (auto simp: Let_def min_def split: if_splits)
      moreover have "take len (inp (usb s)) = take ?x (inp (usb s)) @ take (len - ?x) (drop ?x (inp (usb s)))"
        using take_add [of ?x "len - ?x" "inp (usb s)"] by (simp split: if_splits)
      moreover have "drop (len - ?x) (drop ?x (inp (usb s))) = drop len (inp (usb s))" by (simp split: if_splits)
      ultimately show ?thesis using less.IH [of "len - ?x" "buf @ take ?x (inp (usb s))" "s\<lparr>usb := u1\<rparr>"] False u1(2,3) by auto
    qed
  qed
qed

subsection \<open>Responses\<close>

lemma formatted_bounded: "vsn_loop 0 fmt ap [] [] = Some (u, st) \<Longrightarrow> formatted fmt ap = take 63 u"
  using vsn_loop_bounded [of fmt ap "[]" "[]" u st MAX_RSP_SIZE] by (auto simp: formatted_def snprintf_def vsnprintf_def)

lemma formatted_strings [simp]:
  "formatted ''%s%s'' [VStr (Some a), VStr (Some b)] = take 63 (a @ b)"
  "formatted ''INFO%s'' [VStr (Some a)] = take 63 (''INFO'' @ a)"
  by (rule formatted_bounded, simp add: format_flag_def convert_def format_arg_def output_string_0 justified_def flag_set_def)+

definition answer :: "string \<Rightarrow> string \<Rightarrow> u8 list" where
  "answer code reason = bytes_of (take 63 (code @ reason))"

lemma ack_idle: "fastboot_state s \<noteq> STATE_COMMAND \<Longrightarrow> fastboot_ack d code reason s = s"
  by (simp add: fastboot_ack_def)

lemma ack_sends:
  assumes "udc_ok d inp sent" and "fastboot_state s = STATE_COMMAND"
  shows "\<exists>u'. fastboot_ack d code reason s = s\<lparr>fastboot_state := STATE_COMPLETE, usb := u'\<rparr> \<and>
    sent u' = sent (usb s) @ [answer code reason] \<and> inp u' = inp (usb s)"
proof -
  obtain u' where "udc_in d (answer code reason) (usb s) = (Txn (length (answer code reason)), u')"
    "sent u' = sent (usb s) @ [answer code reason]" "inp u' = inp (usb s)"
    using udc_ok_in [OF assms(1)] by blast
  then show ?thesis using assms(2) by (intro exI [of _ u']) (simp add: fastboot_ack_def usb_write_def answer_def)
qed

lemma ack_state: "fastboot_state (fastboot_ack d code reason s) \<noteq> STATE_COMMAND"
  by (simp add: fastboot_ack_def Let_def usb_write_def split: prod.splits transfer.splits)

lemma info_sends:
  assumes "udc_ok d inp sent" and "fastboot_state s = STATE_COMMAND"
  shows "\<exists>u'. fastboot_info d reason s = s\<lparr>usb := u'\<rparr> \<and> sent u' = sent (usb s) @ [answer ''INFO'' reason] \<and> inp u' = inp (usb s)"
proof -
  obtain u' where "udc_in d (answer ''INFO'' reason) (usb s) = (Txn (length (answer ''INFO'' reason)), u')"
    "sent u' = sent (usb s) @ [answer ''INFO'' reason]" "inp u' = inp (usb s)"
    using udc_ok_in [OF assms(1)] by blast
  then show ?thesis using assms(2) by (intro exI [of _ u']) (simp add: fastboot_info_def usb_write_def answer_def)
qed

text \<open>The answers that end a command.\<close>

definition final :: "u8 list \<Rightarrow> bool" where
  "final m \<longleftrightarrow> take 4 m = bytes_of ''OKAY'' \<or> take 4 m = bytes_of ''FAIL''"

lemma final_answer [simp]: "final (answer ''OKAY'' r)" "final (answer ''FAIL'' r)" "\<not> final (answer ''INFO'' r)"
  by (simp_all add: final_def answer_def bytes_of_def take_map)

definition finals :: "('u \<Rightarrow> u8 list list) \<Rightarrow> ('h, 'u, 'x) fastboot_scheme \<Rightarrow> nat" where
  "finals sent s = length (filter final (sent (usb s)))"

text \<open>What the loop expects of a handler: it gives one final answer, or none and leaves the state alone.\<close>

definition answers_once :: "('u \<Rightarrow> u8 list list) \<Rightarrow> (('h, 'u, 'x) fastboot_scheme \<Rightarrow> ('h, 'u, 'x) fastboot_scheme outcome) \<Rightarrow> bool" where
  "answers_once sent h \<longleftrightarrow>
     (\<forall>s. fastboot_state s = STATE_COMMAND \<longrightarrow>
        (case h s of
           Returned s' \<Rightarrow>
             fastboot_state s' = STATE_COMMAND \<and> finals sent s' = finals sent s \<or>
             fastboot_state s' = STATE_COMPLETE \<and> finals sent s' = finals sent s + 1
         | Left_lk s' \<Rightarrow> finals sent s' = finals sent s + 1))"

lemma ack_final:
  assumes "udc_ok d inp sent" and "fastboot_state s = STATE_COMMAND" and "code = ''OKAY'' \<or> code = ''FAIL''"
  shows "fastboot_state (fastboot_ack d code reason s) = STATE_COMPLETE" "finals sent (fastboot_ack d code reason s) = finals sent s + 1"
  using ack_sends [OF assms(1,2), of code reason] assms(3) by (auto simp: finals_def)

lemma getvar_all_state:
  assumes "udc_ok d inp sent" and "fastboot_state s = STATE_COMMAND"
  shows "fastboot_state (getvar_all d vs s) = STATE_COMMAND \<and> finals sent (getvar_all d vs s) = finals sent s"
  using assms(2)
proof (induction vs arbitrary: s)
  case (Cons v vs)
  let ?r = "formatted (CHR 0x09 # ''%s: %s'') [VStr (Some (var_name v)), VStr (Some (var_value v))]"
  obtain u' where u': "fastboot_info d ?r s = s\<lparr>usb := u'\<rparr>" "sent u' = sent (usb s) @ [answer ''INFO'' ?r]"
    using info_sends [OF assms(1) Cons.prems] by blast
  then show ?case using Cons.IH [of "s\<lparr>usb := u'\<rparr>"] Cons.prems by (simp add: finals_def)
qed simp

lemma getvar_find_final:
  assumes "udc_ok d inp sent" and "fastboot_state s = STATE_COMMAND"
  shows "fastboot_state (getvar_find d arg vs s) = STATE_COMPLETE \<and> finals sent (getvar_find d arg vs s) = finals sent s + 1"
  by (induction vs) (simp_all add: fastboot_okay_def ack_final [OF assms])

lemma finals_calls [simp]: "finals sent (call_platform cs s) = finals sent s" "finals sent (s\<lparr>normal_boot := b\<rparr>) = finals sent s"
  by (simp_all add: finals_def call_platform_def)

lemma system_commands_answer:
  assumes "udc_ok d inp sent"
  shows "answers_once sent (cmd_getvar d arg)" "answers_once sent (cmd_install_sig d)" "answers_once sent (cmd_continue d)"
    "answers_once sent (cmd_reboot d)" "answers_once sent (cmd_reboot_bootloader d)"
proof -
  show "answers_once sent (cmd_getvar d arg)"
    by (simp add: answers_once_def cmd_getvar_def fastboot_okay_def ack_final [OF assms] getvar_all_state [OF assms] getvar_find_final [OF assms])
  show "answers_once sent (cmd_install_sig d)"
    by (simp add: answers_once_def cmd_install_sig_def fastboot_fail_def ack_final [OF assms])
  show "answers_once sent (cmd_continue d)"
    by (simp add: answers_once_def cmd_continue_def fastboot_okay_def ack_final [OF assms])
  show "answers_once sent (cmd_reboot d)" "answers_once sent (cmd_reboot_bootloader d)"
    by (simp_all add: answers_once_def cmd_reboot_def cmd_reboot_bootloader_def fastboot_okay_def ack_final [OF assms])
qed

lemma run_command_answers:
  assumes "udc_ok d inp sent"
    and "\<forall>h\<in>{Cmd_boot, Cmd_flash, Cmd_erase, Cmd_download}. \<forall>arg. answers_once sent (other h arg)"
  shows "answers_once sent (run_command d other h arg)"
proof -
  have "run_command d other h arg = (case h of Cmd_getvar \<Rightarrow> cmd_getvar d arg | Cmd_install_sig \<Rightarrow> cmd_install_sig d
      | Cmd_continue \<Rightarrow> cmd_continue d | Cmd_reboot \<Rightarrow> cmd_reboot d | Cmd_reboot_bootloader \<Rightarrow> cmd_reboot_bootloader d | _ \<Rightarrow> other h arg)"
    by (intro ext) (simp add: run_command_def split: command.split)
  then show ?thesis using assms(2) by (simp add: system_commands_answer [OF assms(1)] split: command.split)
qed

subsection \<open>Properties\<close>


text \<open>The link of the examples: what the host is about to send, and what it has received.\<close>

definition example_udc :: "(u8 list \<times> u8 list list) udc" where
  "example_udc = \<lparr>udc_out = (\<lambda>n (i, o'). (Txn (take n i), drop n i, o')), udc_in = (\<lambda>b (i, o'). (Txn (length b), i, o' @ [b]))\<rparr>"

lemma example_udc_ok: "udc_ok example_udc fst snd"
  by (simp add: udc_ok_def example_udc_def)

definition example_fastboot :: "string \<Rightarrow> (command, u8 list \<times> u8 list list) fastboot" where
  "example_fastboot cmd = \<lparr>fastboot_state = STATE_COMPLETE,
     cmdlist = [\<lparr>prefix = ''reboot'', sec_support = True, handle = Cmd_reboot\<rparr>, \<lparr>prefix = ''boot'', sec_support = False, handle = Cmd_boot\<rparr>],
     varlist = [], normal_boot = False, platform_calls = [], usb = (bytes_of cmd, [])\<rparr>"


text \<open>
  (C37) A command that is not in the table gets no answer at all: the loop calls \<open>fastboot_fail\<close> in a state in
  which that function returns at once, because a command leaves the state complete and only a command
  that was found sets it to \<open>STATE_COMMAND\<close>. The host waits until it gives up.
\<close>

theorem unknown_command_silent:
  assumes "fastboot_state s \<noteq> STATE_COMMAND"
  shows "(find_cmd (cmdlist s) buffer = None \<longrightarrow> process_command d sec run buffer s = Returned s) \<and>
    (\<forall>s'. process_command d sec run buffer s = Returned s' \<longrightarrow> fastboot_state s' \<noteq> STATE_COMMAND)"
proof (cases "find_cmd (cmdlist s) buffer")
  case None
  then show ?thesis using assms by (simp add: process_command_def fastboot_fail_def ack_idle)
next
  case (Some cmd)
  have "fastboot_state s' \<noteq> STATE_COMMAND"
    if "and_then x (\<lambda>s2. Returned (if fastboot_state s2 = STATE_COMMAND then (if a then fastboot_fail d r s2 else fastboot_fail d r' s2) else s2)) = Returned s'"
    for x s' a r r' using that ack_state by (cases x) (auto simp: fastboot_fail_def split: if_splits)
  then have "\<forall>s'. process_command d sec run buffer s = Returned s' \<longrightarrow> fastboot_state s' \<noteq> STATE_COMMAND"
    unfolding process_command_def Some Let_def option.case by blast
  then show ?thesis using Some by simp
qed

theorem unknown_command_silent_witness:
  "process_command example_udc False (run_command example_udc (\<lambda>h arg. Returned)) ''oem'' (example_fastboot []) = Returned (example_fastboot [])"
  using unknown_command_silent [of "example_fastboot []" "''oem''" example_udc False "run_command example_udc (\<lambda>h arg. Returned)"]
  by (simp add: example_fastboot_def)

text \<open>
  (C27) \<open>usb_read\<close> splits a transfer into requests of at most 16 KB and returns what one request of the whole
  length would: the next \<open>len\<close> bytes of the host, or fewer when the host has fewer, and their number.
\<close>

theorem usb_read_stream:
  assumes "udc_ok d inp sent" and "fastboot_state s \<noteq> STATE_ERROR"
  shows "\<exists>u'. usb_read d len s = (int (min len (length (inp (usb s)))), take len (inp (usb s)), s\<lparr>usb := u'\<rparr>) \<and>
    inp u' = drop len (inp (usb s)) \<and> sent u' = sent (usb s)"
  using usb_read_loop_stream [OF assms(1), of len "[]" s] assms(2) by (simp add: usb_read_def min.commute)

theorem usb_read_stream_witness:
  "\<exists>u'. usb_read example_udc 20000 (example_fastboot ''reboot'') = (6, bytes_of ''reboot'', (example_fastboot ''reboot'')\<lparr>usb := u'\<rparr>) \<and>
    fst u' = [] \<and> snd u' = []"
  using usb_read_stream [OF example_udc_ok, of "example_fastboot ''reboot''" 20000]
  by (simp add: example_fastboot_def bytes_of_def)

subsection \<open>Tables\<close>

definition matches :: "string \<Rightarrow> 'h fastboot_cmd \<Rightarrow> bool" where
  "matches buffer cmd \<longleftrightarrow> take (length (prefix cmd)) buffer = prefix cmd"

lemma find_cmd_matches: "find_cmd cmds buffer = find (matches buffer) cmds"
  by (induction cmds) (simp_all add: matches_def)

text \<open>When no prefix stands in front of a longer one that it begins, the first match is the longest.\<close>

fun longest_first :: "'h fastboot_cmd list \<Rightarrow> bool" where
  "longest_first [] \<longleftrightarrow> True"
| "longest_first (cmd # cmds) \<longleftrightarrow> (\<forall>c\<in>set cmds. take (length (prefix cmd)) (prefix c) \<noteq> prefix cmd) \<and> longest_first cmds"

lemma longest_first_find:
  assumes "longest_first cmds" and "find_cmd cmds buffer = Some cmd" and "c \<in> set cmds" and "matches buffer c"
  shows "length (prefix c) \<le> length (prefix cmd)"
  using assms
proof (induction cmds)
  case (Cons a cmds)
  show ?case
  proof (cases "matches buffer a")
    case True
    then have cmd: "cmd = a" using Cons.prems(2) by (simp add: find_cmd_matches)
    show ?thesis
    proof (rule ccontr)
      assume l: "\<not> length (prefix c) \<le> length (prefix cmd)"
      then have "c \<in> set cmds" using Cons.prems(3) cmd by auto
      moreover have "take (length (prefix a)) (prefix c) = take (length (prefix a)) (take (length (prefix c)) buffer)"
        using Cons.prems(4) by (simp add: matches_def)
      then have "take (length (prefix a)) (prefix c) = prefix a" using l cmd True by (simp add: matches_def min_def)
      ultimately show False using Cons.prems(1) by auto
    qed
  next
    case False
    then have "c \<noteq> a" using Cons.prems(4) by auto
    then show ?thesis using Cons.IH Cons.prems False by (simp add: find_cmd_matches)
  qed
qed simp

lemma longest_first_self:
  assumes "longest_first cmds" and "c \<in> set cmds"
  shows "find_cmd cmds (prefix c) = Some c"
  using assms by (induction cmds) auto

lemma sprintf_into_formatted:
  assumes "vsn_loop 0 fmt ap [] [] = Some (u, st)" and "n \<le> 1000"
  shows "sprintf_into n fmt ap = (if length u + 1 \<le> n then Some u else None)"
proof -
  obtain st' where "sprintf fmt ap = Some (take 2147483646 u, st')"
    using vsn_loop_bounded [OF assms(1), of INT_MAX] by (auto simp: sprintf_def vsprintf_def vsnprintf_def)
  then show ?thesis using assms(2) by (auto simp: sprintf_into_def)
qed

lemma sprintf_name:
  "sprintf_into 30 ''partition-type:%s'' [VStr (Some t)] = (if length t \<le> 14 then Some (''partition-type:'' @ t) else None)"
  "sprintf_into 30 ''partition-size:%s'' [VStr (Some t)] = (if length t \<le> 14 then Some (''partition-size:'' @ t) else None)"
proof -
  have "vsn_loop 0 ''partition-type:%s'' [VStr (Some t)] [] [] = Some (''partition-type:'' @ t, [])"
    "vsn_loop 0 ''partition-size:%s'' [VStr (Some t)] [] [] = Some (''partition-size:'' @ t, [])"
    by (simp_all add: format_flag_def convert_def format_arg_def output_string_0 justified_def flag_set_def)
  note * = this [THEN sprintf_into_formatted, of 30]
  show "sprintf_into 30 ''partition-type:%s'' [VStr (Some t)] = (if length t \<le> 14 then Some (''partition-type:'' @ t) else None)"
    "sprintf_into 30 ''partition-size:%s'' [VStr (Some t)] = (if length t \<le> 14 then Some (''partition-size:'' @ t) else None)"
    by (subst *, simp, simp)+
qed

lemma sprintf_hex: "sprintf_into 20 ''%llx'' [VLong x] = Some (longlong_to_hexstring x 0)"
proof -
  have f: "longlong_to_hexstring x 3 = longlong_to_hexstring x 0" by (simp add: longlong_to_hexstring_def flag_set_def)
  have l: "length (longlong_to_hexstring x 0) \<le> 16"
    using length_hex_digits [of x 15 "flag_set 0 CAPSFLAG" "[]"] unsigned_less [of x] by (simp add: longlong_to_hexstring_def)
  have "vsn_loop 0 ''%llx'' [VLong x] [] [] = Some (longlong_to_hexstring x 0, [])"
    by (simp add: format_flag_def convert_def format_arg_def format_hex_def va_unsigned_def output_string_0 justified_def flag_set_def f)
  then show ?thesis using sprintf_into_formatted l by fastforce
qed

definition part_vars :: "part_table \<Rightarrow> nat \<Rightarrow> fastboot_var list" where
  "part_vars pt i =
     [\<lparr>var_name = ''partition-size:'' @ partition_get_name pt i,
       var_value = longlong_to_hexstring (reserved_size (partition_get_type pt i) (partition_get_name pt i) (partition_get_size pt i)) 0\<rparr>,
      \<lparr>var_name = ''partition-type:'' @ partition_get_name pt i, var_value = partition_get_type pt i\<rparr>]"

lemma register_vars:
  assumes "\<forall>j. i \<le> j \<and> j < k \<longrightarrow> partition_get_size pt j \<noteq> - 1 \<and> length (partition_get_name pt j) \<le> 14"
    and "i \<le> k" and "k = i + n \<or> k < i + n \<and> partition_get_size pt k = - 1"
  shows "register_parition_var pt n i s = Some (s\<lparr>varlist := concat (map (part_vars pt) (rev [i..<k])) @ varlist s\<rparr>)"
  using assms
proof (induction n arbitrary: i s)
  case (Suc n)
  show ?case
  proof (cases "i = k")
    case True
    then show ?thesis using Suc.prems(3) by simp
  next
    case False
    then have i: "partition_get_size pt i \<noteq> - 1" "length (partition_get_name pt i) \<le> 14" and r: "[i..<k] = i # [Suc i..<k]"
      using Suc.prems by (auto simp: upt_conv_Cons)
    show ?thesis using Suc.IH [of "Suc i"] Suc.prems False i by (simp add: sprintf_name sprintf_hex fastboot_publish_def part_vars_def r Let_def)
  qed
qed simp

lemma init_tables:
  assumes "register_parition_var pt n 0 =
      (\<lambda>s :: (command, 'u, 'x) fastboot_scheme. Some (s\<lparr>varlist := vs @ varlist s\<rparr>))"
  shows "\<exists>s. fastboot_init_tables ub board pt n (s0 :: (command, 'u, 'x) fastboot_scheme) = Some s \<and>
    varlist s = vs @ [\<lparr>var_name = ''kernel'', var_value = ''lk''\<rparr>, \<lparr>var_name = ''product'', var_value = board\<rparr>,
      \<lparr>var_name = ''version'', var_value = ''0.5''\<rparr>] @ varlist s0"
  by (auto simp: fastboot_init_tables_def assms fastboot_publish_def fastboot_register_def Let_def)

lemma register_keeps_cmds: "register_parition_var pt n i s = Some s' \<Longrightarrow> cmdlist s' = cmdlist s"
proof (induction n arbitrary: i s)
  case (Suc n)
  then show ?case by (auto simp: Let_def fastboot_publish_def sprintf_name sprintf_hex split: if_splits)
qed simp

lemma init_cmds:
  assumes "fastboot_init_tables ub board pt n s0 = Some s" and "cmdlist s0 = []"
  shows "longest_first (cmdlist s)"
  using assms
  by (cases ub) (auto simp: fastboot_init_tables_def Let_def bind_eq_Some_conv fastboot_publish_def fastboot_register_def dest!: register_keeps_cmds)

lemma getvar_find_value:
  "getvar_find d arg vs s = fastboot_okay d (case find (\<lambda>v. var_name v = arg) vs of None \<Rightarrow> [] | Some v \<Rightarrow> var_value v) s"
  by (induction vs) simp_all

text \<open>
  (C28) The commands of \<open>fastboot_init\<close> do not hide one another: a command is dispatched to the longest prefix
  that it begins with, and every registered prefix is dispatched to its own handler. This rests on the
  order of registration, because the loop takes the first match: \<^verbatim>\<open>reboot-bootloader\<close> is found before
  \<^verbatim>\<open>reboot\<close> only since it is registered after it.
\<close>

theorem commands_longest_match:
  assumes "fastboot_init_tables ub board pt n s0 = Some s" and "cmdlist s0 = []"
  shows "(\<forall>buffer cmd c. find_cmd (cmdlist s) buffer = Some cmd \<and> c \<in> set (cmdlist s) \<and> matches buffer c \<longrightarrow>
      length (prefix c) \<le> length (prefix cmd)) \<and>
    (\<forall>c\<in>set (cmdlist s). find_cmd (cmdlist s) (prefix c) = Some c)"
  using longest_first_find [OF init_cmds [OF assms]] longest_first_self [OF init_cmds [OF assms]] by blast

text \<open>The partitions of the examples.\<close>

definition example_parts :: part_table where
  "example_parts = \<lparr>partition_get_size = (\<lambda>i. if i = 0 then 0x600000 else if i = 1 then 0x20000000 else - 1),
     partition_get_name = (\<lambda>i. if i = 0 then ''boot'' else ''userdata''), partition_get_type = (\<lambda>i. if i = 0 then ''raw data'' else ''ext4'')\<rparr>"

definition example_empty :: "(command, u8 list \<times> u8 list list) fastboot" where
  "example_empty = \<lparr>fastboot_state = STATE_COMMAND, cmdlist = [], varlist = [], normal_boot = False, platform_calls = [], usb = ([], [])\<rparr>"

lemma example_init: "\<exists>s. fastboot_init_tables False ''arima77_jb'' example_parts 4 example_empty = Some s"
proof -
  have r: "register_parition_var example_parts 4 0 =
      (\<lambda>s :: (command, u8 list \<times> u8 list list) fastboot. Some (s\<lparr>varlist := concat (map (part_vars example_parts) (rev [0..<2])) @ varlist s\<rparr>))"
    by (rule ext, rule register_vars) (auto simp: example_parts_def)
  show ?thesis using init_tables [OF r] by blast
qed

theorem commands_longest_match_witness:
  "\<exists>s. fastboot_init_tables False ''arima77_jb'' example_parts 4 example_empty = Some s \<and>
    (\<forall>c. c \<in> set (cmdlist s) = (c \<in> set (cmdlist s) \<and> find_cmd (cmdlist s) (prefix c) = Some c))"
proof -
  obtain s where "fastboot_init_tables False ''arima77_jb'' example_parts 4 example_empty = Some s" using example_init by blast
  then show ?thesis using commands_longest_match [of False "''arima77_jb''" example_parts 4 example_empty s] by (auto simp: example_empty_def)
qed



end
