(* ===== verification/LK_Download.thy ===== *)
theory LK_Download
  imports LK_Sparse LK_Fastboot
begin

text \<open>
  Writing a downloaded image to the storage (\<^verbatim>\<open>app/mt_boot/download_commands.c\<close>, for the build with eMMC):
  which partition an image is for, and what happens with the packages it comes in. The storage, the
  partition table, the check of signatures and the constants of the boot image format are the
  platform's, and parameters. \<open>None\<close> is an access outside of an object, or a loop that does not end.
\<close>

subsection \<open>Parameters and state\<close>

record ('e, 's) board =
  bd_emmc :: "'e emmc"
  bd_blk :: u32
  bd_page :: nat
  bd_magic :: "u8 list"
  bd_signature_file :: "u8 list \<Rightarrow> bool"
  bd_index :: "string \<Rightarrow> nat option"
  bd_support_flash :: "nat \<Rightarrow> bool"
  bd_size :: "nat \<Rightarrow> u64"
  bd_offset :: "nat \<Rightarrow> u64"
  bd_security :: "u8 list \<Rightarrow> u64 \<Rightarrow> 's \<Rightarrow> (bool \<times> nat \<times> nat) \<times> 's"

text \<open>
  \<open>storage_info\<close> and \<open>boot_like_image_info\<close>, with the storage. The structure \<open>unsparse_status\<close>, the static data of
  the state machine and the storage form one \<open>sparse_state\<close>. The image kept in memory is the list of the
  bytes at \<open>boot_like_image_address\<close>, whose length is \<open>offset\<close>.
\<close>

record 'e storage_info =
  is_sparse :: bool
  first_run :: bool
  sto_base :: u64
  bulk_image_offset :: u64
  to_write_data_len :: u32
  partition_name :: string
  sto_checksum :: bool
  unsparse :: "'e sparse_state"
  is_boot_like_image :: bool
  boot_like_image :: "u8 list"

definition init_sto_info :: "bool \<Rightarrow> 'e storage_info \<Rightarrow> 'e storage_info" where
  "init_sto_info chk s =
     s\<lparr>is_sparse := False, unsparse := (mmc_init_unsparse_status 0 chk (fst (unsparse s)), snd (unsparse s)), first_run := True,
       sto_base := 0, bulk_image_offset := 0, to_write_data_len := 0, partition_name := [], sto_checksum := chk\<rparr>"

definition ROUND_TO_PAGE :: "u32 \<Rightarrow> u32 \<Rightarrow> u32" where
  "ROUND_TO_PAGE x y = (x + y) AND NOT y"

abbreviation (input) SPARSE_HEADER_MAGIC :: u32 where "SPARSE_HEADER_MAGIC \<equiv> 0xed26ff3a"
abbreviation (input) CHECK_SIZE :: nat where "CHECK_SIZE \<equiv> 4096"
abbreviation (input) EXT4_SUPER_MAGIC :: u16 where "EXT4_SUPER_MAGIC \<equiv> 0xEF53"

definition is_sparse_image :: "u8 list \<Rightarrow> bool" where
  "is_sparse_image data \<longleftrightarrow> magic (sparse_header_of data) = SPARSE_HEADER_MAGIC"

subsection \<open>The partition of an image\<close>

text \<open>
  \<open>__check_mountpoint\<close>: the fields \<open>s_magic\<close> and \<open>s_last_mounted\<close> of the ext4 super block at byte 1024 are at its
  bytes 56 and 136. The name is copied to an array of 32 bytes. \<open>Some None\<close> is the result \<open>-1\<close>.
\<close>

definition check_mountpoint :: "('e, 's) board \<Rightarrow> u8 list \<Rightarrow> string option option" where
  "check_mountpoint bd data =
     (if length data < length (bd_magic bd) then None
      else if take (length (bd_magic bd)) data = bd_magic bd then Some (Some ''boot'')
      else if length data < 1024 + 200 then None
      else if le16 (drop (1024 + 56) data) \<noteq> EXT4_SUPER_MAGIC then Some None
      else
        let buf = string_of (take 64 (drop (1024 + 136) data)) in
        if hd buf \<noteq> CHR ''/'' then Some None
        else if \<not> (\<exists>c\<in>set buf. ord c = 0) then None
        else
          let name = c_string (tl buf) in
          if name = ''data'' then Some (Some ''userdata'')
          else if length name + 1 > 32 then None
          else Some (Some name))"

definition get_mountpoint_from_image :: "('e, 's) board \<Rightarrow> u8 list \<Rightarrow> string option option" where
  "get_mountpoint_from_image bd data =
     (if length data < CHECK_SIZE then Some None
      else
        let hdr = sparse_header_of data in
        if magic hdr = SPARSE_HEADER_MAGIC
        then
          let at = sparse_header_size + (unat (file_hdr_sz hdr) - sparse_header_size);
              chunk = drop at data;
              data1 = drop (chunk_header_size + (unat (chunk_hdr_sz hdr) - chunk_header_size)) chunk
          in if length chunk < chunk_header_size then None
             else
               let ch = chunk_header_of chunk; chunk_data_sz = blk_sz hdr * chunk_sz ch in
               if chunk_type ch = CHUNK_TYPE_RAW \<or> chunk_data_sz \<ge> 4096
               then if total_sz ch \<noteq> ucast (chunk_hdr_sz hdr) + chunk_data_sz then Some None
                    else check_mountpoint bd data1
               else Some None
        else check_mountpoint bd data)"

definition get_partition_name :: "('e, 's) board \<Rightarrow> u8 list \<Rightarrow> string option option" where
  "get_partition_name bd data =
     (if bd_signature_file bd data then Some (Some ''signatureFile'') else get_mountpoint_from_image bd data)"

subsection \<open>Packages\<close>

text \<open>
  \<open>write_to_emmc\<close>: its result, the new padding of the other cache where it sets one, and the state. The
  part for the first package comes first; its result says whether the function goes on.
\<close>

definition emmc_first_run :: "('e, 's) board \<Rightarrow> u8 list \<Rightarrow> 'e storage_info \<Rightarrow> (bool \<times> 'e storage_info) option" where
  "emmc_first_run bd data s = do {
     name \<leftarrow> get_partition_name bd data;
     Some (case name of
        None \<Rightarrow> (False, s)
      | Some nm \<Rightarrow>
          let s1 = s\<lparr>partition_name := nm\<rparr> in
          if nm = ''signatureFile'' \<or> nm = ''boot''
          then (True, s1\<lparr>is_boot_like_image := True, boot_like_image := [], first_run := False\<rparr>)
          else (case bd_index bd nm of
             None \<Rightarrow> (False, s1)
           | Some index \<Rightarrow>
               if \<not> bd_support_flash bd index then (False, s1)
               else if ucast (ROUND_TO_PAGE (to_write_data_len s) 511) > bd_size bd index then (False, s1)
               else (True, s1\<lparr>sto_base := bd_offset bd index,
                      unsparse := ((fst (unsparse s))\<lparr>image_base_addr := bd_offset bd index\<rparr>, snd (unsparse s)),
                      is_sparse := is_sparse_image data, first_run := False\<rparr>))) }"

definition write_sparse :: "('e, 's) board \<Rightarrow> u8 list \<Rightarrow> 'e storage_info \<Rightarrow> (bool \<times> u8 list option \<times> 'e storage_info) option" where
  "write_sparse bd data s = do {
     u \<leftarrow> mmc_write_sparse_data (bd_emmc bd) (bd_blk bd) ((fst (unsparse s))\<lparr>us_buf := data\<rparr>, snd (unsparse s));
     let s1 = s\<lparr>unsparse := u\<rparr>;
     case handle_status (fst u) of
       S_DA_SDMMC_SPARSE_INCOMPLETE \<Rightarrow>
         if length (us_buf (fst u)) > unat (bd_blk bd) then None else Some (True, Some (us_buf (fst u)), s1)
     | S_DONE \<Rightarrow> Some (True, Some [], s1)
     | _ \<Rightarrow> Some (False, None, s1) }"

definition write_bulk :: "('e, 's) board \<Rightarrow> u8 list \<Rightarrow> 'e storage_info \<Rightarrow> bool \<times> 'e storage_info" where
  "write_bulk bd data s =
     (case write_verify (bd_emmc bd) (sto_checksum s) (sto_base s + bulk_image_offset s) data (snd (snd (unsparse s))) of
        (status, e) \<Rightarrow>
          let s1 = s\<lparr>unsparse := (fst (unsparse s), fst (snd (unsparse s)), e)\<rparr> in
          if status \<noteq> S_DONE then (False, s1)
          else (True, s1\<lparr>bulk_image_offset := bulk_image_offset s + of_nat (length data)\<rparr>))"

definition write_to_emmc :: "('e, 's) board \<Rightarrow> u8 list \<Rightarrow> 'e storage_info \<Rightarrow> (bool \<times> u8 list option \<times> 'e storage_info) option" where
  "write_to_emmc bd data s = do {
     (ok, s1) \<leftarrow> (if first_run s then emmc_first_run bd data s else Some (True, s));
     if \<not> ok then Some (False, None, s1)
     else if is_boot_like_image s1 then Some (True, None, s1\<lparr>boot_like_image := boot_like_image s1 @ data\<rparr>)
     else if is_sparse s1 then write_sparse bd data s1
     else (case write_bulk bd data s1 of (ok, s2) \<Rightarrow> Some (ok, None, s2)) }"

definition write_data :: "('e, 's) board \<Rightarrow> u8 list \<Rightarrow> 'e storage_info \<Rightarrow> (bool \<times> u8 list option \<times> 'e storage_info) option" where
  "write_data bd data s = (if data = [] then Some (True, None, s) else write_to_emmc bd data s)"

end
