(* ===== verification/LK_Engine.thy ===== *)
theory LK_Engine
  imports LK_Download
begin

text \<open>
  The engine that receives an image and writes it at the same time (\<^verbatim>\<open>app/mt_boot/download_commands.c\<close>):
  \<open>read_usb_proc\<close> fills two caches in turn, the thread \<open>write_storage_proc\<close> empties them, and events pass the
  caches to and fro. The two threads are functions that perform one step; a run interleaves the steps
  in any way. A step is one access to what the threads share: a call of an event function, a test or an
  assignment of a field of the context, or a package being read or written.

  \<open>LK_Sync\<close> holds the events themselves; here an event is what its two users see of it, with at most one
  thread waiting.
\<close>

subsection \<open>Events\<close>

record event =
  signalled :: bool
  blocked :: bool
  autounsignal :: bool

definition init_event :: "bool \<Rightarrow> event" where
  "init_event initial = \<lparr>signalled = initial, blocked = False, autounsignal = True\<rparr>"

definition wait_event :: "event \<Rightarrow> bool \<times> event" where
  "wait_event e = (if signalled e then (True, e\<lparr>signalled := \<not> autounsignal e\<rparr>) else (False, e\<lparr>blocked := True\<rparr>))"

definition signal_event :: "event \<Rightarrow> event" where
  "signal_event e =
     (if signalled e then e
      else if autounsignal e then (if blocked e then e\<lparr>blocked := False\<rparr> else e\<lparr>signalled := True\<rparr>)
      else e\<lparr>signalled := True, blocked := False\<rparr>)"

definition destroy_event :: "event \<Rightarrow> event" where
  "destroy_event e = \<lparr>signalled = False, blocked = False, autounsignal = False\<rparr>"

subsection \<open>State\<close>

record cache =
  padding :: "u8 list"
  cache_buf :: "u8 list"
  content_length :: nat
  content_available :: event
  cache_available :: event

datatype main_pc = R_head | R_wait | R_blocked | R_check | R_fill | R_publish | R_signal
  | R_last_wait | R_last_blocked | R_last_set | R_last_signal | R_abort nat | R_end_wait | R_end_blocked | R_destroy nat | R_answer | R_done

datatype writer_pc = W_wait | W_blocked | W_check | W_write | W_last | W_release | W_finish nat | W_abort nat | W_done

record ('e, 's, 'u) engine =
  dual_cache :: "nat \<Rightarrow> cache"
  flipIdxR :: nat
  flipIdxW :: nat
  thr_end_ev :: event
  b_error :: bool
  sto_info :: "'e storage_info"
  main_pc :: main_pc
  data_length :: nat
  bytes_already_read :: nat
  bytes_read :: nat
  bytes_left :: nat
  fb :: "(command, 'u) fastboot"
  writer_pc :: writer_pc
  image_offset :: u64
  sec_state :: 's
  download_size :: nat
  download_image :: "u8 list"

definition cache_shift :: "nat \<Rightarrow> nat" where
  "cache_shift pre = pre XOR 1"

definition upd_cache :: "nat \<Rightarrow> (cache \<Rightarrow> cache) \<Rightarrow> ('e, 's, 'u) engine \<Rightarrow> ('e, 's, 'u) engine" where
  "upd_cache i f s = s\<lparr>dual_cache := (dual_cache s)(i := f (dual_cache s i))\<rparr>"

definition signal_cache :: "nat \<Rightarrow> ('e, 's, 'u) engine \<Rightarrow> ('e, 's, 'u) engine" where
  "signal_cache i = upd_cache i (\<lambda>c. c\<lparr>cache_available := signal_event (cache_available c)\<rparr>)"

definition signal_content :: "nat \<Rightarrow> ('e, 's, 'u) engine \<Rightarrow> ('e, 's, 'u) engine" where
  "signal_content i = upd_cache i (\<lambda>c. c\<lparr>content_available := signal_event (content_available c)\<rparr>)"

definition signal_end :: "('e, 's, 'u) engine \<Rightarrow> ('e, 's, 'u) engine" where
  "signal_end s = s\<lparr>thr_end_ev := signal_event (thr_end_ev s)\<rparr>"

text \<open>\<open>init_engine_context\<close>, with the start of \<open>download_ex\<close>. The contents of the caches are left as they are.\<close>

definition init_cache :: "cache \<Rightarrow> cache" where
  "init_cache c = c\<lparr>padding := [], content_available := init_event False, cache_available := init_event True\<rparr>"

definition init_engine :: "nat \<Rightarrow> ('e, 's, 'u) engine \<Rightarrow> ('e, 's, 'u) engine" where
  "init_engine len s =
     s\<lparr>dual_cache := init_cache \<circ> dual_cache s, flipIdxR := 0, flipIdxW := 0, thr_end_ev := init_event False, b_error := False,
       sto_info := (init_sto_info False (sto_info s))\<lparr>is_boot_like_image := False, boot_like_image := [], to_write_data_len := of_nat len\<rparr>,
       main_pc := R_head, data_length := len, bytes_already_read := 0, bytes_read := 0, bytes_left := 0, writer_pc := W_wait, image_offset := 0\<rparr>"

text \<open>The five calls of \<open>abort_engine\<close> after it has set \<open>b_error\<close>, and the five of \<open>destroy_engine\<close>.\<close>

definition abort_engine :: "nat \<Rightarrow> ('e, 's, 'u) engine \<Rightarrow> ('e, 's, 'u) engine" where
  "abort_engine k =
     (if k = 0 then b_error_update (\<lambda>_. True)
      else if k = 1 then signal_cache 0
      else if k = 2 then signal_cache 1
      else if k = 3 then signal_content 0
      else if k = 4 then signal_content 1
      else signal_end)"

definition destroy_engine :: "nat \<Rightarrow> ('e, 's, 'u) engine \<Rightarrow> ('e, 's, 'u) engine" where
  "destroy_engine k =
     (if k = 0 then upd_cache 0 (\<lambda>c. c\<lparr>cache_available := destroy_event (cache_available c)\<rparr>)
      else if k = 1 then upd_cache 1 (\<lambda>c. c\<lparr>cache_available := destroy_event (cache_available c)\<rparr>)
      else if k = 2 then upd_cache 0 (\<lambda>c. c\<lparr>content_available := destroy_event (content_available c)\<rparr>)
      else if k = 3 then upd_cache 1 (\<lambda>c. c\<lparr>content_available := destroy_event (content_available c)\<rparr>)
      else thr_end_ev_update destroy_event)"

subsection \<open>The reading thread\<close>

text \<open>\<open>read_usb_proc\<close> and what \<open>download_ex\<close> does after it; \<open>None\<close>: the thread waits, or has ended.\<close>

definition wait_cache :: "main_pc \<Rightarrow> main_pc \<Rightarrow> ('e, 's, 'u) engine \<Rightarrow> ('e, 's, 'u) engine" where
  "wait_cache pass block s =
     (let i = flipIdxW s; (ok, e) = wait_event (cache_available (dual_cache s i))
      in upd_cache i (\<lambda>c. c\<lparr>cache_available := e\<rparr>) (s\<lparr>main_pc := (if ok then pass else block)\<rparr>))"

definition fill_cache :: "'u udc \<Rightarrow> ('e, 's, 'u) engine \<Rightarrow> ('e, 's, 'u) engine" where
  "fill_cache d s =
     (case usb_read d (bytes_left s) (fb s) of (r, bs, fb') \<Rightarrow>
        let s1 = upd_cache (flipIdxW s) (\<lambda>c. c\<lparr>cache_buf := blit (bytes_read s) bs (cache_buf c)\<rparr>) (s\<lparr>fb := fb'\<rparr>) in
        if r < 0 then s1\<lparr>main_pc := R_abort 0\<rparr>
        else s1\<lparr>bytes_left := bytes_left s - length bs, bytes_read := bytes_read s + length bs\<rparr>)"

definition main_step :: "('e, 's) board \<Rightarrow> 'u udc \<Rightarrow> ('e, 's, 'u) engine \<Rightarrow> ('e, 's, 'u) engine option" where
  "main_step bd d s =
     (case main_pc s of
        R_head \<Rightarrow>
          if bytes_already_read s < data_length s then Some (s\<lparr>main_pc := R_wait\<rparr>)
          else if bytes_already_read s \<noteq> data_length s then None
          else Some (s\<lparr>main_pc := R_last_wait\<rparr>)
      | R_wait \<Rightarrow> Some (wait_cache R_check R_blocked s)
      | R_blocked \<Rightarrow> if blocked (cache_available (dual_cache s (flipIdxW s))) then None else Some (s\<lparr>main_pc := R_check\<rparr>)
      | R_check \<Rightarrow>
          if b_error s then Some (s\<lparr>main_pc := R_abort 0\<rparr>)
          else Some (s\<lparr>main_pc := R_fill, bytes_read := 0,
                 bytes_left := (let left = data_length s - bytes_already_read s in if left \<ge> bd_page bd then bd_page bd else left)\<rparr>)
      | R_fill \<Rightarrow> if bytes_left s > 0 then Some (fill_cache d s) else Some (s\<lparr>main_pc := R_publish\<rparr>)
      | R_publish \<Rightarrow>
          Some (upd_cache (flipIdxW s) (\<lambda>c. c\<lparr>content_length := bytes_read s\<rparr>)
            (s\<lparr>main_pc := R_signal, bytes_already_read := bytes_already_read s + bytes_read s\<rparr>))
      | R_signal \<Rightarrow> Some ((signal_content (flipIdxW s) s)\<lparr>main_pc := R_head, flipIdxW := cache_shift (flipIdxW s)\<rparr>)
      | R_last_wait \<Rightarrow> Some (wait_cache R_last_set R_last_blocked s)
      | R_last_blocked \<Rightarrow> if blocked (cache_available (dual_cache s (flipIdxW s))) then None else Some (s\<lparr>main_pc := R_last_set\<rparr>)
      | R_last_set \<Rightarrow> Some (upd_cache (flipIdxW s) (\<lambda>c. c\<lparr>content_length := 0\<rparr>) (s\<lparr>main_pc := R_last_signal\<rparr>))
      | R_last_signal \<Rightarrow> Some ((signal_content (flipIdxW s) s)\<lparr>main_pc := R_end_wait\<rparr>)
      | R_abort k \<Rightarrow> Some ((abort_engine k s)\<lparr>main_pc := (if k < 5 then R_abort (k + 1) else R_end_wait)\<rparr>)
      | R_end_wait \<Rightarrow>
          (case wait_event (thr_end_ev s) of (ok, e) \<Rightarrow> Some (s\<lparr>thr_end_ev := e, main_pc := (if ok then R_destroy 0 else R_end_blocked)\<rparr>))
      | R_end_blocked \<Rightarrow> if blocked (thr_end_ev s) then None else Some (s\<lparr>main_pc := R_destroy 0\<rparr>)
      | R_destroy k \<Rightarrow> Some ((destroy_engine k s)\<lparr>main_pc := (if k < 4 then R_destroy (k + 1) else R_answer)\<rparr>)
      | R_answer \<Rightarrow>
          Some (s\<lparr>main_pc := R_done,
            fb := (if b_error s
                   then (fastboot_fail d (CHR 0x0A # ''@DOWNLOAD ERROR@'' @ CHR 0x0A # ''Please re-plug your USB cable'' @ [CHR 0x0A]) (fb s))
                          \<lparr>fastboot_state := STATE_ERROR\<rparr>
                   else fastboot_okay d [] (fb s))\<rparr>)
      | R_done \<Rightarrow> None)"

subsection \<open>The writing thread\<close>

text \<open>
  What \<open>write_storage_proc\<close> does with a package. \<open>security_check\<close> may move the pointer to the data and change the
  length; the padding in front of the cache is then added at the moved pointer, by \<open>data -= padding_length\<close>.
\<close>

definition write_round ::
  "('e, 's) board \<Rightarrow> u8 list \<Rightarrow> u8 list \<Rightarrow> u64 \<Rightarrow> 's \<Rightarrow> 'e storage_info \<Rightarrow> (bool \<times> u8 list option \<times> u64 \<times> 's \<times> 'e storage_info) option" where
  "write_round bd content pad off ss sto =
     (if content \<noteq> [] \<or> pad \<noteq> []
      then (case bd_security bd content off ss of ((ok, shift, len), ss1) \<Rightarrow>
              if \<not> ok then Some (False, None, off, ss1, sto)
              else if shift + len > length content then None
              else do {
                (ok, pad', sto1) \<leftarrow> write_data bd (take (len + length pad) (drop shift (pad @ content))) sto;
                Some (ok, pad', off + of_nat (length content), ss1, sto1) })
      else Some (True, None, off, ss, sto))"

definition write_step :: "('e, 's) board \<Rightarrow> ('e, 's, 'u) engine \<Rightarrow> ('e, 's, 'u) engine option" where
  "write_step bd s =
     (let i = flipIdxR s; c = dual_cache s i in do {
        (ok, pad', off, ss, sto) \<leftarrow> write_round bd (take (content_length c) (cache_buf c)) (padding c) (image_offset s) (sec_state s) (sto_info s);
        let s1 = s\<lparr>image_offset := off, sec_state := ss, sto_info := sto, writer_pc := (if ok then W_last else W_abort 0)\<rparr>;
        Some (case pad' of None \<Rightarrow> s1 | Some p \<Rightarrow> upd_cache (cache_shift i) (\<lambda>c. c\<lparr>padding := p\<rparr>) s1) })"

text \<open>The last package: the check is told, and an image that stays in memory is moved to \<open>download_base\<close>.\<close>

definition finish_write :: "('e, 's) board \<Rightarrow> ('e, 's, 'u) engine \<Rightarrow> ('e, 's, 'u) engine" where
  "finish_write bd s =
     (let s1 = s\<lparr>sec_state := snd (bd_security bd [] (image_offset s) (sec_state s)), writer_pc := W_finish 0\<rparr> in
      if is_boot_like_image (sto_info s)
      then s1\<lparr>download_size := unat (to_write_data_len (sto_info s)),
              download_image := take (unat (to_write_data_len (sto_info s))) (boot_like_image (sto_info s))\<rparr>
      else s1)"

definition writer_step :: "('e, 's) board \<Rightarrow> ('e, 's, 'u) engine \<Rightarrow> ('e, 's, 'u) engine option" where
  "writer_step bd s =
     (case writer_pc s of
        W_wait \<Rightarrow>
          let i = flipIdxR s; (ok, e) = wait_event (content_available (dual_cache s i))
          in Some (upd_cache i (\<lambda>c. c\<lparr>content_available := e\<rparr>) (s\<lparr>writer_pc := (if ok then W_check else W_blocked)\<rparr>))
      | W_blocked \<Rightarrow> if blocked (content_available (dual_cache s (flipIdxR s))) then None else Some (s\<lparr>writer_pc := W_check\<rparr>)
      | W_check \<Rightarrow> Some (s\<lparr>writer_pc := (if b_error s then W_abort 0 else W_write)\<rparr>)
      | W_write \<Rightarrow> write_step bd s
      | W_last \<Rightarrow> if content_length (dual_cache s (flipIdxR s)) = 0 then Some (finish_write bd s) else Some (s\<lparr>writer_pc := W_release\<rparr>)
      | W_release \<Rightarrow> Some ((signal_cache (flipIdxR s) s)\<lparr>writer_pc := W_wait, flipIdxR := cache_shift (flipIdxR s)\<rparr>)
      | W_finish k \<Rightarrow>
          Some ((if k = 0 then signal_cache 0 s else if k = 1 then signal_cache 1 s else signal_end s)
                  \<lparr>writer_pc := (if k < 2 then W_finish (k + 1) else W_done)\<rparr>)
      | W_abort k \<Rightarrow> Some ((abort_engine k s)\<lparr>writer_pc := (if k < 5 then W_abort (k + 1) else W_done)\<rparr>)
      | W_done \<Rightarrow> None)"

inductive engine_step :: "('e, 's) board \<Rightarrow> 'u udc \<Rightarrow> ('e, 's, 'u) engine \<Rightarrow> ('e, 's, 'u) engine \<Rightarrow> bool" for bd d where
  main: "main_step bd d s = Some t \<Longrightarrow> engine_step bd d s t"
| writer: "writer_step bd s = Some t \<Longrightarrow> engine_step bd d s t"

end
