(* ===== verification/LK_Engine_Inv.thy ===== *)
theory LK_Engine_Inv
  imports LK_Engine
begin

text \<open>
  What the download engine computes: the packages of the image, written one after the other. The
  invariant counts the packages that the reader has published (\<open>p\<close>) and the writer has released (\<open>c\<close>);
  an event of a cache is signalled exactly when the package with that number is free to be filled,
  or to be written.
\<close>

subsection \<open>The transfer\<close>

text \<open>A controller that delivers what the host sends, or reports a failure.\<close>

definition udc_stream :: "'u udc \<Rightarrow> ('u \<Rightarrow> u8 list) \<Rightarrow> bool" where
  "udc_stream d inp \<longleftrightarrow>
     (\<forall>n u. case udc_out d n u of
        (Txn bs, u') \<Rightarrow> bs = take n (inp u) \<and> inp u' = drop n (inp u)
      | _ \<Rightarrow> True)"

lemma usb_read_loop_fails_or_streams:
  assumes "udc_stream d inp" and "usb_read_loop d len buf s = (r, bs, s')"
  shows "length bs \<le> length buf + len \<and>
    (r < 0 \<or> r = int (length bs) \<and> bs = buf @ take len (inp (usb s)) \<and> inp (usb s') = drop len (inp (usb s)))"
  using assms(2)
proof (induction len arbitrary: buf s rule: less_induct)
  case (less len)
  define x where "x = (if len > MAX_USBFS_BULK_SIZE then MAX_USBFS_BULK_SIZE else len)"
  obtain o1 u1 where o1: "udc_out d x (usb s) = (o1, u1)" by (cases "udc_out d x (usb s)")
  have x: "x \<le> len" by (simp add: x_def)
  have step: "usb_read_loop d len buf s =
      (if len > 0
       then (case udc_out d x (usb s) of
           (Queue_failed, u) \<Rightarrow> (- 1, buf, s\<lparr>usb := u, fastboot_state := STATE_ERROR\<rparr>)
         | (Txn_failed, u) \<Rightarrow> (- 1, buf, s\<lparr>usb := u, fastboot_state := STATE_ERROR\<rparr>)
         | (Txn bs, u) \<Rightarrow>
             if length bs \<noteq> x then (int (length (buf @ bs)), buf @ bs, s\<lparr>usb := u\<rparr>)
             else usb_read_loop d (len - length bs) (buf @ bs) (s\<lparr>usb := u\<rparr>))
       else (int (length buf), buf, s))"
    unfolding x_def by (subst usb_read_loop.simps) (simp only: Let_def)
  show ?case
  proof (cases "len = 0")
    case True
    then show ?thesis using less.prems step by simp
  next
    case False
    then have x0: "0 < x" by (simp add: x_def)
    show ?thesis
    proof (cases o1)
      case (Txn b)
      have b: "b = take x (inp (usb s))" "inp u1 = drop x (inp (usb s))"
        using assms(1) [unfolded udc_stream_def, THEN spec, THEN spec, of x "usb s"] o1 Txn by simp_all
      show ?thesis
      proof (cases "length b = x")
        case True
        then have eq: "usb_read_loop d (len - x) (buf @ b) (s\<lparr>usb := u1\<rparr>) = (r, bs, s')"
          using less.prems False o1 Txn step by simp
        have "take len (inp (usb s)) = b @ take (len - x) (inp u1)"
          using take_add [of x "len - x" "inp (usb s)"] x b by simp
        moreover have "drop (len - x) (inp u1) = drop len (inp (usb s))" using b(2) x by simp
        moreover have "len - x < len" using x0 False by simp
        note less.IH [OF this eq]
        ultimately show ?thesis using x True by auto
      next
        case short: False
        then have eq: "r = int (length (buf @ b))" "bs = buf @ b" "s' = s\<lparr>usb := u1\<rparr>"
          using less.prems False o1 Txn step by auto
        have l: "length (inp (usb s)) < x" using short b(1) by simp
        then have "length (inp (usb s)) \<le> len" using x by linarith
        then show ?thesis using eq b l by simp
      qed
    qed (use less.prems False o1 step in simp_all)
  qed
qed

lemma usb_read_fails_or_streams:
  assumes "udc_stream d inp" and "usb_read d len s = (r, bs, s')"
  shows "length bs \<le> len"
    and "r < 0 \<or> r = int (length bs) \<and> bs = take len (inp (usb s)) \<and> inp (usb s') = drop len (inp (usb s))"
  using usb_read_loop_fails_or_streams [OF assms(1), of len "[]" s r bs s'] assms(2) by (auto simp: usb_read_def split: if_splits)

subsection \<open>Slots\<close>

definition in_slots :: "nat \<Rightarrow> nat \<Rightarrow> nat \<Rightarrow> bool" where
  "in_slots a b i \<longleftrightarrow> (\<exists>k. a \<le> k \<and> k < b \<and> k mod 2 = i)"

lemma parity_next [simp]: "Suc k mod 2 \<noteq> k mod 2" "k mod 2 \<noteq> Suc k mod 2"
  by (simp_all add: mod_Suc)

lemma in_slots_cases:
  "b \<le> a \<Longrightarrow> \<not> in_slots a b i"
  "in_slots a (Suc a) i \<longleftrightarrow> i = a mod 2"
  "in_slots a (Suc (Suc a)) i \<longleftrightarrow> i < 2"
proof -
  show "b \<le> a \<Longrightarrow> \<not> in_slots a b i" by (auto simp: in_slots_def)
  show "in_slots a (Suc a) i \<longleftrightarrow> i = a mod 2" by (auto simp: in_slots_def less_Suc_eq)
  have "i < 2 \<Longrightarrow> i = a mod 2 \<or> i = Suc a mod 2" by (auto simp: mod_Suc less_2_cases_iff)
  moreover have "in_slots a (Suc (Suc a)) i \<longleftrightarrow> i = a mod 2 \<or> i = Suc a mod 2"
    unfolding in_slots_def by (metis le_antisym less_Suc_eq less_or_eq_imp_le not_less_eq_eq)
  ultimately show "in_slots a (Suc (Suc a)) i \<longleftrightarrow> i < 2" by auto
qed

lemma in_slots_take: "a < b \<Longrightarrow> b \<le> a + 2 \<Longrightarrow> in_slots (Suc a) b i \<longleftrightarrow> in_slots a b i \<and> i \<noteq> a mod 2"
proof -
  assume ab: "a < b" "b \<le> a + 2"
  then consider "b = Suc a" | "b = Suc (Suc a)" by linarith
  then show ?thesis
  proof cases
    case 1
    then show ?thesis by (simp add: in_slots_cases)
  next
    case 2
    have "i < 2 \<and> i \<noteq> a mod 2 \<longleftrightarrow> i = Suc a mod 2" by (auto simp: mod_Suc less_2_cases_iff)
    then show ?thesis using 2 by (simp add: in_slots_cases)
  qed
qed

lemma in_slots_put: "a \<le> b \<Longrightarrow> in_slots a (Suc b) i \<longleftrightarrow> in_slots a b i \<or> i = b mod 2"
  by (auto simp: in_slots_def less_Suc_eq)

lemma in_slots_first: "b \<le> a + 2 \<Longrightarrow> in_slots a b (a mod 2) \<longleftrightarrow> a < b"
  by (auto simp: in_slots_def)

lemma in_slots_last: "b \<le> a + 1 \<Longrightarrow> \<not> in_slots a b (b mod 2)"
  by (cases "b = Suc a") (auto simp: in_slots_cases)

lemma cache_shift_slot [simp]: "cache_shift (k mod 2) = Suc k mod 2"
proof -
  have "k mod 2 = 0 \<or> k mod 2 = 1" by auto
  then show ?thesis by (auto simp: cache_shift_def mod_Suc)
qed

subsection \<open>The packages in order\<close>

definition pkg :: "nat \<Rightarrow> u8 list \<Rightarrow> nat \<Rightarrow> u8 list" where
  "pkg page data k = take page (drop (k * page) data)"

text \<open>The specification: each package is written when those before it have been; the paddings alternate.\<close>

type_synonym ('e, 's) seq_state = "u64 \<times> 's \<times> 'e storage_info \<times> (nat \<Rightarrow> u8 list)"

fun write_seq :: "('e, 's) board \<Rightarrow> u8 list \<Rightarrow> ('e, 's) seq_state \<Rightarrow> nat \<Rightarrow> ('e, 's) seq_state option" where
  "write_seq bd data q 0 = Some q"
| "write_seq bd data q (Suc k) =
     (case write_seq bd data q k of
        None \<Rightarrow> None
      | Some (off, ss, sto, pads) \<Rightarrow>
          (case write_round bd (pkg (bd_page bd) data k) (pads (k mod 2)) off ss sto of
             Some (True, pad', off', ss', sto') \<Rightarrow>
               Some (off', ss', sto', case pad' of None \<Rightarrow> pads | Some p \<Rightarrow> pads(Suc k mod 2 := p))
           | _ \<Rightarrow> None))"

definition seq_of :: "('e, 's, 'u) engine \<Rightarrow> ('e, 's) seq_state" where
  "seq_of s = (image_offset s, sec_state s, sto_info s, padding \<circ> dual_cache s)"

subsection \<open>The invariant of a download without errors\<close>

definition main_has :: "('e, 's, 'u) engine \<Rightarrow> bool" where
  "main_has s \<longleftrightarrow> main_pc s \<in> {R_check, R_fill, R_publish, R_signal, R_last_set, R_last_signal} \<or>
     main_pc s \<in> {R_blocked, R_last_blocked} \<and> \<not> blocked (cache_available (dual_cache s (flipIdxW s)))"

definition writer_has :: "('e, 's, 'u) engine \<Rightarrow> bool" where
  "writer_has s \<longleftrightarrow> writer_pc s \<in> {W_check, W_write, W_last, W_release} \<or>
     writer_pc s = W_blocked \<and> \<not> blocked (content_available (dual_cache s (flipIdxR s)))"

text \<open>Who can be blocked, and where.\<close>

definition events_ok :: "('e, 's, 'u) engine \<Rightarrow> bool" where
  "events_ok s \<longleftrightarrow>
     (\<forall>i. autounsignal (cache_available (dual_cache s i)) \<and> autounsignal (content_available (dual_cache s i)) \<and>
        (blocked (cache_available (dual_cache s i)) \<longrightarrow>
           \<not> signalled (cache_available (dual_cache s i)) \<and> main_pc s \<in> {R_blocked, R_last_blocked} \<and> i = flipIdxW s) \<and>
        (blocked (content_available (dual_cache s i)) \<longrightarrow>
           \<not> signalled (content_available (dual_cache s i)) \<and> writer_pc s = W_blocked \<and> i = flipIdxR s)) \<and>
     flipIdxR s < 2 \<and> flipIdxW s < 2"

definition tokens :: "nat \<Rightarrow> nat \<Rightarrow> ('e, 's, 'u) engine \<Rightarrow> bool" where
  "tokens p c s \<longleftrightarrow>
     (let p' = (if main_has s then Suc p else p); c' = (if writer_has s then Suc c else c) in
      c' \<le> p \<and> p' \<le> c + 2 \<and>
      (\<forall>i<2. signalled (cache_available (dual_cache s i)) = in_slots p' (c + 2) i) \<and>
      (\<forall>i<2. signalled (content_available (dual_cache s i)) = in_slots c' p i))"

definition contents :: "nat \<Rightarrow> u8 list \<Rightarrow> nat \<Rightarrow> nat \<Rightarrow> ('e, 's, 'u) engine \<Rightarrow> bool" where
  "contents page data p c s \<longleftrightarrow>
     (\<forall>k. c \<le> k \<and> k < p \<longrightarrow> content_length (dual_cache s (k mod 2)) = length (pkg page data k) \<and>
        take (length (pkg page data k)) (cache_buf (dual_cache s (k mod 2))) = pkg page data k)"

text \<open>The number of the first empty package is the number of packages with data.\<close>

definition full :: "nat \<Rightarrow> u8 list \<Rightarrow> nat \<Rightarrow> bool" where
  "full page data p \<longleftrightarrow> (\<forall>k<p. pkg page data k \<noteq> [])"

definition sent_all :: "nat \<Rightarrow> u8 list \<Rightarrow> nat \<Rightarrow> bool" where
  "sent_all page data p \<longleftrightarrow> (\<exists>m. p = Suc m \<and> full page data m \<and> pkg page data m = [])"

definition main_ok :: "nat \<Rightarrow> ('u \<Rightarrow> u8 list) \<Rightarrow> u8 list \<Rightarrow> u8 list \<Rightarrow> nat \<Rightarrow> ('e, 's, 'u) engine \<Rightarrow> bool" where
  "main_ok page inp data rest p s \<longleftrightarrow>
     data_length s = length data \<and> (\<forall>i<2. length (cache_buf (dual_cache s i)) = page) \<and>
     (let b = pkg page data p; c = dual_cache s (p mod 2);
          loop = (full page data p \<and> flipIdxW s = p mod 2);
          at = (\<lambda>n. bytes_already_read s = min (length data) (p * page) \<and> inp (usb (fb s)) = drop n data @ rest)
      in case main_pc s of
        R_head \<Rightarrow> loop \<and> at (p * page)
      | R_wait \<Rightarrow> loop \<and> b \<noteq> [] \<and> at (p * page)
      | R_blocked \<Rightarrow> loop \<and> b \<noteq> [] \<and> at (p * page)
      | R_check \<Rightarrow> loop \<and> b \<noteq> [] \<and> at (p * page)
      | R_fill \<Rightarrow> loop \<and> b \<noteq> [] \<and> at (p * page + bytes_read s) \<and> bytes_read s + bytes_left s = length b \<and>
          take (bytes_read s) (cache_buf c) = take (bytes_read s) b
      | R_publish \<Rightarrow> loop \<and> b \<noteq> [] \<and> at (p * page + length b) \<and> bytes_read s = length b \<and> take (length b) (cache_buf c) = b
      | R_signal \<Rightarrow> loop \<and> b \<noteq> [] \<and> bytes_already_read s = min (length data) (Suc p * page) \<and> inp (usb (fb s)) = drop (Suc p * page) data @ rest \<and>
          content_length c = length b \<and> take (length b) (cache_buf c) = b
      | R_last_wait \<Rightarrow> loop \<and> b = []
      | R_last_blocked \<Rightarrow> loop \<and> b = []
      | R_last_set \<Rightarrow> loop \<and> b = []
      | R_last_signal \<Rightarrow> loop \<and> b = [] \<and> content_length c = 0
      | R_abort k \<Rightarrow> False
      | _ \<Rightarrow> sent_all page data p)"

text \<open>The state of the storage is the specified one, after as many packages as the writer has written.\<close>

definition writer_ok :: "('e, 's) board \<Rightarrow> u8 list \<Rightarrow> ('e, 's) seq_state \<Rightarrow> nat \<Rightarrow> ('e, 's, 'u) engine \<Rightarrow> bool" where
  "writer_ok bd data q c s \<longleftrightarrow>
     flipIdxR s = c mod 2 \<and>
     (case writer_pc s of
        W_last \<Rightarrow> write_seq bd data q (Suc c) = Some (seq_of s)
      | W_release \<Rightarrow> write_seq bd data q (Suc c) = Some (seq_of s) \<and> pkg (bd_page bd) data c \<noteq> []
      | W_abort k \<Rightarrow> False
      | W_finish k \<Rightarrow> False
      | W_done \<Rightarrow> False
      | _ \<Rightarrow> write_seq bd data q c = Some (seq_of s))"

text \<open>While the writer is at work, and from its last package on.\<close>

definition working :: "('e, 's) board \<Rightarrow> ('u \<Rightarrow> u8 list) \<Rightarrow> u8 list \<Rightarrow> u8 list \<Rightarrow> ('e, 's) seq_state \<Rightarrow> nat \<Rightarrow> nat \<Rightarrow> ('e, 's, 'u) engine \<Rightarrow> bool" where
  "working bd inp data rest q p c s \<longleftrightarrow>
     \<not> b_error s \<and> events_ok s \<and> tokens p c s \<and> contents (bd_page bd) data p c s \<and> main_ok (bd_page bd) inp data rest p s \<and>
     writer_ok bd data q c s \<and>
     thr_end_ev s = \<lparr>signalled = False, blocked = (main_pc s = R_end_blocked), autounsignal = True\<rparr> \<and>
     (case main_pc s of R_destroy k \<Rightarrow> False | R_answer \<Rightarrow> False | R_done \<Rightarrow> False | _ \<Rightarrow> True)"

definition written :: "('e, 's) board \<Rightarrow> u8 list \<Rightarrow> ('e, 's) seq_state \<Rightarrow> ('e, 's, 'u) engine \<Rightarrow> bool" where
  "written bd data q s \<longleftrightarrow>
     (\<exists>m off ss pads. full (bd_page bd) data m \<and> pkg (bd_page bd) data m = [] \<and> write_seq bd data q (Suc m) = Some (off, ss, sto_info s, pads))"

definition finishing :: "('e, 's) board \<Rightarrow> u8 list \<Rightarrow> ('e, 's) seq_state \<Rightarrow> ('e, 's, 'u) engine \<Rightarrow> bool" where
  "finishing bd data q s \<longleftrightarrow>
     \<not> b_error s \<and> written bd data q s \<and>
     (case writer_pc s of
        W_finish k \<Rightarrow> main_pc s \<in> {R_end_wait, R_end_blocked} \<and>
          thr_end_ev s = \<lparr>signalled = False, blocked = (main_pc s = R_end_blocked), autounsignal = True\<rparr>
      | W_done \<Rightarrow> (case main_pc s of
            R_end_wait \<Rightarrow> signalled (thr_end_ev s) | R_end_blocked \<Rightarrow> \<not> blocked (thr_end_ev s) | R_destroy k \<Rightarrow> True | R_answer \<Rightarrow> True | R_done \<Rightarrow> True
          | _ \<Rightarrow> False)
      | _ \<Rightarrow> False)"

text \<open>An error has occurred: until \<open>b_error\<close> is set, the reading thread cannot have come to its end.\<close>

definition failing :: "('e, 's, 'u) engine \<Rightarrow> bool" where
  "failing s \<longleftrightarrow> b_error s \<or> main_pc s = R_abort 0 \<or>
     writer_pc s = W_abort 0 \<and> thr_end_ev s = \<lparr>signalled = False, blocked = (main_pc s = R_end_blocked), autounsignal = True\<rparr> \<and>
     (case main_pc s of R_destroy k \<Rightarrow> False | R_answer \<Rightarrow> False | R_done \<Rightarrow> False | R_abort k \<Rightarrow> False | _ \<Rightarrow> True)"

definition engine_inv :: "('e, 's) board \<Rightarrow> ('u \<Rightarrow> u8 list) \<Rightarrow> u8 list \<Rightarrow> u8 list \<Rightarrow> ('e, 's) seq_state \<Rightarrow> ('e, 's, 'u) engine \<Rightarrow> bool" where
  "engine_inv bd inp data rest q s \<longleftrightarrow> failing s \<or> finishing bd data q s \<or> (\<exists>p c. working bd inp data rest q p c s)"

subsection \<open>Updates\<close>

lemma upd_cache_simps [simp]:
  "dual_cache (upd_cache i f s) = (dual_cache s)(i := f (dual_cache s i))"
  "flipIdxR (upd_cache i f s) = flipIdxR s" "flipIdxW (upd_cache i f s) = flipIdxW s" "thr_end_ev (upd_cache i f s) = thr_end_ev s"
  "b_error (upd_cache i f s) = b_error s" "sto_info (upd_cache i f s) = sto_info s" "main_pc (upd_cache i f s) = main_pc s"
  "data_length (upd_cache i f s) = data_length s" "bytes_already_read (upd_cache i f s) = bytes_already_read s"
  "bytes_read (upd_cache i f s) = bytes_read s" "bytes_left (upd_cache i f s) = bytes_left s" "fb (upd_cache i f s) = fb s"
  "writer_pc (upd_cache i f s) = writer_pc s" "image_offset (upd_cache i f s) = image_offset s" "sec_state (upd_cache i f s) = sec_state s"
  by (simp_all add: upd_cache_def)

lemma length_pkg: "length (pkg page data k) = min page (length data - k * page)"
  by (simp add: pkg_def)

lemma pkg_Nil: "0 < page \<Longrightarrow> pkg page data k = [] \<longleftrightarrow> length data \<le> k * page"
  by (auto simp: pkg_def)

lemma full_Suc: "full page data (Suc p) \<longleftrightarrow> full page data p \<and> pkg page data p \<noteq> []"
  by (auto simp: full_def less_Suc_eq)

text \<open>A package that the writer finds empty is the last one.\<close>

lemma empty_is_last:
  assumes "main_ok page inp data rest p s" and "c < p" and "pkg page data c = []" and "\<And>k. main_pc s \<noteq> R_abort k"
  shows "sent_all page data p \<and> p = Suc c \<and> main_pc s \<in> {R_end_wait, R_end_blocked, R_answer, R_done} \<union> range R_destroy"
  using assms
  by (cases "main_pc s") (auto simp: main_ok_def Let_def full_def sent_all_def less_Suc_eq)

subsection \<open>Steps of the reading thread\<close>

lemma seq_of_upd [simp]: "(\<And>c. padding (f c) = padding c) \<Longrightarrow> seq_of (upd_cache i f s) = seq_of s"
  by (auto simp: seq_of_def)

lemma seq_of_simps [simp]:
  "seq_of (s\<lparr>main_pc := x1\<rparr>) = seq_of s" "seq_of (s\<lparr>bytes_already_read := x2\<rparr>) = seq_of s" "seq_of (s\<lparr>bytes_read := x2\<rparr>) = seq_of s"
  "seq_of (s\<lparr>bytes_left := x2\<rparr>) = seq_of s" "seq_of (s\<lparr>fb := x3\<rparr>) = seq_of s" "seq_of (s\<lparr>flipIdxW := x2\<rparr>) = seq_of s"
  "seq_of (s\<lparr>flipIdxR := x2\<rparr>) = seq_of s" "seq_of (s\<lparr>thr_end_ev := x4\<rparr>) = seq_of s" "seq_of (s\<lparr>writer_pc := x5\<rparr>) = seq_of s"
  by (simp_all add: seq_of_def)

lemma events_okD:
  assumes "events_ok s"
  shows "autounsignal (cache_available (dual_cache s i))" "autounsignal (content_available (dual_cache s i))" "flipIdxR s < 2" "flipIdxW s < 2"
    "blocked (cache_available (dual_cache s i)) \<Longrightarrow>
       \<not> signalled (cache_available (dual_cache s i)) \<and> main_pc s \<in> {R_blocked, R_last_blocked} \<and> i = flipIdxW s"
    "blocked (content_available (dual_cache s i)) \<Longrightarrow> \<not> signalled (content_available (dual_cache s i)) \<and> writer_pc s = W_blocked \<and> i = flipIdxR s"
  using assms unfolding events_ok_def by blast+

lemma events_ok_main:
  assumes "events_ok s" and "\<And>j. content_available (dual_cache t j) = content_available (dual_cache s j)"
    and "writer_pc t = writer_pc s" and "flipIdxR t = flipIdxR s" and "flipIdxW t < 2"
    and "\<And>j. autounsignal (cache_available (dual_cache t j))"
    and "\<And>j. blocked (cache_available (dual_cache t j)) \<Longrightarrow>
      \<not> signalled (cache_available (dual_cache t j)) \<and> main_pc t \<in> {R_blocked, R_last_blocked} \<and> j = flipIdxW t"
  shows "events_ok t"
  using events_okD [OF assms(1)] assms(2-) unfolding events_ok_def by presburger

lemma events_ok_writer:
  assumes "events_ok s" and "\<And>j. cache_available (dual_cache t j) = cache_available (dual_cache s j)"
    and "main_pc t = main_pc s" and "flipIdxW t = flipIdxW s" and "flipIdxR t < 2"
    and "\<And>j. autounsignal (content_available (dual_cache t j))"
    and "\<And>j. blocked (content_available (dual_cache t j)) \<Longrightarrow>
      \<not> signalled (content_available (dual_cache t j)) \<and> writer_pc t = W_blocked \<and> j = flipIdxR t"
  shows "events_ok t"
  using events_okD [OF assms(1)] assms(2-) unfolding events_ok_def by presburger

text \<open>What the writer's part of the invariant depends on.\<close>

lemma writer_ok_cong:
  assumes "writer_ok bd data q c s" and "writer_pc t = writer_pc s" and "flipIdxR t = flipIdxR s" and "seq_of t = seq_of s"
  shows "writer_ok bd data q c t"
  using assms by (simp add: writer_ok_def split: writer_pc.splits)

lemma working_pc:
  assumes w: "working bd inp data rest q p c s" and t: "t = s\<lparr>main_pc := pc, bytes_read := br, bytes_left := bl\<rparr>"
    and pcs: "pc \<in> {R_wait, R_last_wait, R_check, R_fill, R_publish, R_last_set}" "main_pc s \<noteq> R_end_blocked"
    and has: "main_has t = main_has s" and nb: "main_pc s \<in> {R_blocked, R_last_blocked} \<Longrightarrow> \<not> blocked (cache_available (dual_cache s (flipIdxW s)))"
    and m: "main_ok (bd_page bd) inp data rest p t"
  shows "working bd inp data rest q p c t"
proof -
  have "writer_has t = writer_has s" by (simp add: writer_has_def t)
  moreover have "events_ok s" using w by (simp add: working_def)
  then have "events_ok t"
    by (rule events_ok_main)
      (use events_okD(4) [OF \<open>events_ok s\<close>] events_okD(5) [OF \<open>events_ok s\<close>] nb in \<open>auto simp: t events_okD(1) [OF \<open>events_ok s\<close>]\<close>)
  moreover have "writer_ok bd data q c t" using w by (auto simp: working_def t elim!: writer_ok_cong)
  ultimately show ?thesis
    using w m has pcs unfolding working_def tokens_def contents_def by (auto simp: t split: main_pc.splits)
qed

lemma working_wait:
  assumes w: "working bd inp data rest q p c s" and pcs: "main_pc s = R_wait \<and> pass = R_check \<and> block = R_blocked \<or>
      main_pc s = R_last_wait \<and> pass = R_last_set \<and> block = R_last_blocked"
  shows "working bd inp data rest q p c (wait_cache pass block s)"
proof -
  let ?i = "p mod 2"
  have i: "flipIdxW s = ?i" "?i < 2" using w pcs by (auto simp: working_def main_ok_def Let_def)
  have nh: "\<not> main_has s" using pcs by (auto simp: main_has_def)
  have ev: "events_ok s" "tokens p c s" using w by (simp_all add: working_def)
  then have pc: "p \<le> c + 2" and sig: "signalled (cache_available (dual_cache s j)) = in_slots p (c + 2) j" if "j < 2" for j
    using nh that by (auto simp: tokens_def Let_def)
  have cp: "c \<le> p" using ev(2) by (auto simp: tokens_def Let_def split: if_splits)
  let ?t = "wait_cache pass block s"
  have wh: "writer_has ?t = writer_has s" by (simp add: wait_cache_def writer_has_def Let_def split: prod.splits)
  have m: "main_ok (bd_page bd) inp data rest p ?t"
    using w pcs i by (auto simp: working_def main_ok_def Let_def wait_cache_def split: prod.splits)
  have wo: "writer_ok bd data q c ?t"
    using w by (auto simp: working_def wait_cache_def Let_def split: prod.splits elim!: writer_ok_cong)
  have rest: "\<not> b_error ?t" "contents (bd_page bd) data p c ?t" "thr_end_ev ?t = \<lparr>signalled = False, blocked = (main_pc ?t = R_end_blocked), autounsignal = True\<rparr>"
    "case main_pc ?t of R_destroy k \<Rightarrow> False | R_answer \<Rightarrow> False | R_done \<Rightarrow> False | _ \<Rightarrow> True"
    using w pcs by (auto simp: working_def contents_def wait_cache_def Let_def split: prod.splits)
  have nb: "\<not> blocked (cache_available (dual_cache s j))" for j using events_okD(5) [OF ev(1), of j] pcs by auto
  have e': "events_ok ?t"
    by (rule events_ok_main [OF ev(1)])
      (use i pcs events_okD(3,4) [OF ev(1)] in \<open>auto simp: wait_cache_def wait_event_def Let_def nb events_okD(1,2) [OF ev(1)] split: if_splits\<close>)
  have tk: "tokens p c ?t"
  proof (cases "signalled (cache_available (dual_cache s ?i))")
    case True
    then have lt: "p < c + 2" using sig [of ?i] i(2) in_slots_first [of "c + 2" p] pc by (metis in_slots_cases(1) linorder_not_less)
    have "main_has ?t" using True i pcs by (auto simp: main_has_def wait_cache_def wait_event_def Let_def)
    moreover have "signalled (cache_available (dual_cache ?t j)) = in_slots (Suc p) (c + 2) j" if "j < 2" for j
      using True i sig [OF that] in_slots_take [OF lt, of j] cp by (auto simp: wait_cache_def wait_event_def Let_def events_okD(1) [OF ev(1)])
    moreover have "content_available (dual_cache ?t j) = content_available (dual_cache s j)" for j
      by (simp add: wait_cache_def Let_def split: prod.splits)
    ultimately show ?thesis using ev(2) wh lt by (simp add: tokens_def Let_def)
  next
    case False
    then have "\<not> main_has ?t" using i pcs by (auto simp: main_has_def wait_cache_def wait_event_def Let_def)
    moreover have "content_available (dual_cache ?t j) = content_available (dual_cache s j)"
      "signalled (cache_available (dual_cache ?t j)) = signalled (cache_available (dual_cache s j))" for j
      using False i by (simp_all add: wait_cache_def wait_event_def Let_def)
    ultimately show ?thesis using ev(2) wh nh by (simp add: tokens_def Let_def)
  qed
  show ?thesis using rest e' tk m wo by (simp add: working_def)
qed

text \<open>A change of the reader's own cache, which is not among those the writer may look at.\<close>

lemma working_own:
  assumes w: "working bd inp data rest q p c s"
    and t: "t = upd_cache (p mod 2) f u" and u: "u = s\<lparr>main_pc := pc, bytes_already_read := ba, bytes_read := br, bytes_left := bl, fb := g\<rparr>"
    and f: "\<And>x. padding (f x) = padding x \<and> content_available (f x) = content_available x \<and> cache_available (f x) = cache_available x"
    and pcs: "main_pc s \<in> {R_fill, R_publish, R_last_set}" "pc \<in> {R_fill, R_signal, R_last_signal}"
    and m: "main_ok (bd_page bd) inp data rest p t"
  shows "working bd inp data rest q p c t"
proof -
  have ev: "events_ok s" "tokens p c s" using w by (simp_all add: working_def)
  have h: "main_has s" "main_has t" "writer_has t = writer_has s"
    using pcs f by (auto simp: main_has_def writer_has_def t u)
  have avail: "cache_available (dual_cache t j) = cache_available (dual_cache s j)" "content_available (dual_cache t j) = content_available (dual_cache s j)" for j
    using f by (auto simp: t u)
  have nb: "\<not> blocked (cache_available (dual_cache s j))" for j using events_okD(5) [OF ev(1), of j] pcs by auto
  have "p < c + 2" using ev(2) h(1) by (simp add: tokens_def Let_def)
  then have "k mod 2 \<noteq> p mod 2" if "c \<le> k" "k < p" for k
    using that by (cases "k = p - 1") (auto simp: mod_Suc split: nat_diff_split)
  then have ct: "contents (bd_page bd) data p c t" using w by (auto simp: working_def contents_def t u)
  have e': "events_ok t"
    by (rule events_ok_main [OF ev(1)])
      (use events_okD(4) [OF ev(1)] in \<open>simp_all add: avail nb events_okD(1) [OF ev(1)]\<close>, simp_all add: t u)
  have "writer_ok bd data q c t" using w f by (auto simp: working_def t u elim!: writer_ok_cong)
  then show ?thesis
    using w m ct e' ev(2) h avail pcs by (auto simp: working_def tokens_def Let_def t u)
qed

lemma working_fill:
  assumes w: "working bd inp data rest q p c s" and pc: "main_pc s = R_fill" and page: "0 < bd_page bd" and d: "udc_stream d inp"
  shows "failing (fill_cache d s) \<or> working bd inp data rest q p c (fill_cache d s)"
proof -
  let ?b = "pkg (bd_page bd) data p"
  obtain r bs fb' where rd: "usb_read d (bytes_left s) (fb s) = (r, bs, fb')" by (cases "usb_read d (bytes_left s) (fb s)")
  note st = usb_read_fails_or_streams [OF d rd]
  have m: "flipIdxW s = p mod 2" "full (bd_page bd) data p" "?b \<noteq> []" "bytes_already_read s = min (length data) (p * bd_page bd)"
    "inp (usb (fb s)) = drop (p * bd_page bd + bytes_read s) data @ rest" "bytes_read s + bytes_left s = length ?b"
    "take (bytes_read s) (cache_buf (dual_cache s (p mod 2))) = take (bytes_read s) ?b" "data_length s = length data"
    "\<And>i. i < 2 \<Longrightarrow> length (cache_buf (dual_cache s i)) = bd_page bd"
    using w pc by (auto simp: working_def main_ok_def Let_def)
  show ?thesis
  proof (cases "r < 0")
    case True
    then show ?thesis using rd by (simp add: failing_def fill_cache_def Let_def)
  next
    case False
    then have bs: "bs = take (bytes_left s) (drop (p * bd_page bd + bytes_read s) data @ rest)"
      "inp (usb fb') = drop (bytes_left s) (drop (p * bd_page bd + bytes_read s) data @ rest)" using st m(5) by auto
    have lb: "bytes_left s \<le> length data - (p * bd_page bd + bytes_read s)" using m(6) by (simp add: length_pkg)
    then have bs': "bs = take (bytes_left s) (drop (bytes_read s) ?b)" "length bs = bytes_left s"
      using bs(1) m(6) by (auto simp: pkg_def drop_take add.commute)
    have nx: "inp (usb fb') = drop (p * bd_page bd + (bytes_read s + bytes_left s)) data @ rest"
      using bs(2) lb by (simp add: add.commute add.left_commute)
    let ?t = "fill_cache d s"
    have t: "?t = upd_cache (p mod 2) (\<lambda>c. c\<lparr>cache_buf := blit (bytes_read s) bs (cache_buf c)\<rparr>)
        (s\<lparr>main_pc := R_fill, bytes_already_read := bytes_already_read s, bytes_read := bytes_read s + length bs, bytes_left := bytes_left s - length bs, fb := fb'\<rparr>)"
      using rd False pc m(1) by (simp add: fill_cache_def upd_cache_def)
    have fits: "bytes_read s + length bs \<le> bd_page bd" using m(6) bs'(2) by (simp add: length_pkg)
    have "take (length ?b) (blit (bytes_read s) bs (cache_buf (dual_cache s (p mod 2)))) = ?b"
      using m(6,7) bs' by (simp add: blit_def)
    then have "main_ok (bd_page bd) inp data rest p ?t"
      using m bs' nx [unfolded m(6)] fits by (simp add: main_ok_def t Let_def)
    then show ?thesis using working_own [OF w t refl] pc by simp
  qed
qed

lemma working_signal:
  assumes w: "working bd inp data rest q p c s" and page: "0 < bd_page bd"
    and pcs: "main_pc s = R_signal \<and> t = (signal_content (p mod 2) s)\<lparr>main_pc := R_head, flipIdxW := Suc p mod 2\<rparr> \<or>
      main_pc s = R_last_signal \<and> t = (signal_content (p mod 2) s)\<lparr>main_pc := R_end_wait\<rparr>"
  shows "working bd inp data rest q (Suc p) c t"
proof -
  let ?i = "p mod 2"
  have ev: "events_ok s" "tokens p c s" and wo: "writer_ok bd data q c s" and m: "main_ok (bd_page bd) inp data rest p s"
    and ct: "contents (bd_page bd) data p c s" using w by (simp_all add: working_def)
  have h: "main_has s" "\<not> main_has t" using pcs by (auto simp: main_has_def signal_content_def)
  have tk: "p < c + 2" "(if writer_has s then Suc c else c) \<le> p"
    "\<And>i. i < 2 \<Longrightarrow> signalled (cache_available (dual_cache s i)) = in_slots (Suc p) (c + 2) i"
    "\<And>i. i < 2 \<Longrightarrow> signalled (content_available (dual_cache s i)) = in_slots (if writer_has s then Suc c else c) p i"
    using ev(2) h(1) by (auto simp: tokens_def Let_def)
  have av: "cache_available (dual_cache t j) = cache_available (dual_cache s j)" "padding (dual_cache t j) = padding (dual_cache s j)"
    "content_length (dual_cache t j) = content_length (dual_cache s j)" "cache_buf (dual_cache t j) = cache_buf (dual_cache s j)"
    "content_available (dual_cache t j) = (if j = ?i then signal_event (content_available (dual_cache s j)) else content_available (dual_cache s j))" for j
    using pcs by (auto simp: signal_content_def)
  have same: "writer_pc t = writer_pc s" "flipIdxR t = flipIdxR s" "seq_of t = seq_of s" "b_error t = b_error s" "thr_end_ev t = thr_end_ev s"
    "data_length t = data_length s" "bytes_already_read t = bytes_already_read s" "fb t = fb s"
    using pcs by (auto simp: signal_content_def)
  have nsig: "\<not> signalled (content_available (dual_cache s ?i))"
    using tk in_slots_last [of p "if writer_has s then Suc c else c"] by (auto split: if_splits)
  have mt: "main_ok (bd_page bd) inp data rest (Suc p) t"
    using m pcs by (auto simp: main_ok_def Let_def av same sent_all_def full_Suc)
  have ct': "contents (bd_page bd) data (Suc p) c t"
    using ct m pcs by (auto simp: contents_def av less_Suc_eq main_ok_def Let_def)
  have nb: "\<not> blocked (cache_available (dual_cache s j))" for j using events_okD(5) [OF ev(1), of j] pcs by auto
  have e': "events_ok t"
    unfolding events_ok_def
    using events_okD(3,4) [OF ev(1)] events_okD(6) [OF ev(1)] pcs
    by (auto simp: av same nb events_okD(1,2) [OF ev(1)] signal_event_def signal_content_def)
  have wh: "writer_has t \<longleftrightarrow> writer_has s \<or> blocked (content_available (dual_cache s ?i))"
    using events_okD(6) [OF ev(1), of ?i] nsig by (auto simp: writer_has_def av same signal_event_def events_okD(2) [OF ev(1)])
  have "tokens (Suc p) c t"
  proof (cases "blocked (content_available (dual_cache s ?i))")
    case True
    then have b: "writer_pc s = W_blocked" "?i = flipIdxR s" using events_okD(6) [OF ev(1)] by auto
    then have nw: "\<not> writer_has s" and "c mod 2 = p mod 2" using True wo by (auto simp: writer_has_def writer_ok_def)
    then have "p = c" using tk(1,2) by (cases "p = Suc c") auto
    then show ?thesis
      using tk nw True wh h nsig by (auto simp: tokens_def Let_def av signal_event_def events_okD(2) [OF ev(1)] in_slots_cases)
  next
    case False
    then have "writer_has t = writer_has s" using wh by simp
    then show ?thesis
      using tk h False nsig in_slots_put [OF tk(2)]
      by (auto simp: tokens_def Let_def av signal_event_def events_okD(2) [OF ev(1)])
  qed
  then show ?thesis using w mt ct' e' writer_ok_cong [OF wo same(1-3)] pcs by (auto simp: working_def same)
qed

lemma working_end_wait:
  assumes w: "working bd inp data rest q p c s" and pc: "main_pc s = R_end_wait"
  shows "working bd inp data rest q p c (s\<lparr>thr_end_ev := (thr_end_ev s)\<lparr>blocked := True\<rparr>, main_pc := R_end_blocked\<rparr>)"
proof -
  let ?t = "s\<lparr>thr_end_ev := (thr_end_ev s)\<lparr>blocked := True\<rparr>, main_pc := R_end_blocked\<rparr>"
  have ev: "events_ok s" using w by (simp add: working_def)
  have nb: "\<not> blocked (cache_available (dual_cache s j))" for j using events_okD(5) [OF ev, of j] pc by auto
  have "events_ok ?t" by (rule events_ok_main [OF ev]) (use events_okD(4) [OF ev] in \<open>simp_all add: nb events_okD(1) [OF ev]\<close>)
  moreover have "main_has ?t = main_has s" "writer_has ?t = writer_has s" using pc by (simp_all add: main_has_def writer_has_def)
  moreover have "writer_ok bd data q c ?t" using w by (auto simp: working_def elim!: writer_ok_cong)
  ultimately show ?thesis using w pc by (auto simp: working_def tokens_def contents_def main_ok_def Let_def)
qed

lemma working_main:
  assumes w: "working bd inp data rest q p c s" and page: "0 < bd_page bd" and d: "udc_stream d inp" and st: "main_step bd d s = Some t"
  shows "failing t \<or> (\<exists>p'. working bd inp data rest q p' c t)"
proof -
  have m: "main_ok (bd_page bd) inp data rest p s" and ne: "\<not> b_error s" using w by (simp_all add: working_def)
  note pcI = working_pc [OF w, where br = "bytes_read s" and bl = "bytes_left s"]
  show ?thesis
  proof (cases "main_pc s")
    case R_head
    then have h: "bytes_already_read s = min (length data) (p * bd_page bd)" "full (bd_page bd) data p" "data_length s = length data"
      using m by (auto simp: main_ok_def Let_def)
    show ?thesis
    proof (cases "length data \<le> p * bd_page bd")
      case True
      then have t: "t = s\<lparr>main_pc := R_last_wait\<rparr>" using st R_head h by (auto simp: main_step_def)
      have "working bd inp data rest q p c t"
        by (rule pcI) (use t R_head m True in \<open>auto simp: main_has_def main_ok_def Let_def pkg_Nil [OF page]\<close>)
      then show ?thesis by blast
    next
      case False
      then have t: "t = s\<lparr>main_pc := R_wait\<rparr>" using st R_head h by (auto simp: main_step_def)
      have "working bd inp data rest q p c t"
        by (rule pcI) (use t R_head m False in \<open>auto simp: main_has_def main_ok_def Let_def pkg_Nil [OF page]\<close>)
      then show ?thesis by blast
    qed
  next
    case R_wait
    then show ?thesis using st working_wait [OF w, of R_check R_blocked] by (auto simp: main_step_def)
  next
    case R_blocked
    then have t: "t = s\<lparr>main_pc := R_check\<rparr>" "\<not> blocked (cache_available (dual_cache s (flipIdxW s)))"
      using st by (auto simp: main_step_def split: if_splits)
    have "working bd inp data rest q p c t"
      by (rule pcI) (use t R_blocked m in \<open>auto simp: main_has_def main_ok_def Let_def\<close>)
    then show ?thesis by blast
  next
    case R_check
    let ?left = "length (pkg (bd_page bd) data p)"
    have h: "bytes_already_read s = min (length data) (p * bd_page bd)" "data_length s = length data" "pkg (bd_page bd) data p \<noteq> []"
      using m R_check by (auto simp: main_ok_def Let_def)
    then have "bytes_already_read s = p * bd_page bd" by (simp add: pkg_Nil [OF page])
    then have t: "t = s\<lparr>main_pc := R_fill, bytes_read := 0, bytes_left := ?left\<rparr>"
      using st R_check ne h(2) by (auto simp: main_step_def Let_def length_pkg min_def)
    have "working bd inp data rest q p c t"
      by (rule working_pc [OF w t]) (use t R_check m in \<open>auto simp: main_has_def main_ok_def Let_def\<close>)
    then show ?thesis by blast
  next
    case R_fill
    show ?thesis
    proof (cases "bytes_left s > 0")
      case True
      then have "t = fill_cache d s" using st R_fill by (simp add: main_step_def)
      then show ?thesis using working_fill [OF w R_fill page d] by blast
    next
      case False
      then have t: "t = s\<lparr>main_pc := R_publish\<rparr>" using st R_fill by (simp add: main_step_def)
      have "working bd inp data rest q p c t"
        by (rule pcI) (use t R_fill m False in \<open>auto simp: main_has_def main_ok_def Let_def\<close>)
      then show ?thesis by blast
    qed
  next
    case R_publish
    let ?b = "pkg (bd_page bd) data p"
    have h: "flipIdxW s = p mod 2" "bytes_already_read s = min (length data) (p * bd_page bd)" "?b \<noteq> []" "bytes_read s = length ?b"
      "inp (usb (fb s)) = drop (p * bd_page bd + length ?b) data @ rest"
      using m R_publish by (auto simp: main_ok_def Let_def)
    have t: "t = upd_cache (p mod 2) (\<lambda>c. c\<lparr>content_length := bytes_read s\<rparr>)
        (s\<lparr>main_pc := R_signal, bytes_already_read := bytes_already_read s + bytes_read s, bytes_read := bytes_read s, bytes_left := bytes_left s, fb := fb s\<rparr>)"
      using st R_publish h(1) by (simp add: main_step_def upd_cache_def)
    have "drop (p * bd_page bd + length ?b) data = drop (Suc p * bd_page bd) data"
      by (auto simp: length_pkg min_def add.commute)
    moreover have "bytes_already_read s + bytes_read s = min (length data) (Suc p * bd_page bd)"
      using h(2-4) by (auto simp: length_pkg pkg_Nil [OF page] min_def)
    ultimately have "main_ok (bd_page bd) inp data rest p t" using m R_publish h by (auto simp: main_ok_def Let_def t)
    then show ?thesis using working_own [OF w t refl] R_publish by auto
  next
    case R_signal
    then have "flipIdxW s = p mod 2" using m by (simp add: main_ok_def Let_def)
    then show ?thesis using R_signal st working_signal [OF w page, of t] by (auto simp: main_step_def)
  next
    case R_last_wait
    then show ?thesis using st working_wait [OF w, of R_last_set R_last_blocked] by (auto simp: main_step_def)
  next
    case R_last_blocked
    then have t: "t = s\<lparr>main_pc := R_last_set\<rparr>" "\<not> blocked (cache_available (dual_cache s (flipIdxW s)))"
      using st by (auto simp: main_step_def split: if_splits)
    have "working bd inp data rest q p c t"
      by (rule pcI) (use t R_last_blocked m in \<open>auto simp: main_has_def main_ok_def Let_def\<close>)
    then show ?thesis by blast
  next
    case R_last_set
    have h: "flipIdxW s = p mod 2" using m R_last_set by (auto simp: main_ok_def Let_def)
    have t: "t = upd_cache (p mod 2) (\<lambda>c. c\<lparr>content_length := 0\<rparr>)
        (s\<lparr>main_pc := R_last_signal, bytes_already_read := bytes_already_read s, bytes_read := bytes_read s, bytes_left := bytes_left s, fb := fb s\<rparr>)"
      using st R_last_set h by (simp add: main_step_def upd_cache_def)
    have "main_ok (bd_page bd) inp data rest p t" using m R_last_set by (auto simp: main_ok_def Let_def t)
    then show ?thesis using working_own [OF w t refl] R_last_set by auto
  next
    case R_last_signal
    then have "flipIdxW s = p mod 2" using m by (simp add: main_ok_def Let_def)
    then show ?thesis using R_last_signal st working_signal [OF w page, of t] by (auto simp: main_step_def)
  next
    case R_end_wait
    then have "t = s\<lparr>thr_end_ev := (thr_end_ev s)\<lparr>blocked := True\<rparr>, main_pc := R_end_blocked\<rparr>"
      using st w by (auto simp: main_step_def wait_event_def working_def)
    then show ?thesis using working_end_wait [OF w R_end_wait] by auto
  next
    case R_end_blocked
    then show ?thesis using st w by (auto simp: main_step_def working_def)
  qed (use w m in \<open>auto simp: working_def main_ok_def Let_def\<close>)
qed

subsection \<open>Steps of the writing thread\<close>

lemma main_ok_cong:
  assumes "main_ok page inp data rest p s" and "main_pc t = main_pc s" and "flipIdxW t = flipIdxW s" and "fb t = fb s"
    and "data_length t = data_length s" and "bytes_already_read t = bytes_already_read s" and "bytes_read t = bytes_read s" and "bytes_left t = bytes_left s"
    and "\<And>j. cache_buf (dual_cache t j) = cache_buf (dual_cache s j)" and "\<And>j. content_length (dual_cache t j) = content_length (dual_cache s j)"
  shows "main_ok page inp data rest p t"
  using assms(1) by (simp add: main_ok_def Let_def assms(2-) split: main_pc.splits)

text \<open>A step of the writer that leaves the events of the caches alone.\<close>

lemma working_writes:
  assumes w: "working bd inp data rest q p c s"
    and same: "main_pc t = main_pc s" "flipIdxW t = flipIdxW s" "fb t = fb s" "data_length t = data_length s" "b_error t = b_error s"
      "bytes_already_read t = bytes_already_read s" "bytes_read t = bytes_read s" "bytes_left t = bytes_left s" "thr_end_ev t = thr_end_ev s"
      "flipIdxR t = flipIdxR s"
    and cache: "\<And>j. cache_buf (dual_cache t j) = cache_buf (dual_cache s j)" "\<And>j. content_length (dual_cache t j) = content_length (dual_cache s j)"
      "\<And>j. content_available (dual_cache t j) = content_available (dual_cache s j)" "\<And>j. cache_available (dual_cache t j) = cache_available (dual_cache s j)"
    and has: "writer_has t = writer_has s" and nb: "\<not> blocked (content_available (dual_cache s (flipIdxR s)))"
    and wo: "writer_ok bd data q c t"
  shows "working bd inp data rest q p c t"
proof -
  have ev: "events_ok s" using w by (simp add: working_def)
  have nb': "\<not> blocked (content_available (dual_cache s j))" for j using events_okD(6) [OF ev, of j] nb by auto
  have "events_ok t"
    by (rule events_ok_writer [OF ev]) (use events_okD(3) [OF ev] in \<open>simp_all add: cache same nb' events_okD(2) [OF ev]\<close>)
  moreover have "main_has t = main_has s" by (simp add: main_has_def same cache)
  moreover have "main_ok (bd_page bd) inp data rest p t" by (rule main_ok_cong) (use w in \<open>simp_all add: working_def same cache\<close>)
  ultimately show ?thesis using w wo has by (simp add: working_def tokens_def contents_def Let_def same cache)
qed

lemma working_writer_wait:
  assumes w: "working bd inp data rest q p c s" and pc: "writer_pc s = W_wait" and st: "writer_step bd s = Some t"
  shows "working bd inp data rest q p c t"
proof -
  let ?i = "c mod 2"
  have ev: "events_ok s" "tokens p c s" and i: "flipIdxR s = ?i" and wo: "writer_ok bd data q c s" using w by (auto simp: working_def writer_ok_def)
  have nh: "\<not> writer_has s" using pc by (simp add: writer_has_def)
  have tk: "c \<le> p" "(if main_has s then Suc p else p) \<le> c + 2"
    "\<And>j. j < 2 \<Longrightarrow> signalled (content_available (dual_cache s j)) = in_slots c p j" using ev(2) nh by (auto simp: tokens_def Let_def)
  have pc2: "p \<le> c + 2" using tk(2) by (auto split: if_splits)
  have nb: "\<not> blocked (content_available (dual_cache s j))" for j using events_okD(6) [OF ev(1), of j] pc by auto
  have t: "t = upd_cache ?i (\<lambda>x. x\<lparr>content_available := snd (wait_event (content_available (dual_cache s ?i)))\<rparr>)
      (s\<lparr>writer_pc := (if signalled (content_available (dual_cache s ?i)) then W_check else W_blocked)\<rparr>)"
    using st pc i by (auto simp: writer_step_def Let_def wait_event_def)
  have cache: "cache_buf (dual_cache t j) = cache_buf (dual_cache s j)" "content_length (dual_cache t j) = content_length (dual_cache s j)"
    "cache_available (dual_cache t j) = cache_available (dual_cache s j)" for j by (simp_all add: t)
  have e': "events_ok t"
    by (rule events_ok_writer [OF ev(1)])
      (use events_okD(3) [OF ev(1)] in \<open>auto simp: t wait_event_def nb i events_okD(2) [OF ev(1)] split: if_splits\<close>)
  have mh: "main_has t = main_has s" by (simp add: main_has_def t)
  have m: "main_ok (bd_page bd) inp data rest p t" by (rule main_ok_cong [of _ _ _ _ _ s]) (use w in \<open>auto simp: working_def t\<close>)
  have wo': "writer_ok bd data q c t" using wo pc by (simp add: writer_ok_def t)
  have "tokens p c t"
  proof (cases "signalled (content_available (dual_cache s ?i))")
    case True
    then have lt: "c < p" using tk(3) [of ?i] in_slots_cases(1) [of p c] by (metis linorder_not_less mod_less_divisor zero_less_numeral)
    have "writer_has t" using True by (simp add: writer_has_def t)
    moreover have "signalled (content_available (dual_cache t j)) = in_slots (Suc c) p j" if "j < 2" for j
      using True tk(3) [OF that] in_slots_take [OF lt pc2, of j] by (auto simp: t wait_event_def events_okD(2) [OF ev(1)])
    ultimately show ?thesis using ev(2) mh lt by (simp add: tokens_def Let_def cache)
  next
    case False
    then have "\<not> writer_has t" using i by (simp add: writer_has_def t wait_event_def)
    then show ?thesis using ev(2) mh nh False by (auto simp: tokens_def Let_def cache t wait_event_def)
  qed
  then show ?thesis using w e' m wo' by (simp add: working_def contents_def cache) (simp add: t)
qed

lemma working_release:
  assumes w: "working bd inp data rest q p c s" and pc: "writer_pc s = W_release" and st: "writer_step bd s = Some t"
  shows "working bd inp data rest q p (Suc c) t"
proof -
  let ?i = "c mod 2"
  have ev: "events_ok s" "tokens p c s" and i: "flipIdxR s = ?i" and wo: "writer_ok bd data q c s" and m: "main_ok (bd_page bd) inp data rest p s"
    and ct: "contents (bd_page bd) data p c s" using w by (auto simp: working_def writer_ok_def)
  have t: "t = (signal_cache ?i s)\<lparr>writer_pc := W_wait, flipIdxR := Suc c mod 2\<rparr>" using st pc i by (simp add: writer_step_def)
  have h: "writer_has s" "\<not> writer_has t" using pc by (auto simp: writer_has_def t signal_cache_def)
  have tk: "c < p" "(if main_has s then Suc p else p) \<le> c + 2"
    "\<And>i. i < 2 \<Longrightarrow> signalled (content_available (dual_cache s i)) = in_slots (Suc c) p i"
    "\<And>i. i < 2 \<Longrightarrow> signalled (cache_available (dual_cache s i)) = in_slots (if main_has s then Suc p else p) (c + 2) i"
    using ev(2) h(1) by (auto simp: tokens_def Let_def)
  have av: "content_available (dual_cache t j) = content_available (dual_cache s j)"
    "content_length (dual_cache t j) = content_length (dual_cache s j)" "cache_buf (dual_cache t j) = cache_buf (dual_cache s j)"
    "cache_available (dual_cache t j) = (if j = ?i then signal_event (cache_available (dual_cache s j)) else cache_available (dual_cache s j))" for j
    by (auto simp: t signal_cache_def)
  have same: "main_pc t = main_pc s" "flipIdxW t = flipIdxW s" "fb t = fb s" "data_length t = data_length s" "b_error t = b_error s"
    "bytes_already_read t = bytes_already_read s" "bytes_read t = bytes_read s" "bytes_left t = bytes_left s" "thr_end_ev t = thr_end_ev s" "seq_of t = seq_of s"
    by (auto simp: t signal_cache_def)
  have nsig: "\<not> signalled (cache_available (dual_cache s ?i))"
  proof
    assume "signalled (cache_available (dual_cache s ?i))"
    then obtain k where "(if main_has s then Suc p else p) \<le> k" "k < c + 2" "k mod 2 = ?i" using tk(4) [of ?i] by (auto simp: in_slots_def)
    then have "k = Suc c" using tk(1) by (auto split: if_splits)
    then show False using \<open>k mod 2 = ?i\<close> by simp
  qed
  have mt: "main_ok (bd_page bd) inp data rest p t" by (rule main_ok_cong [OF m same(1-4,6-8) av(3,2)])
  have ct': "contents (bd_page bd) data p (Suc c) t" using ct by (auto simp: contents_def av)
  have nb: "\<not> blocked (content_available (dual_cache s j))" for j using events_okD(6) [OF ev(1), of j] pc by auto
  have e': "events_ok t"
    unfolding events_ok_def
    using events_okD(3,4) [OF ev(1)] events_okD(5) [OF ev(1)]
    by (auto simp: av same nb events_okD(1,2) [OF ev(1)] signal_event_def) (auto simp: t)
  have wo': "writer_ok bd data q (Suc c) t" using wo pc unfolding writer_ok_def same(10) by (simp add: t)
  have mh: "main_has t \<longleftrightarrow> main_has s \<or> blocked (cache_available (dual_cache s ?i))"
    using events_okD(5) [OF ev(1), of ?i] nsig by (auto simp: main_has_def av same signal_event_def events_okD(1) [OF ev(1)])
  have "tokens p (Suc c) t"
  proof (cases "blocked (cache_available (dual_cache s ?i))")
    case True
    then have b: "main_pc s \<in> {R_blocked, R_last_blocked}" "?i = flipIdxW s" using events_okD(5) [OF ev(1)] by auto
    then have nm: "\<not> main_has s" and "c mod 2 = p mod 2" using True m by (auto simp: main_has_def main_ok_def Let_def)
    then have "p = c + 2" using tk(1,2) by (cases "p = Suc c") auto
    then show ?thesis
      using tk nm True mh h nsig by (auto simp: tokens_def Let_def av signal_event_def events_okD(1) [OF ev(1)] in_slots_cases)
  next
    case False
    then have "main_has t = main_has s" using mh by simp
    moreover have "(c + 2) mod 2 = ?i" by simp
    ultimately show ?thesis
      using tk h False nsig in_slots_put [OF tk(2)]
      by (auto simp: tokens_def Let_def av signal_event_def events_okD(1) [OF ev(1)])
  qed
  then show ?thesis using w mt ct' e' wo' by (simp add: working_def same)
qed

lemma working_write:
  assumes w: "working bd inp data rest q p c s" and pc: "writer_pc s = W_write" and st: "writer_step bd s = Some t"
  shows "failing t \<or> working bd inp data rest q p c t"
proof -
  let ?b = "pkg (bd_page bd) data c"
  have ev: "events_ok s" "tokens p c s" and i: "flipIdxR s = c mod 2" and wo: "write_seq bd data q c = Some (seq_of s)"
    and ct: "contents (bd_page bd) data p c s" using w pc by (auto simp: working_def writer_ok_def)
  have "c < p" using ev(2) pc by (auto simp: tokens_def Let_def writer_has_def)
  then have content: "take (content_length (dual_cache s (c mod 2))) (cache_buf (dual_cache s (c mod 2))) = ?b" using ct by (auto simp: contents_def)
  obtain ok pad' off ss sto where r: "write_round bd ?b (padding (dual_cache s (c mod 2))) (image_offset s) (sec_state s) (sto_info s) = Some (ok, pad', off, ss, sto)"
    and t: "t = (case pad' of None \<Rightarrow> s\<lparr>image_offset := off, sec_state := ss, sto_info := sto, writer_pc := (if ok then W_last else W_abort 0)\<rparr>
      | Some x \<Rightarrow> upd_cache (cache_shift (c mod 2)) (\<lambda>c. c\<lparr>padding := x\<rparr>)
          (s\<lparr>image_offset := off, sec_state := ss, sto_info := sto, writer_pc := (if ok then W_last else W_abort 0)\<rparr>))"
    using st pc i content by (auto simp: writer_step_def write_step_def Let_def bind_eq_Some_conv)
  have nb: "\<not> blocked (content_available (dual_cache s (flipIdxR s)))" using events_okD(6) [OF ev(1), of "flipIdxR s"] pc by auto
  have th: "thr_end_ev s = \<lparr>signalled = False, blocked = (main_pc s = R_end_blocked), autounsignal = True\<rparr>"
    "case main_pc s of R_destroy k \<Rightarrow> False | R_answer \<Rightarrow> False | R_done \<Rightarrow> False | R_abort k \<Rightarrow> False | _ \<Rightarrow> True"
    using w by (auto simp: working_def main_ok_def Let_def split: main_pc.splits)
  show ?thesis
  proof (cases ok)
    case False
    then show ?thesis using th by (auto simp: failing_def t split: option.splits main_pc.splits)
  next
    case True
    have "write_seq bd data q (Suc c) = Some (seq_of t)"
      using wo r True by (cases pad') (auto simp: seq_of_def t)
    moreover have "writer_pc t = W_last" "flipIdxR t = flipIdxR s" using True by (auto simp: t split: option.splits)
    ultimately have wo': "writer_ok bd data q c t" using i by (simp add: writer_ok_def)
    have "working bd inp data rest q p c t"
      by (rule working_writes [OF w]) (use wo' nb pc True in \<open>auto simp: t writer_has_def split: option.splits\<close>)
    then show ?thesis by blast
  qed
qed

lemma working_last:
  assumes w: "working bd inp data rest q p c s" and pc: "writer_pc s = W_last" and st: "writer_step bd s = Some t"
  shows "finishing bd data q t \<or> working bd inp data rest q p c t"
proof -
  have ev: "events_ok s" "tokens p c s" and i: "flipIdxR s = c mod 2" and wo: "write_seq bd data q (Suc c) = Some (seq_of s)"
    and ct: "contents (bd_page bd) data p c s" and m: "main_ok (bd_page bd) inp data rest p s" using w pc by (auto simp: working_def writer_ok_def)
  have cp: "c < p" using ev(2) pc by (auto simp: tokens_def Let_def writer_has_def)
  then have len: "content_length (dual_cache s (c mod 2)) = length (pkg (bd_page bd) data c)" using ct by (auto simp: contents_def)
  show ?thesis
  proof (cases "pkg (bd_page bd) data c = []")
    case True
    then have t: "t = finish_write bd s" using st pc i len by (simp add: writer_step_def)
    have "main_pc s \<noteq> R_abort k" for k using m by (auto simp: main_ok_def Let_def)
    then have l: "sent_all (bd_page bd) data p" "p = Suc c" "main_pc s \<in> {R_end_wait, R_end_blocked}"
      using empty_is_last [OF m cp True] w by (auto simp: working_def)
    have "written bd data q t"
      unfolding written_def
      by (rule exI [of _ c]) (use l wo in \<open>auto simp: sent_all_def seq_of_def t finish_write_def Let_def simp del: write_seq.simps\<close>)
    then show ?thesis using w l(3) by (auto simp: finishing_def working_def t finish_write_def Let_def)
  next
    case False
    then have t: "t = s\<lparr>writer_pc := W_release\<rparr>" using st pc i len by (simp add: writer_step_def)
    have nb: "\<not> blocked (content_available (dual_cache s (flipIdxR s)))" using events_okD(6) [OF ev(1), of "flipIdxR s"] pc by auto
    have "writer_ok bd data q c t" using wo False i by (simp add: writer_ok_def t del: write_seq.simps)
    then have "working bd inp data rest q p c t"
      by (intro working_writes [OF w]) (use nb pc in \<open>auto simp: t writer_has_def\<close>)
    then show ?thesis by blast
  qed
qed

lemma working_writer:
  assumes w: "working bd inp data rest q p c s" and st: "writer_step bd s = Some t"
  shows "failing t \<or> finishing bd data q t \<or> (\<exists>c'. working bd inp data rest q p c' t)"
proof (cases "writer_pc s")
  case W_wait
  then show ?thesis using working_writer_wait [OF w W_wait st] by blast
next
  case W_blocked
  then have t: "t = s\<lparr>writer_pc := W_check\<rparr>" "\<not> blocked (content_available (dual_cache s (flipIdxR s)))"
    using st by (auto simp: writer_step_def split: if_splits)
  have "writer_ok bd data q c t" using w W_blocked by (simp add: working_def writer_ok_def t)
  then have "working bd inp data rest q p c t"
    by (intro working_writes [OF w]) (use t(2) W_blocked in \<open>auto simp: t(1) writer_has_def\<close>)
  then show ?thesis by blast
next
  case W_check
  then have t: "t = s\<lparr>writer_pc := W_write\<rparr>" using st w by (auto simp: writer_step_def working_def)
  have "\<not> blocked (content_available (dual_cache s (flipIdxR s)))"
    using w events_okD(6) [of s "flipIdxR s"] W_check by (auto simp: working_def)
  moreover have "writer_ok bd data q c t" using w W_check by (simp add: working_def writer_ok_def t)
  ultimately have "working bd inp data rest q p c t"
    by (intro working_writes [OF w]) (use W_check in \<open>auto simp: t writer_has_def\<close>)
  then show ?thesis by blast
next
  case W_write
  then show ?thesis using working_write [OF w W_write st] by blast
next
  case W_last
  then show ?thesis using working_last [OF w W_last st] by blast
next
  case W_release
  then show ?thesis using working_release [OF w W_release st] by blast
qed (use w in \<open>auto simp: working_def writer_ok_def\<close>)

subsection \<open>Every reachable state\<close>

lemma signal_simps [simp]:
  "b_error (signal_cache i s) = b_error s" "b_error (signal_content i s) = b_error s" "b_error (signal_end s) = b_error s"
  "main_pc (signal_cache i s) = main_pc s" "main_pc (signal_content i s) = main_pc s" "main_pc (signal_end s) = main_pc s"
  "writer_pc (signal_cache i s) = writer_pc s" "writer_pc (signal_content i s) = writer_pc s" "writer_pc (signal_end s) = writer_pc s"
  "sto_info (signal_cache i s) = sto_info s" "sto_info (signal_content i s) = sto_info s" "sto_info (signal_end s) = sto_info s"
  "thr_end_ev (signal_cache i s) = thr_end_ev s" "thr_end_ev (signal_content i s) = thr_end_ev s"
  "thr_end_ev (signal_end s) = signal_event (thr_end_ev s)"
  by (simp_all add: signal_cache_def signal_content_def signal_end_def)

lemma abort_simps [simp]:
  "b_error (abort_engine k s) \<longleftrightarrow> b_error s \<or> k = 0" "main_pc (abort_engine k s) = main_pc s" "writer_pc (abort_engine k s) = writer_pc s"
  "b_error (destroy_engine k s) = b_error s" "main_pc (destroy_engine k s) = main_pc s" "writer_pc (destroy_engine k s) = writer_pc s"
  "sto_info (destroy_engine k s) = sto_info s" "sto_info (abort_engine k s) = sto_info s"
  by (simp_all add: abort_engine_def destroy_engine_def)

lemma wait_cache_simps [simp]:
  "b_error (wait_cache x y s) = b_error s" "writer_pc (wait_cache x y s) = writer_pc s" "thr_end_ev (wait_cache x y s) = thr_end_ev s"
  "main_pc (wait_cache x y s) = (if signalled (cache_available (dual_cache s (flipIdxW s))) then x else y)"
  by (simp_all add: wait_cache_def wait_event_def Let_def)

lemma fill_cache_simps [simp]:
  "b_error (fill_cache d s) = b_error s" "writer_pc (fill_cache d s) = writer_pc s" "thr_end_ev (fill_cache d s) = thr_end_ev s"
  "main_pc (fill_cache d s) = (if fst (usb_read d (bytes_left s) (fb s)) < 0 then R_abort 0 else main_pc s)"
  by (simp_all add: fill_cache_def Let_def split: prod.split)

lemma finish_write_simps [simp]:
  "b_error (finish_write bd s) = b_error s" "writer_pc (finish_write bd s) = W_finish 0" "main_pc (finish_write bd s) = main_pc s"
  by (simp_all add: finish_write_def Let_def)

lemma write_step_simps:
  "write_step bd s = Some t \<Longrightarrow> b_error t = b_error s \<and> main_pc t = main_pc s"
  by (auto simp: write_step_def Let_def bind_eq_Some_conv split: option.splits)

lemma main_step_frame: "main_step bd d s = Some t \<Longrightarrow> (b_error s \<longrightarrow> b_error t) \<and> writer_pc t = writer_pc s"
  by (cases "main_pc s") (auto simp: main_step_def wait_event_def split: if_splits)

lemma writer_step_frame: "writer_step bd s = Some t \<Longrightarrow> (b_error s \<longrightarrow> b_error t) \<and> main_pc t = main_pc s"
  by (cases "writer_pc s") (auto simp: writer_step_def wait_event_def Let_def dest: write_step_simps split: if_splits)

lemma finishing_step:
  assumes f: "finishing bd data q s" and st: "engine_step bd d s t"
  shows "finishing bd data q t"
  using st
proof cases
  case main
  then show ?thesis using f
    by (cases "main_pc s"; cases "writer_pc s") (auto simp: main_step_def finishing_def written_def wait_event_def split: if_splits)
next
  case writer
  then show ?thesis using f
    by (cases "writer_pc s"; cases "main_pc s") (auto simp: writer_step_def finishing_def written_def signal_event_def split: if_splits)
qed

lemma failing_step:
  assumes f: "failing s" and st: "engine_step bd d s t"
  shows "failing t"
  using st
proof cases
  case main
  show ?thesis
  proof (cases "b_error s \<or> main_pc s = R_abort 0")
    case True
    then have "b_error t" using main main_step_frame [OF main] by (auto simp: main_step_def)
    then show ?thesis by (simp add: failing_def)
  next
    case False
    then show ?thesis using f main main_step_frame [OF main]
      by (cases "main_pc s") (auto simp: failing_def main_step_def wait_event_def split: if_splits)
  qed
next
  case writer
  show ?thesis
  proof (cases "b_error s \<or> main_pc s = R_abort 0")
    case True
    then show ?thesis using writer_step_frame [OF writer] by (auto simp: failing_def)
  next
    case False
    then show ?thesis using f writer by (auto simp: failing_def writer_step_def split: main_pc.splits)
  qed
qed

lemma engine_inv_step:
  assumes "engine_inv bd inp data rest q s" and "0 < bd_page bd" and "udc_stream d inp" and st: "engine_step bd d s t"
  shows "engine_inv bd inp data rest q t"
  using assms(1) unfolding engine_inv_def
proof (elim disjE exE)
  fix p c
  assume w: "working bd inp data rest q p c s"
  from st show "failing t \<or> finishing bd data q t \<or> (\<exists>p c. working bd inp data rest q p c t)"
  proof cases
    case main
    then show ?thesis using working_main [OF w assms(2,3)] by blast
  next
    case writer
    then show ?thesis using working_writer [OF w] by blast
  qed
qed (use failing_step [OF _ st] finishing_step [OF _ st] in blast)+

end
