(* ===== verification/LK_Engine_Props.thy ===== *)
theory LK_Engine_Props
  imports LK_Engine_Inv LK_Example
begin

text \<open>
  The properties of the download engine: what a run that ends without an error has written, and what
  can be left behind by one that ends with an error.
\<close>

subsection \<open>Runs\<close>

abbreviation engine_steps :: "('e, 's) board \<Rightarrow> 'u udc \<Rightarrow> ('e, 's, 'u) engine \<Rightarrow> ('e, 's, 'u) engine \<Rightarrow> bool" where
  "engine_steps bd d \<equiv> (engine_step bd d)\<^sup>*\<^sup>*"

lemma init_working:
  assumes "length data = len" and "inp (usb (fb s)) = data @ rest" and "\<forall>i<2. length (cache_buf (dual_cache s i)) = bd_page bd"
  shows "working bd inp data rest (seq_of (init_engine len s)) 0 0 (init_engine len s)"
proof -
  have "in_slots 0 (Suc (Suc 0)) i \<longleftrightarrow> i < 2" for i by (rule in_slots_cases(3))
  moreover have "\<not> in_slots 0 0 i" for i by (simp add: in_slots_cases)
  ultimately show ?thesis
    using assms
    by (simp add: working_def events_ok_def tokens_def contents_def main_ok_def writer_ok_def full_def main_has_def writer_has_def
      init_engine_def init_cache_def init_event_def Let_def)
qed

lemma run_inv:
  assumes "engine_steps bd d s t" and "engine_inv bd inp data rest q s" and "0 < bd_page bd" and "udc_stream d inp"
  shows "engine_inv bd inp data rest q t"
  using assms(1,2)
proof (induction rule: rtranclp_induct)
  case (step y z)
  then show ?case using engine_inv_step [OF _ assms(3,4) step.hyps(2)] by blast
qed simp

lemma concat_pkg: "concat (map (pkg page data) [0..<m]) = take (m * page) data"
proof (induction m)
  case (Suc m)
  then show ?case using take_add [of "m * page" page data] by (simp add: pkg_def add.commute)
qed simp

text \<open>A schedule: which of the two threads makes the next step.\<close>

fun run_engine :: "('e, 's) board \<Rightarrow> 'u udc \<Rightarrow> bool list \<Rightarrow> ('e, 's, 'u) engine \<Rightarrow> ('e, 's, 'u) engine option" where
  "run_engine bd d [] s = Some s"
| "run_engine bd d (b # bs) s =
     (case (if b then main_step bd d s else writer_step bd s) of None \<Rightarrow> None | Some t \<Rightarrow> run_engine bd d bs t)"

lemma run_engine_steps: "run_engine bd d bs s = Some t \<Longrightarrow> engine_steps bd d s t"
proof (induction bs arbitrary: s)
  case (Cons b bs)
  then obtain u where u: "(if b then main_step bd d s else writer_step bd s) = Some u" "run_engine bd d bs u = Some t"
    by (auto split: option.splits)
  then have "engine_step bd d s u" by (cases b) (auto intro: engine_step.intros)
  then show ?case using Cons.IH [OF u(2)] by (rule converse_rtranclp_into_rtranclp)
qed simp

subsection \<open>Properties\<close>

text \<open>
  (C5) A download writes the image that the host sends, whatever the interleaving of the two threads: when
  \<open>download_ex\<close> has come to its end and no error is recorded, the writer has ended too, and the storage is
  in the state that writing the packages one after the other, in the order in which they were received,
  leaves; the packages together are the image. No package is lost, repeated or written while it is
  being filled. The USB controller may fail at any time.
\<close>

theorem engine_delivers:
  assumes "udc_stream d inp" and "0 < bd_page bd" and "inp (usb (fb s0)) = data @ rest"
    and "\<forall>i<2. length (cache_buf (dual_cache s0 i)) = bd_page bd"
    and "engine_steps bd d (init_engine (length data) s0) s" and "main_pc s = R_done"
  shows "b_error s \<or> writer_pc s = W_done \<and>
    (\<exists>m off ss pads. concat (map (pkg (bd_page bd) data) [0..<m]) = data \<and> (\<forall>k<m. pkg (bd_page bd) data k \<noteq> []) \<and>
      pkg (bd_page bd) data m = [] \<and>
      write_seq bd data (seq_of (init_engine (length data) s0)) (Suc m) = Some (off, ss, sto_info s, pads))"
proof -
  let ?q = "seq_of (init_engine (length data) s0)"
  have "engine_inv bd inp data rest ?q (init_engine (length data) s0)"
    using init_working [where s = s0 and data = data and inp = inp, OF refl assms(3,4)] by (auto simp: engine_inv_def)
  then have inv: "engine_inv bd inp data rest ?q s" by (rule run_inv [OF assms(5) _ assms(2,1)])
  have nw: "\<not> working bd inp data rest ?q p c s" for p c using assms(6) by (simp add: working_def)
  show ?thesis
  proof (cases "b_error s")
    case False
    then have f: "finishing bd data ?q s" using inv nw assms(6) by (auto simp: engine_inv_def failing_def)
    then have "writer_pc s = W_done" using assms(6) by (cases "writer_pc s") (auto simp: finishing_def)
    moreover obtain m off ss pads where m: "full (bd_page bd) data m" "pkg (bd_page bd) data m = []"
      "write_seq bd data ?q (Suc m) = Some (off, ss, sto_info s, pads)" using f by (auto simp: finishing_def written_def simp del: write_seq.simps)
    moreover have "concat (map (pkg (bd_page bd) data) [0..<m]) = data" using m(2) pkg_Nil [OF assms(2)] by (simp add: concat_pkg)
    ultimately show ?thesis unfolding full_def by blast
  qed simp
qed

text \<open>An engine with caches of one byte, an image that is kept in memory, and a host that may stop sending.\<close>

definition example_board :: "(u8 list, unit) board" where
  "example_board = \<lparr>bd_emmc = example_emmc, bd_blk = 512, bd_page = 1, bd_magic = [], bd_signature_file = (\<lambda>b. True), bd_index = (\<lambda>n. None),
     bd_support_flash = (\<lambda>i. False), bd_size = (\<lambda>i. 0), bd_offset = (\<lambda>i. 0),
     bd_security = (\<lambda>b off ss. ((True, 0, length b), ss))\<rparr>"

definition unplugged_udc :: "(u8 list \<times> u8 list list) udc" where
  "unplugged_udc = \<lparr>udc_out = (\<lambda>n (i, o'). if i = [] then (Txn_failed, i, o') else (Txn (take n i), drop n i, o')),
     udc_in = (\<lambda>b (i, o'). (Txn (length b), i, o' @ [b]))\<rparr>"

definition example_engine :: "u8 list \<Rightarrow> (u8 list, unit, u8 list \<times> u8 list list) engine" where
  "example_engine bytes = \<lparr>
     dual_cache = (\<lambda>i. \<lparr>padding = [], cache_buf = [0], content_length = 0, content_available = init_event False, cache_available = init_event False\<rparr>),
     flipIdxR = 0, flipIdxW = 0, thr_end_ev = init_event False, b_error = False,
     sto_info = \<lparr>is_sparse = False, first_run = False, sto_base = 0, bulk_image_offset = 0, to_write_data_len = 0, partition_name = [], sto_checksum = False,
       unsparse = (\<lparr>handle_status = S_DONE, wait_phase = UNSPARSE_WAIT_SPARSE_HEADER, image_base_addr = 0, us_buf = [], checksum_enabled = False\<rparr>, zero_data, []),
       is_boot_like_image = False, boot_like_image = []\<rparr>,
     main_pc = R_done, data_length = 0, bytes_already_read = 0, bytes_read = 0, bytes_left = 0,
     fb = \<lparr>fastboot_state = STATE_COMMAND, cmdlist = [], varlist = [], normal_boot = False, platform_calls = [], usb = (bytes, [])\<rparr>,
     writer_pc = W_done, image_offset = 0, sec_state = (), download_size = 0, download_image = []\<rparr>"

text \<open>The schedule of a download of two bytes, and one in which the host stops after the first of two bytes.\<close>

definition good_schedule :: "bool list" where
  "good_schedule = replicate 16 True @ replicate 10 False @ replicate 4 True @ replicate 7 False @ replicate 7 True"

definition bad_schedule :: "bool list" where
  "bad_schedule = replicate 8 True @ replicate 2 False @ replicate 16 True @ replicate 4 False"

lemma unplugged_stream: "udc_stream unplugged_udc fst"
  by (auto simp: udc_stream_def unplugged_udc_def split: transfer.splits)

lemma bad_run:
  "case run_engine example_board unplugged_udc bad_schedule (init_engine 2 (example_engine [7])) of
     None \<Rightarrow> False
   | Some s \<Rightarrow> main_pc s = R_done \<and> b_error s \<and> writer_pc s = W_blocked \<and>
       main_step example_board unplugged_udc s = None \<and> writer_step example_board s = None"
  by code_simp

lemma good_run:
  "case run_engine example_board unplugged_udc good_schedule (init_engine 2 (example_engine [7, 8])) of
     None \<Rightarrow> False
   | Some s \<Rightarrow> main_pc s = R_done \<and> \<not> b_error s \<and> download_image s = [7, 8] \<and> snd (usb (fb s)) = [answer ''OKAY'' []]"
  by code_simp

theorem engine_delivers_witness:
  "\<exists>s m off ss pads. engine_steps example_board unplugged_udc (init_engine 2 (example_engine [7, 8])) s \<and> main_pc s = R_done \<and> writer_pc s = W_done \<and>
    concat (map (pkg 1 [7, 8]) [0..<m]) = [7, 8] \<and>
    write_seq example_board [7, 8] (seq_of (init_engine 2 (example_engine [7, 8]))) (Suc m) = Some (off, ss, sto_info s, pads)"
proof -
  obtain s where r: "run_engine example_board unplugged_udc good_schedule (init_engine 2 (example_engine [7, 8])) = Some s"
    and s: "main_pc s = R_done" "\<not> b_error s" using good_run by (auto split: option.splits)
  have st: "engine_steps example_board unplugged_udc (init_engine (length [7 :: u8, 8]) (example_engine [7, 8])) s"
    using run_engine_steps [OF r] by (simp add: numeral_2_eq_2)
  have c: "0 < bd_page example_board" "bd_page example_board = 1" "fst (usb (fb (example_engine [7, 8]))) = [7, 8] @ []"
    "\<forall>i<2. length (cache_buf (dual_cache (example_engine [7, 8]) i)) = bd_page example_board"
    by (simp_all add: example_board_def example_engine_def)
  show ?thesis
    using engine_delivers [OF unplugged_stream c(1,3,4) st s(1)] s st unfolding c(2) by (simp add: numeral_2_eq_2 del: write_seq.simps) blast
qed


subsection \<open>The events of the kernel\<close>

text \<open>What a kernel state says of an event.\<close>

definition kernel_event :: "nat \<Rightarrow> kernel \<Rightarrow> event" where
  "kernel_event e s = \<lparr>signalled = e_signalled (evt s e), blocked = (wq_list (wqs s (WQ_event e)) \<noteq> []),
     autounsignal = (e_flags (evt s e) AND EVENT_FLAG_AUTOUNSIGNAL \<noteq> 0)\<rparr>"

lemma insert_head_events:
  "insert_in_run_queue_head t s = Some s' \<Longrightarrow> evt s' = evt s \<and> wqs s' = wqs s"
  by (auto simp: insert_in_run_queue_head_def Let_def split: if_splits)

lemma wake_loop_events:
  "wake_loop q err ts s = Some s' \<Longrightarrow> wq_list (wqs s q) = ts \<Longrightarrow> evt s' = evt s \<and> wq_list (wqs s' q) = []"
proof (induction ts arbitrary: s)
  case (Cons t ts)
  then show ?case by (fastforce simp: Let_def bind_eq_Some_conv dest: insert_head_events)
qed simp

lemma kernel_event_signal:
  assumes "length (wq_list (wqs s (WQ_event e))) \<le> 1" and "event_signal e False s = Some x"
  shows "kernel_event e (kout_state x) = signal_event (kernel_event e s)"
proof (cases "wq_list (wqs s (WQ_event e))")
  case Nil
  then show ?thesis using assms(2)
    by (auto simp: event_signal_def wait_queue_wake_one_def wait_queue_wake_all_def kthen_def run_frame_def kernel_event_def signal_event_def Let_def split: if_splits)
next
  case (Cons t ts)
  then have "ts = []" using assms(1) by simp
  then show ?thesis using assms(2) Cons
    by (auto simp: event_signal_def wait_queue_wake_one_def wait_queue_wake_all_def kthen_def run_frame_def kernel_event_def signal_event_def Let_def bind_eq_Some_conv
      dest!: insert_head_events split: if_splits)
qed

lemma kernel_event_wait:
  assumes "event_wait e s = Some x"
  shows "kernel_event e (kout_state x) = snd (wait_event (kernel_event e s)) \<and> fst (wait_event (kernel_event e s)) = (\<exists>r s'. x = Ret r s')"
  using assms
  by (auto simp: event_wait_def event_wait_timeout_def wait_queue_block_def kthen_def thread_block_def kernel_event_def wait_event_def Let_def bind_eq_Some_conv split: if_splits)

lemma kernel_event_destroy:
  assumes "event_destroy e s = Some x"
  shows "kernel_event e (kout_state x) = destroy_event (kernel_event e s)"
  using assms
  by (auto simp: event_destroy_def wait_queue_destroy_def wait_queue_wake_all_def kthen_def run_frame_def kernel_event_def destroy_event_def Let_def bind_eq_Some_conv
    dest!: wake_loop_events insert_head_events split: if_splits)

text \<open>
  (C22) The events of the engine are those of the kernel: seen through \<open>kernel_event\<close>, the operations of
  \<^verbatim>\<open>kernel/event.c\<close> on an event with at most one waiting thread are the ones that the engine's steps use;
  \<open>event_wait\<close> returns at once exactly when the engine's thread goes on.
\<close>

theorem engine_events_refine:
  assumes "length (wq_list (wqs s (WQ_event e))) \<le> 1"
  shows "(\<forall>x. event_signal e False s = Some x \<longrightarrow> kernel_event e (kout_state x) = signal_event (kernel_event e s)) \<and>
    (\<forall>x. event_wait e s = Some x \<longrightarrow> kernel_event e (kout_state x) = snd (wait_event (kernel_event e s)) \<and>
       fst (wait_event (kernel_event e s)) = (\<exists>r s'. x = Ret r s')) \<and>
    (\<forall>x. event_destroy e s = Some x \<longrightarrow> kernel_event e (kout_state x) = destroy_event (kernel_event e s)) \<and>
    kernel_event e (event_init e initial EVENT_FLAG_AUTOUNSIGNAL s) = init_event initial"
proof (intro conjI allI impI)
  show "kernel_event e (event_init e initial EVENT_FLAG_AUTOUNSIGNAL s) = init_event initial"
    by (simp add: kernel_event_def event_init_def wait_queue_init_def init_event_def)
qed (use kernel_event_signal [OF assms] kernel_event_wait kernel_event_destroy in blast)+

theorem engine_events_refine_witness:
  "\<exists>x. event_signal 8 False (event_init 8 False 1 example_kernel) = Some x \<and>
    kernel_event 8 (kout_state x) = \<lparr>signalled = True, blocked = False, autounsignal = True\<rparr>"
proof -
  let ?k = "event_init 8 False 1 example_kernel"
  have l: "length (wq_list (wqs ?k (WQ_event 8))) \<le> 1" by (simp add: event_init_def wait_queue_init_def)
  have k: "kernel_event 8 ?k = \<lparr>signalled = False, blocked = False, autounsignal = True\<rparr>"
    by (simp add: kernel_event_def event_init_def wait_queue_init_def)
  obtain x where x: "event_signal 8 False ?k = Some x"
    by (simp add: event_signal_def event_init_def wait_queue_init_def wait_queue_wake_one_def kthen_def run_frame_def Let_def)
  then have "kernel_event 8 (kout_state x) = signal_event (kernel_event 8 ?k)" using engine_events_refine [OF l] by blast
  then show ?thesis using x by (simp add: k signal_event_def)
qed

end
