(* ===== verification/Spec2Isabelle.thy ===== *)
theory Spec2Isabelle
  imports LK_Sched_Props LK_Cbuf LK_List LK_Heap LK_Bio_Refs LK_Partition LK_Bcache LK_Fs LK_Sparse LK_Libc_Mem LK_Printf LK_Engine_Props
begin

text \<open>
  \<^bold>\<open>A verification of the lk boot loader\<close> (\<^verbatim>\<open>src/bootable/bootloader/lk/lk\<close>; all file names below are
  relative to it).

  \<^bold>\<open>The program.\<close> lk is a boot loader for 32-bit ARM with a small preemptive kernel. Threads are scheduled by
  priority from run queues (\<^verbatim>\<open>kernel/thread.c\<close>); they block on wait queues, on which mutexes and events are
  built (\<^verbatim>\<open>kernel/mutex.c\<close>, \<^verbatim>\<open>kernel/event.c\<close>). The timer interrupt (\<^verbatim>\<open>kernel/timer.c\<close>, \<^verbatim>\<open>arch/arm/exceptions.S\<close>)
  fires timers and preempts; finished threads are freed by deferred procedure calls (\<^verbatim>\<open>kernel/dpc.c\<close>). On top
  of the kernel are a heap, intrusive lists, a circular buffer and a C library; the storage stack of block
  devices, partitions, a block cache and mounted file systems; and the fastboot application, which takes
  images from a host over USB and writes them to the flash memory.

  \<^bold>\<open>Conventions.\<close> A C function is a function of the state it reads, returning the state it leaves. Structures
  are records, addressed by identifiers; lists linked through structures are HOL lists, which \<open>LK_List\<close>
  justifies on pointers. Unsigned integers whose wrap-around can matter are words of their width. \<open>None\<close> is a
  panic, an access outside of an object or to a freed one, or a loop that does not end; where a function
  can yield it, the theorems say when it does not. Hardware and platform code that is not in the tree is a
  parameter, with its documented behaviour as a named predicate (\<open>emmc_ok\<close>, \<open>udc_ok\<close>) or a locale that the
  model's own definitions interpret. The build is the product's: \<^verbatim>\<open>DEBUG := 0\<close>, no
  \<^verbatim>\<open>PLATFORM_HAS_DYNAMIC_TIMER\<close>.

  \<^bold>\<open>Kernel.\<close>

  \<^item> \<open>LK_Prelude\<close>: word types, error codes, byte buffers and the generic lemmas.
  \<^item> \<open>LK_Kernel\<close>: the record \<open>kernel\<close> of all kernel state.
  \<^item> \<open>LK_Thread\<close>, \<open>LK_Timer\<close>, \<open>LK_Sync\<close>, \<open>LK_Tick\<close>, \<open>LK_Dpc\<close>: the operations of the files named above. A call that
    gives the processor away returns \<open>Switch\<close> with the C functions that are left to finish (\<open>frame\<close>); \<open>kcall\<close>
    switches and resumes what the next thread had left.
  \<^item> \<open>LK_Sched_Inv\<close>, \<open>LK_Kcall\<close>, \<open>LK_Thread_Ops\<close>: the invariant of the queues and of suspended calls, and the locales
    \<open>kernel_op\<close>, \<open>kernel_op_live\<close> and \<open>timer_driver\<close>, which every operation and the keypad driver interpret.
  \<^item> \<open>LK_Keys\<close>: key table and matrix keypad (\<^verbatim>\<open>dev/keys\<close>), as a driver whose timer callback meets the contract.
  \<^item> \<open>LK_System\<close>, \<open>LK_Example\<close>, \<open>LK_Sched_Props\<close>: the boot (\<^verbatim>\<open>kernel/main.c\<close>) and all calls and interrupts as one step
    relation; the invariant and progress in every reachable state, the scheduling decision against the
    linear scan, wake-up orders, hand-over of mutexes, and the places where the code breaks its own rules.

  \<^bold>\<open>Libraries.\<close>

  \<^item> \<open>LK_List\<close> (\<^verbatim>\<open>include/list.h\<close>): the pointer code implements lists.
  \<^item> \<open>LK_Heap\<close> (\<^verbatim>\<open>lib/heap/heap.c\<close>): chunks tile the heap, allocations are aligned and disjoint, freeing undoes
    allocating; sizes near the end of the range wrap.
  \<^item> \<open>LK_Cbuf\<close> (\<^verbatim>\<open>lib/cbuf/cbuf.c\<close>): refines a bounded queue, with its two exceptions.
  \<^item> \<open>LK_Libc_Mem\<close>, \<open>LK_Libc_Str\<close>, \<open>LK_Printf\<close> (\<^verbatim>\<open>lib/libc\<close>): word-wise copies against byte-wise ones, string functions
    with their bounds, \<open>vsnprintf\<close> and the conversions of numbers.

  \<^bold>\<open>Storage.\<close>

  \<^item> \<open>LK_Bio\<close>, \<open>LK_Bio_View\<close>, \<open>LK_Bio_Refs\<close> (\<^verbatim>\<open>lib/bio\<close>, \<^verbatim>\<open>platform/armemu/blkdev.c\<close>): transfers as effects on
    the bytes of a medium, through any chain of subdevices; reference counts and freedom from use after free.
  \<^item> \<open>LK_Partition\<close> (\<^verbatim>\<open>lib/partition/partition.c\<close>): master boot records published as subdevices.
  \<^item> \<open>LK_Bcache\<close> (\<^verbatim>\<open>lib/bcache/bcache.c\<close>): the cache is transparent for every device that meets the locale
    \<open>byte_device\<close>, which the devices of \<open>LK_Bio\<close> interpret.
  \<^item> \<open>LK_Path\<close>, \<open>LK_Fs\<close> (\<^verbatim>\<open>lib/fs/fs.c\<close>): normal forms of paths, the table of mounts and its reference counts.

  \<^bold>\<open>Fastboot.\<close>

  \<^item> \<open>LK_Fastboot\<close> (\<^verbatim>\<open>app/mt_boot/fastboot.c\<close>, \<^verbatim>\<open>sys_commands.c\<close>): transfers, the tables, dispatch and answers
    of commands.
  \<^item> \<open>LK_Sparse\<close> (\<^verbatim>\<open>app/mt_boot/sparse_state_machine.c\<close>): the writer of sparse images against a byte by byte reading.
  \<^item> \<open>LK_Download\<close> (\<^verbatim>\<open>app/mt_boot/download_commands.c\<close>): the partition an image is for, and the writing of its packages.
  \<^item> \<open>LK_Engine\<close>, \<open>LK_Engine_Inv\<close>, \<open>LK_Engine_Props\<close> (the same file): the two threads of a download with their two caches
    as step functions that interleave in any way. Packages are written in the order in which they are
    received; the events that the threads use are the kernel's; after a USB failure the writer can be left
    blocked.

  \<^bold>\<open>Bounds and fuel.\<close> The argument \<open>n\<close> of block device operations bounds the chain of parents; well formed
  devices have chains shorter than the number of devices, and the theorems name the bound that is
  enough. Loops whose end depends on data or on drivers are partial functions (\<open>timer_loop\<close>,
  \<open>mmc_write_sparse_data\<close>, \<open>fastboot_command_loop\<close>); the theorems on the timer interrupt and on sparse
  images show that the first two end, and the third ends only when the host disconnects.

  \<^bold>\<open>Not modelled.\<close> Printing and debug commands; the interactive shell; graphics; zlib and OpenSSL; page tables,
  caches and the assembler of the context switch; register-level drivers of platforms and targets; the
  application of the Qualcomm targets (\<^verbatim>\<open>app/aboot\<close>); in \<^verbatim>\<open>app/mt_boot\<close> the start of the Linux kernel, the
  verification of signatures, the flash and erase commands and the NAND variants, whose platform headers
  are not in the tree. The other trees of the repository (U-Boot, bionic, external projects) are programs that lk does not call.
\<close>

end
